(* ===== verification/Acheron_Prelude.thy ===== *)
theory Acheron_Prelude
  imports Main "HOL-Library.AList"
begin

text \<open>
  Shared vocabulary of the development: the exceptions the application raises or catches, the
  state-and-exception type every \<open>async\<close> method of the code is translated to, Python's integer
  formatting, and list lemmas that several components use.
\<close>

section \<open>Automation collections\<close>

named_theorems io_defs \<open>unfolding rules of the state-and-exception combinators\<close>
named_theorems inv_intro \<open>operations that keep a component's invariant\<close>

section \<open>Exceptions\<close>

text \<open>
  One constructor per exception class the code names or lets through. \<open>BulkWriteErr\<close> carries what
  \<open>exc.details["writeErrors"]\<close> holds: the index of the refused document in the request and the
  server's error code. \<open>PyMongoErr\<close> stands for every other subclass of \<open>PyMongoError\<close>;
  \<open>TransportErr\<close> and \<open>RedisErr\<close> for what the Elasticsearch and the Redis client raise;
  \<open>HTTPExc\<close> is FastAPI's \<open>HTTPException\<close> with its status code and detail.
\<close>

datatype exn =
    RuntimeErr string
  | AttributeErr
  | ValueErr
  | OverflowErr
  | ZeroDivisionErr
  | TypeErr
  | ValidationErr
  | KeyErr string
  | IngestionClosed
  | QueueFull
  | QueueEmpty
  | CancelledErr
  | BulkWriteErr "(nat \<times> int) list"
  | OperationFailure int
  | PyMongoErr string
  | TransportErr string
  | RedisErr string
  | HTTPExc nat string

text \<open>\<open>except Exception\<close> catches everything but \<open>asyncio.CancelledError\<close>, a \<open>BaseException\<close>.\<close>

definition is_Exception :: "exn \<Rightarrow> bool" where
  "is_Exception e \<longleftrightarrow> e \<noteq> CancelledErr"

text \<open>\<open>BulkWriteError\<close> is a subclass of \<open>OperationFailure\<close>, which is a \<open>PyMongoError\<close>.\<close>

fun is_PyMongoError :: "exn \<Rightarrow> bool" where
  "is_PyMongoError (BulkWriteErr _) = True"
| "is_PyMongoError (OperationFailure _) = True"
| "is_PyMongoError (PyMongoErr _) = True"
| "is_PyMongoError _ = False"

fun is_OperationFailure :: "exn \<Rightarrow> bool" where
  "is_OperationFailure (BulkWriteErr _) = True"
| "is_OperationFailure (OperationFailure _) = True"
| "is_OperationFailure _ = False"

lemma is_Exception_simps [simp]:
  "is_Exception (BulkWriteErr es)" "is_Exception (PyMongoErr m)" "is_Exception OverflowErr"
  "\<not> is_Exception CancelledErr"
  by (simp_all add: is_Exception_def)

lemma PyMongoError_is_Exception: "is_PyMongoError e \<Longrightarrow> is_Exception e"
  by (cases e) (auto simp: is_Exception_def)

section \<open>State passing with exceptions\<close>

text \<open>
  A method that reads and writes a state of type \<open>'s\<close> and returns an \<open>'a\<close> or raises: the state after
  the call is returned in both cases, because an exception does not undo what was done before it.
\<close>

type_synonym ('s, 'a) io = "'s \<Rightarrow> (exn + 'a) \<times> 's"

definition io_return :: "'a \<Rightarrow> ('s, 'a) io" where
  "io_return x = (\<lambda>s. (Inr x, s))"

definition io_raise :: "exn \<Rightarrow> ('s, 'a) io" where
  "io_raise e = (\<lambda>s. (Inl e, s))"

definition io_bind :: "('s, 'a) io \<Rightarrow> ('a \<Rightarrow> ('s, 'b) io) \<Rightarrow> ('s, 'b) io" where
  "io_bind m f = (\<lambda>s. case m s of (Inl e, s') \<Rightarrow> (Inl e, s') | (Inr x, s') \<Rightarrow> f x s')"

text \<open>\<open>try: m except p as exc: h exc\<close>: the handler runs for the exceptions \<open>p\<close> selects.\<close>

definition io_catch :: "('s, 'a) io \<Rightarrow> (exn \<Rightarrow> bool) \<Rightarrow> (exn \<Rightarrow> ('s, 'a) io) \<Rightarrow> ('s, 'a) io" where
  "io_catch m p h = (\<lambda>s. case m s of
       (Inl e, s') \<Rightarrow> if p e then h e s' else (Inl e, s')
     | (Inr x, s') \<Rightarrow> (Inr x, s'))"

declare io_return_def [io_defs] io_raise_def [io_defs] io_bind_def [io_defs] io_catch_def [io_defs]

lemma io_return_apply [simp]: "io_return x s = (Inr x, s)"
  by (simp add: io_defs)

lemma io_raise_apply [simp]: "io_raise e s = (Inl e, s)"
  by (simp add: io_defs)

lemma io_bind_Inr: "m s = (Inr x, s') \<Longrightarrow> io_bind m f s = f x s'"
  by (simp add: io_defs)

lemma io_bind_Inl: "m s = (Inl e, s') \<Longrightarrow> io_bind m f s = (Inl e, s')"
  by (simp add: io_defs)

lemma io_bind_cases:
  assumes "io_bind m f s = (r, t)"
  obtains (raised) e where "m s = (Inl e, t)" "r = Inl e"
    | (returned) x s' where "m s = (Inr x, s')" "f x s' = (r, t)"
  using assms by (auto simp: io_bind_def split: prod.splits sum.splits)

lemma io_catch_Inr: "m s = (Inr x, s') \<Longrightarrow> io_catch m p h s = (Inr x, s')"
  by (simp add: io_defs)

lemma io_catch_Inl:
  "m s = (Inl e, s') \<Longrightarrow> io_catch m p h s = (if p e then h e s' else (Inl e, s'))"
  by (simp add: io_defs)

section \<open>Python's \<open>str\<close> of an integer\<close>

fun nat_str :: "nat \<Rightarrow> string" where
  "nat_str n = (if n < 10 then [char_of (48 + n)] else nat_str (n div 10) @ [char_of (48 + n mod 10)])"

declare nat_str.simps [simp del]

definition int_str :: "int \<Rightarrow> string" where
  "int_str i = (if i < 0 then CHR ''-'' # nat_str (nat (- i)) else nat_str (nat i))"

definition digit_char :: "char \<Rightarrow> bool" where
  "digit_char c \<longleftrightarrow> 48 \<le> (of_char c :: nat) \<and> (of_char c :: nat) \<le> 57"

lemma nat_str_nonempty [simp]: "nat_str n \<noteq> []"
  by (subst nat_str.simps) simp

lemma digit_char_of [simp]: "(d::nat) < 10 \<Longrightarrow> digit_char (char_of (48 + d))"
  by (simp add: digit_char_def)

lemma nat_str_digits: "\<forall>c \<in> set (nat_str n). digit_char c"
proof (induction n rule: nat_str.induct)
  case (1 n)
  then show ?case
    by (cases "n < 10") (subst nat_str.simps, simp)+
qed

text \<open>The decimal value of a digit string; it inverts \<^const>\<open>nat_str\<close>, which is therefore injective.\<close>

definition digits_val :: "string \<Rightarrow> nat" where
  "digits_val s = foldl (\<lambda>v c. 10 * v + (of_char c - 48)) 0 s"

lemma digits_val_snoc: "digits_val (s @ [c]) = 10 * digits_val s + (of_char c - 48)"
  by (simp add: digits_val_def)

lemma digits_val_nat_str [simp]: "digits_val (nat_str n) = n"
proof (induction n rule: nat_str.induct)
  case (1 n)
  show ?case
  proof (cases "n < 10")
    case True
    then show ?thesis by (subst nat_str.simps) (simp add: digits_val_def)
  next
    case False
    with 1 show ?thesis by (subst nat_str.simps) (simp add: digits_val_snoc)
  qed
qed

lemma nat_str_inj [simp]: "nat_str m = nat_str n \<longleftrightarrow> m = n"
  by (metis digits_val_nat_str)

lemma minus_not_digit [simp]: "\<not> digit_char CHR ''-''"
  by (simp add: digit_char_def)

lemma colon_not_digit [simp]: "\<not> digit_char CHR '':''"
  by (simp add: digit_char_def)

lemma nat_str_not_minus: "nat_str n \<noteq> CHR ''-'' # s"
  using nat_str_digits [of n] by (metis list.set_intros(1) minus_not_digit)

lemma int_str_inj [simp]: "int_str i = int_str j \<longleftrightarrow> i = j"
  using nat_str_not_minus [of "nat i"] nat_str_not_minus [of "nat j"]
  by (auto simp: int_str_def split: if_splits) (metis nat_str_not_minus)

section \<open>Lists\<close>

lemma distinct_map_filter_id: "distinct (map f xs) \<Longrightarrow> distinct (map f (filter P xs))"
  by (induction xs) auto

lemma sum_list_map_Suc0: "sum_list (map (\<lambda>_. Suc 0) xs) = length xs"
  by (induction xs) auto

lemma sum_list_update_add:
  fixes f :: "'a \<Rightarrow> nat"
  shows "i < length xs \<Longrightarrow> sum_list (map f (xs[i := x])) + f (xs ! i) = sum_list (map f xs) + f x"
  by (induction xs arbitrary: i) (auto simp: nth_Cons' less_Suc_eq_0_disj split: nat.splits)

section \<open>Computations that keep a property of the state\<close>

definition io_keeps :: "('s \<Rightarrow> bool) \<Rightarrow> ('s, 'a) io \<Rightarrow> bool" where
  "io_keeps P f \<longleftrightarrow> (\<forall>s r s'. f s = (r, s') \<longrightarrow> P s \<longrightarrow> P s')"

lemma io_keepsI [intro?]: "(\<And>s r s'. f s = (r, s') \<Longrightarrow> P s \<Longrightarrow> P s') \<Longrightarrow> io_keeps P f"
  by (simp add: io_keeps_def)

lemma io_keepsD: "io_keeps P f \<Longrightarrow> f s = (r, s') \<Longrightarrow> P s \<Longrightarrow> P s'"
  by (simp add: io_keeps_def)

lemma io_keeps_return [simp, inv_intro]: "io_keeps P (io_return x)" "io_keeps P (io_raise e)"
  by (simp_all add: io_keeps_def)

lemma io_keeps_bind [inv_intro]:
  assumes "io_keeps P f" and "\<And>x. io_keeps P (g x)"
  shows "io_keeps P (io_bind f g)"
proof (rule io_keepsI)
  fix s r s'
  assume "io_bind f g s = (r, s')" and "P s"
  then show "P s'" by (cases rule: io_bind_cases) (auto dest: io_keepsD [OF assms(1)] io_keepsD [OF assms(2)])
qed

lemma io_keeps_catch [inv_intro]: "io_keeps P f \<Longrightarrow> (\<And>e. io_keeps P (h e)) \<Longrightarrow> io_keeps P (io_catch f p h)"
proof (rule io_keepsI)
  fix s r s'
  assume f: "io_keeps P f" and h: "\<And>e. io_keeps P (h e)" and run: "io_catch f p h s = (r, s')" and "P s"
  obtain r0 s0 where call: "f s = (r0, s0)" by (metis surj_pair)
  have "P s0" using io_keepsD [OF f call \<open>P s\<close>] .
  with run call show "P s'" by (auto simp: io_catch_def dest: io_keepsD [OF h] split: sum.splits if_splits)
qed

end
