(* ===== verification/Py_Values.thy ===== *)
theory Py_Values
  imports Acheron_Prelude
begin

text \<open>
  Python values: the ones JSON carries, datetimes, lists and dicts (insertion-ordered, as association
  lists without repeated keys). A \<open>str\<close> is a list of code points below 256. A finite float is
  identified by its \<open>repr\<close>, which Python guarantees to be unambiguous.
\<close>

section \<open>Datetimes\<close>

text \<open>
  A \<open>datetime\<close>: its instant in microseconds since 1970-01-01T00:00 UTC (a naive value counts as UTC,
  as the Mongo driver takes it) and its UTC offset in minutes, \<open>None\<close> for a naive value.
\<close>

record datetime =
  dt_micros :: int
  dt_offset :: "int option"

definition utc_datetime :: "int \<Rightarrow> datetime" where
  "utc_datetime t = \<lparr>dt_micros = t, dt_offset = Some 0\<rparr>"

text \<open>\<open>dt - timedelta(seconds=n)\<close>.\<close>

definition dt_minus_seconds :: "datetime \<Rightarrow> int \<Rightarrow> datetime" where
  "dt_minus_seconds d n = d\<lparr>dt_micros := dt_micros d - n * 1000000\<rparr>"

text \<open>The proleptic Gregorian date of a day number (0 is 1970-01-01).\<close>

definition civil_of_days :: "int \<Rightarrow> int \<times> int \<times> int" where
  "civil_of_days n =
     (let z = n + 719468; era = z div 146097; doe = z mod 146097;
          yoe = (doe - doe div 1460 + doe div 36524 - doe div 146096) div 365;
          doy = doe - (365 * yoe + yoe div 4 - yoe div 100);
          mp = (5 * doy + 2) div 153;
          d = doy - (153 * mp + 2) div 5 + 1;
          m = (if mp < 10 then mp + 3 else mp - 9)
      in (yoe + era * 400 + (if m \<le> 2 then 1 else 0), m, d))"

definition pad_left :: "nat \<Rightarrow> string \<Rightarrow> string" where
  "pad_left w s = replicate (w - length s) CHR ''0'' @ s"

definition iso_offset :: "int option \<Rightarrow> string" where
  "iso_offset off = (case off of None \<Rightarrow> [] | Some m \<Rightarrow>
     (if m < 0 then ''-'' else ''+'') @ pad_left 2 (int_str (abs m div 60)) @ '':'' @
     pad_left 2 (int_str (abs m mod 60)))"

text \<open>\<open>datetime.isoformat(sep)\<close>: the fraction is printed only when it is not zero.\<close>

definition isoformat_sep :: "string \<Rightarrow> datetime \<Rightarrow> string" where
  "isoformat_sep sep dt =
     (let wall = dt_micros dt + (case dt_offset dt of None \<Rightarrow> 0 | Some m \<Rightarrow> m * 60000000);
          us = wall mod 1000000; secs = wall div 1000000; sod = secs mod 86400
      in (case civil_of_days (secs div 86400) of (y, m, d) \<Rightarrow>
           pad_left 4 (int_str y) @ ''-'' @ pad_left 2 (int_str m) @ ''-'' @ pad_left 2 (int_str d) @ sep @
           pad_left 2 (int_str (sod div 3600)) @ '':'' @ pad_left 2 (int_str (sod div 60 mod 60)) @ '':'' @
           pad_left 2 (int_str (sod mod 60)) @
           (if us = 0 then [] else ''.'' @ pad_left 6 (int_str us)) @ iso_offset (dt_offset dt)))"

abbreviation isoformat :: "datetime \<Rightarrow> string" where
  "isoformat \<equiv> isoformat_sep ''T''"

section \<open>Values and dicts\<close>

datatype pyval =
    PNone
  | PBool bool
  | PInt int
  | PFloat string
  | PStr string
  | PDate datetime
  | PList "pyval list"
  | PDict "(string \<times> pyval) list"

type_synonym pydict = "(string \<times> pyval) list"

abbreviation dict_get :: "pydict \<Rightarrow> string \<Rightarrow> pyval option" where
  "dict_get \<equiv> map_of"

text \<open>\<open>d[k] = v\<close>: in place when the key is there, at the end otherwise.\<close>

abbreviation dict_set :: "string \<Rightarrow> pyval \<Rightarrow> pydict \<Rightarrow> pydict" where
  "dict_set \<equiv> AList.update"

lemma dict_get_set [simp]: "dict_get (dict_set k v d) k' = (if k' = k then Some v else dict_get d k')"
  by (simp add: update_conv')

text \<open>\<open>str(value)\<close> of a scalar; the code never applies \<open>str\<close> to a list or a dict.\<close>

fun py_str :: "pyval \<Rightarrow> string" where
  "py_str PNone = ''None''"
| "py_str (PBool b) = (if b then ''True'' else ''False'')"
| "py_str (PInt i) = int_str i"
| "py_str (PFloat r) = r"
| "py_str (PStr s) = s"
| "py_str (PDate d) = isoformat_sep '' '' d"

section \<open>\<open>str.strip\<close>\<close>

text \<open>The code points below 256 that \<open>str.isspace\<close> accepts.\<close>

definition py_space :: "char \<Rightarrow> bool" where
  "py_space c \<longleftrightarrow> (of_char c :: nat) \<in> {9, 10, 11, 12, 13, 28, 29, 30, 31, 32, 133, 160}"

definition strip :: "string \<Rightarrow> string" where
  "strip s = rev (dropWhile py_space (rev (dropWhile py_space s)))"

lemma strip_blank: "\<forall>c \<in> set s. py_space c \<Longrightarrow> strip s = []"
  by (auto simp: strip_def dest: set_dropWhileD)

lemma dropWhile_idem_last: "xs = [] \<or> \<not> P (last xs) \<Longrightarrow> dropWhile P (rev xs) = rev xs"
  by (cases xs rule: rev_cases) auto

lemma strip_trimmed:
  assumes "s = [] \<or> (\<not> py_space (hd s) \<and> \<not> py_space (last s))"
  shows "strip s = s"
proof -
  from assms have "dropWhile py_space s = s" by (cases s) auto
  moreover from assms have "dropWhile py_space (rev s) = rev s"
    by (intro dropWhile_idem_last) auto
  ultimately show ?thesis by (simp add: strip_def)
qed

lemma last_dropWhile: "dropWhile P xs \<noteq> [] \<Longrightarrow> last (dropWhile P xs) = last xs"
  by (induction xs) auto

lemma strip_ends: "strip s = [] \<or> (\<not> py_space (hd (strip s)) \<and> \<not> py_space (last (strip s)))"
proof (cases "strip s = []")
  case False
  let ?a = "dropWhile py_space s" and ?b = "dropWhile py_space (rev (dropWhile py_space s))"
  from False have ne: "?b \<noteq> []" by (simp add: strip_def)
  then have a: "?a \<noteq> []" by (metis dropWhile.simps(1) rev.simps(1))
  have "\<not> py_space (hd ?b)" using ne by (metis hd_dropWhile)
  moreover have "last ?b = hd ?a" using ne a by (simp add: last_dropWhile last_rev)
  moreover have "\<not> py_space (hd ?a)" using a by (metis hd_dropWhile)
  ultimately show ?thesis using ne by (simp add: strip_def hd_rev last_rev)
qed simp

lemma strip_idem [simp]: "strip (strip s) = strip s"
  using strip_ends by (rule strip_trimmed)

end
