(* ===== verification/Mongo_Contract.thy ===== *)
theory Mongo_Contract
  imports Py_Values "HOL-Library.Multiset" "HOL-Library.Product_Lexorder"
    "HOL-Library.List_Lexorder" "HOL-Library.Char_ord"
begin

text \<open>
  The Mongo driver (Motor) is not part of the repository: it is a record of operations over an
  unknown client state \<open>'m\<close>, and a parameter of every definition that calls it. This theory states the
  documented behaviour the application relies on, relative to a view \<open>V\<close> that reads the documents of
  a collection out of the client state: unordered inserts and their write errors, the query and the
  update operators the code sends, sort/skip/limit, and the aggregation stages of \<open>/events/stats\<close>.
\<close>

section \<open>The driver\<close>

type_synonym ns = "string \<times> string"

text \<open>\<open>find(filter, projection).sort(field, dir).skip(n).limit(m).to_list(length=m)\<close>.\<close>

record find_query =
  fq_filter :: pydict
  fq_projection :: pydict
  fq_sort :: "string \<times> int"
  fq_skip :: nat
  fq_limit :: nat

record 'm mongo_driver =
  md_client :: "string \<Rightarrow> 'm"
  md_ping :: "('m, unit) io"
  md_close :: "'m \<Rightarrow> 'm"
  md_create_index :: "ns \<Rightarrow> (string \<times> int) list \<Rightarrow> pydict \<Rightarrow> ('m, unit) io"
  md_drop_index :: "ns \<Rightarrow> string \<Rightarrow> ('m, unit) io"
  md_insert_many :: "ns \<Rightarrow> pydict list \<Rightarrow> bool \<Rightarrow> ('m, unit) io"
  md_find :: "ns \<Rightarrow> find_query \<Rightarrow> ('m, pydict list) io"
  md_find_one :: "ns \<Rightarrow> pydict \<Rightarrow> pydict \<Rightarrow> ('m, pydict option) io"
  md_count_documents :: "ns \<Rightarrow> pydict \<Rightarrow> ('m, nat) io"
  md_aggregate :: "ns \<Rightarrow> pydict list \<Rightarrow> ('m, pydict list) io"
  md_update_one :: "ns \<Rightarrow> pydict \<Rightarrow> pydict \<Rightarrow> bool \<Rightarrow> ('m, unit) io"
  md_update_many :: "ns \<Rightarrow> pydict \<Rightarrow> pydict \<Rightarrow> ('m, unit) io"
  md_delete_one :: "ns \<Rightarrow> pydict \<Rightarrow> ('m, nat) io"

type_synonym 'm mongo_view = "'m \<Rightarrow> ns \<Rightarrow> pydict list"

section \<open>BSON\<close>

text \<open>
  BSON integers have 64 bits; encoding a wider one raises \<open>OverflowError\<close>. Dates are stored with
  millisecond precision and read back as naive UTC datetimes; everything else reads back unchanged.
\<close>

fun bson_ok :: "pyval \<Rightarrow> bool" where
  "bson_ok (PInt i) = (- (2 ^ 63) \<le> i \<and> i < 2 ^ 63)"
| "bson_ok (PList vs) = list_all bson_ok vs"
| "bson_ok (PDict d) = list_all (\<lambda>kv. bson_ok (snd kv)) d"
| "bson_ok _ = True"

definition bson_date :: "datetime \<Rightarrow> datetime" where
  "bson_date d = \<lparr>dt_micros = dt_micros d div 1000 * 1000, dt_offset = None\<rparr>"

fun bson :: "pyval \<Rightarrow> pyval" where
  "bson (PDate d) = PDate (bson_date d)"
| "bson (PList vs) = PList (map bson vs)"
| "bson (PDict d) = PDict (map (\<lambda>kv. (fst kv, bson (snd kv))) d)"
| "bson v = v"

lemma bson_date_idem [simp]: "bson_date (bson_date d) = bson_date d"
  by (simp add: bson_date_def)

lemma bson_idem [simp]: "bson (bson v) = bson v"
  by (induction v rule: bson.induct) (auto simp: comp_def)

text \<open>A stored document holds the inserted one's fields, in any order.\<close>

definition stored_as :: "pydict \<Rightarrow> pydict \<Rightarrow> bool" where
  "stored_as d d' \<longleftrightarrow> (\<forall>k. dict_get d' k = map_option bson (dict_get d k))"

definition doc_id :: "pydict \<Rightarrow> pyval option" where
  "doc_id d = dict_get d ''_id''"

section \<open>Queries and updates\<close>

fun eq_match :: "pyval option \<Rightarrow> pyval \<Rightarrow> bool" where
  "eq_match None c = (c = PNone)"
| "eq_match (Some (PList xs)) c = (PList xs = c \<or> c \<in> set xs)"
| "eq_match (Some v) c = (v = c)"

fun op_match :: "pyval option \<Rightarrow> string \<times> pyval \<Rightarrow> bool" where
  "op_match (Some (PDate d)) (op, PDate a) =
     (if op = ''$gte'' then dt_micros (bson_date a) \<le> dt_micros d
      else if op = ''$lte'' then dt_micros d \<le> dt_micros (bson_date a) else False)"
| "op_match v (op, PList xs) = (op = ''$in'' \<and> list_ex (eq_match v) xs)"
| "op_match _ _ = False"

fun cond_match :: "pyval option \<Rightarrow> pyval \<Rightarrow> bool" where
  "cond_match v (PDict ops) = list_all (op_match v) ops"
| "cond_match v c = eq_match v (bson c)"

definition mongo_matches :: "pydict \<Rightarrow> pydict \<Rightarrow> bool" where
  "mongo_matches filt d = list_all (\<lambda>kc. cond_match (dict_get d (fst kc)) (snd kc)) filt"

text \<open>The filters covered: equality with a scalar, \<open>$gte\<close> and \<open>$lte\<close> with a date, \<open>$in\<close> with a list.\<close>

fun op_covered :: "string \<times> pyval \<Rightarrow> bool" where
  "op_covered (op, PDate _) = (op = ''$gte'' \<or> op = ''$lte'')"
| "op_covered (op, PList _) = (op = ''$in'')"
| "op_covered _ = False"

fun cond_covered :: "pyval \<Rightarrow> bool" where
  "cond_covered (PDict ops) = (ops \<noteq> [] \<and> list_all op_covered ops)"
| "cond_covered (PList _) = False"
| "cond_covered _ = True"

definition filter_covered :: "pydict \<Rightarrow> bool" where
  "filter_covered filt = list_all (\<lambda>kc. cond_covered (snd kc)) filt"

definition project_out :: "pydict \<Rightarrow> pydict \<Rightarrow> pydict" where
  "project_out proj d = filter (\<lambda>kv. dict_get proj (fst kv) \<noteq> Some (PInt 0)) d"

text \<open>Documents in the order \<open>sort(field, dir)\<close> asks for; ties come in any order.\<close>

definition sort_le :: "string \<times> int \<Rightarrow> pydict \<Rightarrow> pydict \<Rightarrow> bool" where
  "sort_le srt d d' \<longleftrightarrow> (\<forall>a b. dict_get d (fst srt) = Some (PDate a) \<longrightarrow> dict_get d' (fst srt) = Some (PDate b) \<longrightarrow>
     (if 0 < snd srt then dt_micros a \<le> dt_micros b else dt_micros b \<le> dt_micros a))"

text \<open>\<open>{"$set": sets}\<close>.\<close>

definition set_fields :: "pydict \<Rightarrow> pydict \<Rightarrow> pydict \<Rightarrow> bool" where
  "set_fields sets d d' \<longleftrightarrow> (\<forall>k. dict_get d' k =
     (case dict_get sets k of Some v \<Rightarrow> Some (bson v) | None \<Rightarrow> dict_get d k))"

lemma dict_get_project_out:
  "dict_get (project_out proj d) k = (if dict_get proj k = Some (PInt 0) then None else dict_get d k)"
  by (induction d) (auto simp: project_out_def)

section \<open>Aggregation stages\<close>

text \<open>\<open>$dateTrunc\<close> in UTC by minute, hour, day and week; weeks start on Sunday, the server's default. Other units are not covered below.\<close>

definition date_trunc :: "string \<Rightarrow> datetime \<Rightarrow> datetime" where
  "date_trunc unit d =
     (let t = dt_micros d; day = 86400000000; n = t div day in
      \<lparr>dt_micros =
         (if unit = ''minute'' then t div 60000000 * 60000000
          else if unit = ''hour'' then t div 3600000000 * 3600000000
          else if unit = ''day'' then n * day
          else if unit = ''week'' then (n - (n + 4) mod 7) * day
          else t),
       dt_offset = None\<rparr>)"

fun split_path :: "string \<Rightarrow> string \<Rightarrow> string list" where
  "split_path acc [] = [acc]"
| "split_path acc (c # s) = (if c = CHR ''.'' then acc # split_path [] s else split_path (acc @ [c]) s)"

fun get_path :: "pyval option \<Rightarrow> string list \<Rightarrow> pyval option" where
  "get_path v [] = v"
| "get_path (Some (PDict d)) (k # ks) = get_path (dict_get d k) ks"
| "get_path _ (k # ks) = None"

abbreviation get_field :: "pydict \<Rightarrow> string \<Rightarrow> pyval option" where
  "get_field d path \<equiv> get_path (Some (PDict d)) (split_path [] path)"

definition field_expr :: "pydict \<Rightarrow> string \<Rightarrow> pyval" where
  "field_expr d s = (case s of [] \<Rightarrow> PStr [] | c # path \<Rightarrow>
     if c = CHR ''$'' then (case get_field d path of None \<Rightarrow> PNone | Some v \<Rightarrow> v) else PStr s)"

definition trunc_expr :: "pydict \<Rightarrow> pyval \<Rightarrow> pyval" where
  "trunc_expr d arg = (case arg of
     PDict a \<Rightarrow> (case (dict_get a ''date'', dict_get a ''unit'') of
        (Some (PStr f), Some (PStr u)) \<Rightarrow>
           (case field_expr d f of PDate t \<Rightarrow> PDate (date_trunc u t) | _ \<Rightarrow> PNone)
      | _ \<Rightarrow> PNone)
   | _ \<Rightarrow> PNone)"

fun eval_expr :: "pydict \<Rightarrow> pyval \<Rightarrow> pyval" where
  "eval_expr d (PStr s) = field_expr d s"
| "eval_expr d (PDict kvs) =
     (if map fst kvs = [''$dateTrunc''] then trunc_expr d (snd (hd kvs))
      else PDict (map (\<lambda>kv. (fst kv, eval_expr d (snd kv))) kvs))"
| "eval_expr d v = v"

text \<open>\<open>{"$group": {"_id": e, "count": {"$sum": 1}}}\<close>: one row per value of \<open>e\<close>.\<close>

definition group_count :: "pyval \<Rightarrow> pydict list \<Rightarrow> pydict list" where
  "group_count e docs = map (\<lambda>k. [(''_id'', k), (''count'', PInt (int (length (filter (\<lambda>d. eval_expr d e = k) docs))))])
     (remdups (map (\<lambda>d. eval_expr d e) docs))"

text \<open>The sort key of a field: integers and dates by value, strings by code point (only ascending, as covered below).\<close>

fun sort_value :: "int \<Rightarrow> pyval option \<Rightarrow> int \<times> string" where
  "sort_value dir (Some (PInt i)) = (dir * i, [])"
| "sort_value dir (Some (PDate d)) = (dir * dt_micros d, [])"
| "sort_value dir (Some (PStr s)) = (0, s)"
| "sort_value dir _ = (0, [])"

definition sort_keys :: "pydict \<Rightarrow> pydict \<Rightarrow> (int \<times> string) list" where
  "sort_keys spec d =
     map (\<lambda>kv. sort_value (case snd kv of PInt i \<Rightarrow> i | _ \<Rightarrow> 1) (get_field d (fst kv))) spec"

text \<open>
  \<open>$project\<close>: the included fields first, in the order of the document, then the computed ones, in the
  order of the specification.
\<close>

definition project_row :: "pydict \<Rightarrow> pydict \<Rightarrow> pydict" where
  "project_row spec d =
     filter (\<lambda>kv. dict_get spec (fst kv) = Some (PInt 1)) d @
     concat (map (\<lambda>kv. (case snd kv of PInt _ \<Rightarrow> [] | e \<Rightarrow> [(fst kv, eval_expr d e)])) spec)"

text \<open>Four stages are read; pipelines with any other one are not covered.\<close>

fun run_stage :: "pydict \<Rightarrow> pydict list \<Rightarrow> pydict list" where
  "run_stage [(op, PDict arg)] docs =
     (if op = ''$match'' then filter (mongo_matches arg) docs
      else if op = ''$group'' then (case dict_get arg ''_id'' of None \<Rightarrow> [] | Some e \<Rightarrow> group_count e docs)
      else if op = ''$sort'' then sort_key (sort_keys arg) docs
      else if op = ''$project'' then map (project_row arg) docs
      else docs)"
| "run_stage _ docs = docs"

definition run_pipeline :: "pydict list \<Rightarrow> pydict list \<Rightarrow> pydict list" where
  "run_pipeline stages docs = foldl (\<lambda>ds st. run_stage st ds) docs stages"

text \<open>
  The pipelines covered: an optional \<open>$match\<close>, a count per group, a sort that leaves no ties, and a
  projection. A group is a string field, or a document of string fields and of dates truncated to one of
  four units, and every document must have these fields; nothing is assumed of other pipelines.
\<close>

definition TRUNC_UNITS :: "string list" where
  "TRUNC_UNITS = [''minute'', ''hour'', ''day'', ''week'']"

definition plain_name :: "string \<Rightarrow> bool" where
  "plain_name k \<longleftrightarrow> k \<noteq> [] \<and> hd k \<noteq> CHR ''$'' \<and> CHR ''.'' \<notin> set k"

fun string_field :: "pyval \<Rightarrow> pydict \<Rightarrow> bool" where
  "string_field (PStr (c # path)) d = (c = CHR ''$'' \<and> plain_name path \<and> (case dict_get d path of Some (PStr _) \<Rightarrow> True | _ \<Rightarrow> False))"
| "string_field _ d = False"

fun bucket_field :: "pyval \<Rightarrow> pydict \<Rightarrow> bool" where
  "bucket_field (PDict [(op, PDict [(date, PStr (c # path)), (unit, PStr u)])]) d =
     (op = ''$dateTrunc'' \<and> date = ''date'' \<and> unit = ''unit'' \<and> u \<in> set TRUNC_UNITS \<and> c = CHR ''$'' \<and> plain_name path \<and>
      (case dict_get d path of Some (PDate _) \<Rightarrow> True | _ \<Rightarrow> False))"
| "bucket_field _ d = False"

fun group_covered :: "pyval \<Rightarrow> pydict list \<Rightarrow> bool" where
  "group_covered (PDict kvs) docs = (distinct (map fst kvs) \<and>
     list_all (\<lambda>kv. plain_name (fst kv) \<and> (list_all (string_field (snd kv)) docs \<or> list_all (bucket_field (snd kv)) docs)) kvs)"
| "group_covered e docs = list_all (string_field e) docs"

fun id_paths :: "pyval \<Rightarrow> string list" where
  "id_paths (PDict kvs) = map (\<lambda>kv. ''_id.'' @ fst kv) kvs"
| "id_paths e = [''_id'']"

text \<open>Ascending on every part of the group's key, and either way on the count.\<close>

definition sort_covered :: "pyval \<Rightarrow> pydict \<Rightarrow> bool" where
  "sort_covered e spec \<longleftrightarrow> distinct (map fst spec) \<and> set (id_paths e) \<subseteq> fst ` set spec \<and>
     list_all (\<lambda>(k, v). (k = ''count'' \<and> (v = PInt 1 \<or> v = PInt (-1))) \<or> (k \<in> set (id_paths e) \<and> v = PInt 1)) spec"

definition project_covered :: "pyval \<Rightarrow> pydict \<Rightarrow> bool" where
  "project_covered e spec \<longleftrightarrow> distinct (map fst spec) \<and>
     dict_get spec ''_id'' = Some (PInt 0) \<and> dict_get spec ''count'' = Some (PInt 1) \<and>
     list_all (\<lambda>(k, v). k = ''_id'' \<or> k = ''count'' \<or> (plain_name k \<and> v \<in> (\<lambda>p. PStr (CHR ''$'' # p)) ` set (id_paths e))) spec"

definition pipeline_covered :: "pydict list \<Rightarrow> pydict list \<Rightarrow> bool" where
  "pipeline_covered stages docs \<longleftrightarrow> (\<exists>pre e srt prj. stages = pre @
       [[(''$group'', PDict [(''_id'', e), (''count'', PDict [(''$sum'', PInt 1)])])], [(''$sort'', PDict srt)], [(''$project'', PDict prj)]] \<and>
     (pre = [] \<or> (\<exists>filt. pre = [[(''$match'', PDict filt)]] \<and> filter_covered filt)) \<and>
     group_covered e (run_pipeline pre docs) \<and> sort_covered e srt \<and> project_covered e prj)"

section \<open>The contract\<close>

text \<open>Every error is an ordinary exception; cancellation is the caller's business.\<close>

definition raises_ordinary :: "('s, 'a) io \<Rightarrow> bool" where
  "raises_ordinary f \<longleftrightarrow> (\<forall>s e s'. f s = (Inl e, s') \<longrightarrow> is_Exception e)"

definition view_kept :: "'m mongo_view \<Rightarrow> ('m, 'a) io \<Rightarrow> bool" where
  "view_kept V f \<longleftrightarrow> (\<forall>w r w'. f w = (r, w') \<longrightarrow> V w' = V w)"

text \<open>
  \<open>insert_many(docs, ordered=False)\<close> of documents that carry an \<open>_id\<close>. The documents at some indexes
  \<open>sel\<close> are appended: all of them on success; on a \<open>BulkWriteError\<close> all but the ones it lists; any of
  them when the request fails otherwise. \<open>_id\<close> is unique, and code 11000 is a duplicate \<open>_id\<close>. A request
  with a document that cannot be encoded is never acknowledged, not even partly.
\<close>

definition insert_outcome ::
  "pydict list \<Rightarrow> pydict list \<Rightarrow> pydict list \<Rightarrow> exn + unit \<Rightarrow> bool" where
  "insert_outcome old docs new r \<longleftrightarrow>
     (\<exists>sel news. sel \<subseteq> {..<length docs} \<and> new = old @ news \<and> list_all2 stored_as (nths docs sel) news \<and>
       (distinct (map doc_id old) \<longrightarrow> distinct (map doc_id new)) \<and>
       (r = Inr () \<longrightarrow> sel = {..<length docs}) \<and>
       (\<forall>errs. r = Inl (BulkWriteErr errs) \<longrightarrow>
          sel = {i. i < length docs \<and> i \<notin> fst ` set errs} \<and>
          (\<forall>(i, code) \<in> set errs. i < length docs \<and>
             (code = 11000 \<longrightarrow> map_option bson (doc_id (docs ! i)) \<in> doc_id ` set new))) \<and>
       ((\<exists>d \<in> set docs. \<not> bson_ok (PDict d)) \<longrightarrow> (\<exists>e. r = Inl e \<and> (\<forall>errs. e \<noteq> BulkWriteErr errs))))"

definition insert_contract :: "'m mongo_driver \<Rightarrow> 'm mongo_view \<Rightarrow> bool" where
  "insert_contract D V \<longleftrightarrow> (\<forall>ns docs w r w'. md_insert_many D ns docs False w = (r, w') \<longrightarrow>
     (\<forall>d \<in> set docs. doc_id d \<noteq> None) \<longrightarrow>
     (\<forall>ns'. ns' \<noteq> ns \<longrightarrow> V w' ns' = V w ns') \<and> insert_outcome (V w ns) docs (V w' ns) r)"

definition find_contract :: "'m mongo_driver \<Rightarrow> 'm mongo_view \<Rightarrow> bool" where
  "find_contract D V \<longleftrightarrow> (\<forall>ns q w ds w'. md_find D ns q w = (Inr ds, w') \<longrightarrow>
     filter_covered (fq_filter q) \<longrightarrow> 0 < fq_limit q \<longrightarrow>
     (\<exists>s. mset s = mset (filter (mongo_matches (fq_filter q)) (V w ns)) \<and> sorted_wrt (sort_le (fq_sort q)) s \<and>
       ds = map (project_out (fq_projection q)) (take (fq_limit q) (drop (fq_skip q) s))))"

definition find_one_contract :: "'m mongo_driver \<Rightarrow> 'm mongo_view \<Rightarrow> bool" where
  "find_one_contract D V \<longleftrightarrow> (\<forall>ns filt proj w x w'. md_find_one D ns filt proj w = (Inr x, w') \<longrightarrow>
     filter_covered filt \<longrightarrow>
     (case x of None \<Rightarrow> filter (mongo_matches filt) (V w ns) = []
      | Some d \<Rightarrow> \<exists>d0 \<in> set (V w ns). mongo_matches filt d0 \<and> d = project_out proj d0))"

definition count_contract :: "'m mongo_driver \<Rightarrow> 'm mongo_view \<Rightarrow> bool" where
  "count_contract D V \<longleftrightarrow> (\<forall>ns filt w n w'. md_count_documents D ns filt w = (Inr n, w') \<longrightarrow>
     filter_covered filt \<longrightarrow> n = length (filter (mongo_matches filt) (V w ns)))"

definition aggregate_contract :: "'m mongo_driver \<Rightarrow> 'm mongo_view \<Rightarrow> bool" where
  "aggregate_contract D V \<longleftrightarrow> (\<forall>ns stages w rows w'. md_aggregate D ns stages w = (Inr rows, w') \<longrightarrow>
     pipeline_covered stages (V w ns) \<longrightarrow> rows = run_pipeline stages (V w ns))"

text \<open>\<open>update_many(filter, {"$set": sets})\<close>: a failed request may have updated some documents.\<close>

definition update_many_contract :: "'m mongo_driver \<Rightarrow> 'm mongo_view \<Rightarrow> bool" where
  "update_many_contract D V \<longleftrightarrow> (\<forall>ns filt sets w r w'.
     md_update_many D ns filt [(''$set'', PDict sets)] w = (r, w') \<longrightarrow> filter_covered filt \<longrightarrow>
     (\<forall>ns'. ns' \<noteq> ns \<longrightarrow> V w' ns' = V w ns') \<and>
     list_all2 (\<lambda>d d'. (mongo_matches filt d \<and> set_fields sets d d') \<or> ((r = Inr () \<longrightarrow> \<not> mongo_matches filt d) \<and> d' = d))
       (V w ns) (V w' ns))"

text \<open>\<open>update_one({"_id": i}, {"$set": sets}, upsert=True)\<close>: a failed request may or may not have been applied.\<close>

definition upserted :: "string \<Rightarrow> pydict \<Rightarrow> pydict list \<Rightarrow> pydict list \<Rightarrow> bool" where
  "upserted i sets old new \<longleftrightarrow>
     (if \<exists>d \<in> set old. mongo_matches [(''_id'', PStr i)] d
      then \<exists>xs d d' ys. old = xs @ d # ys \<and> mongo_matches [(''_id'', PStr i)] d \<and> new = xs @ d' # ys \<and> set_fields sets d d'
      else \<exists>d'. new = old @ [d'] \<and> set_fields sets [(''_id'', PStr i)] d')"

definition upsert_contract :: "'m mongo_driver \<Rightarrow> 'm mongo_view \<Rightarrow> bool" where
  "upsert_contract D V \<longleftrightarrow> (\<forall>ns i sets w r w'.
     md_update_one D ns [(''_id'', PStr i)] [(''$set'', PDict sets)] True w = (r, w') \<longrightarrow>
     (\<forall>ns'. ns' \<noteq> ns \<longrightarrow> V w' ns' = V w ns') \<and>
     (upserted i sets (V w ns) (V w' ns) \<or> (r \<noteq> Inr () \<and> V w' ns = V w ns)))"

text \<open>\<open>delete_one({"_id": i})\<close>: a failed request may have deleted the document.\<close>

definition delete_contract :: "'m mongo_driver \<Rightarrow> 'm mongo_view \<Rightarrow> bool" where
  "delete_contract D V \<longleftrightarrow> (\<forall>ns i w r w'. md_delete_one D ns [(''_id'', PStr i)] w = (r, w') \<longrightarrow>
     (\<forall>ns'. ns' \<noteq> ns \<longrightarrow> V w' ns' = V w ns') \<and>
     ((V w' ns = V w ns \<and> (\<forall>n. r = Inr n \<longrightarrow> n = 0 \<and> (\<forall>d \<in> set (V w ns). \<not> mongo_matches [(''_id'', PStr i)] d))) \<or>
      (\<exists>xs d ys. V w ns = xs @ d # ys \<and> mongo_matches [(''_id'', PStr i)] d \<and> V w' ns = xs @ ys \<and> (\<forall>n. r = Inr n \<longrightarrow> n = 1))))"

definition mongo_contract :: "'m mongo_driver \<Rightarrow> 'm mongo_view \<Rightarrow> bool" where
  "mongo_contract D V \<longleftrightarrow>
     insert_contract D V \<and> find_contract D V \<and> find_one_contract D V \<and> count_contract D V \<and>
     aggregate_contract D V \<and> update_many_contract D V \<and> upsert_contract D V \<and> delete_contract D V \<and>
     (\<forall>ns q. view_kept V (md_find D ns q)) \<and> (\<forall>ns f p. view_kept V (md_find_one D ns f p)) \<and>
     (\<forall>ns f. view_kept V (md_count_documents D ns f)) \<and> (\<forall>ns st. view_kept V (md_aggregate D ns st)) \<and>
     view_kept V (md_ping D) \<and> (\<forall>ns k opts. view_kept V (md_create_index D ns k opts)) \<and>
     (\<forall>ns n. view_kept V (md_drop_index D ns n)) \<and>
     (\<forall>ns ds. raises_ordinary (md_insert_many D ns ds False))"

text \<open>
  The assumption under which \<open>except BulkWriteError\<close> loses nothing: the server refuses documents of an
  unordered insert for one reason only, a duplicate \<open>_id\<close>. It is an assumption on the deployment, not
  part of the driver's documentation, so theorems that need it name it.
\<close>

definition only_duplicate_errors :: "'m mongo_driver \<Rightarrow> bool" where
  "only_duplicate_errors D \<longleftrightarrow> (\<forall>ns docs w errs w'.
     md_insert_many D ns docs False w = (Inl (BulkWriteErr errs), w') \<longrightarrow> (\<forall>(i, code) \<in> set errs. code = 11000))"

section \<open>Consequences\<close>

lemma stored_as_doc_id:
  "stored_as d d' \<Longrightarrow> doc_id d = Some (PStr i) \<Longrightarrow> doc_id d' = Some (PStr i)"
  by (simp add: stored_as_def doc_id_def)

lemma insert_outcomeE:
  assumes "insert_outcome old docs new r"
  obtains sel news where "sel \<subseteq> {..<length docs}" "new = old @ news" "list_all2 stored_as (nths docs sel) news"
    "distinct (map doc_id old) \<longrightarrow> distinct (map doc_id new)"
    "r = Inr () \<longrightarrow> sel = {..<length docs}"
    "\<forall>errs. r = Inl (BulkWriteErr errs) \<longrightarrow>
          sel = {i. i < length docs \<and> i \<notin> fst ` set errs} \<and>
          (\<forall>(i, code) \<in> set errs. i < length docs \<and>
             (code = 11000 \<longrightarrow> map_option bson (doc_id (docs ! i)) \<in> doc_id ` set new))"
    "(\<exists>d \<in> set docs. \<not> bson_ok (PDict d)) \<longrightarrow> (\<exists>e. r = Inl e \<and> (\<forall>errs. e \<noteq> BulkWriteErr errs))"
  using assms unfolding insert_outcome_def by (elim exE conjE) (rule that)

lemma insert_outcome_news:
  assumes "insert_outcome old docs new r"
  obtains news where "new = old @ news" "\<And>n. n \<in> set news \<Longrightarrow> \<exists>d \<in> set docs. stored_as d n"
proof (rule insert_outcomeE [OF assms])
  fix sel news
  assume new: "new = old @ news" and l2: "list_all2 stored_as (nths docs sel) news"
  have "\<exists>d \<in> set docs. stored_as d n" if "n \<in> set news" for n
    using l2 that by (auto simp: list_all2_conv_all_nth in_set_conv_nth)
      (metis nth_mem notin_set_nthsI in_set_conv_nth)
  with new that show thesis by blast
qed

lemma insert_outcome_append: "insert_outcome old docs new r \<Longrightarrow> \<exists>news. new = old @ news"
  by (auto simp: insert_outcome_def)

lemma insert_outcome_distinct:
  "insert_outcome old docs new r \<Longrightarrow> distinct (map doc_id old) \<Longrightarrow> distinct (map doc_id new)"
  by (auto simp: insert_outcome_def)

lemma list_all2_stored_ids:
  "list_all2 stored_as ds news \<Longrightarrow> d \<in> set ds \<Longrightarrow> doc_id d = Some (PStr i) \<Longrightarrow>
    Some (PStr i) \<in> doc_id ` set news"
  by (auto simp: list_all2_conv_all_nth in_set_conv_nth image_iff) (metis nth_mem stored_as_doc_id)

lemma insert_outcome_Inr:
  assumes "insert_outcome old docs new (Inr ())"
  obtains news where "new = old @ news" "list_all2 stored_as docs news"
proof (rule insert_outcomeE [OF assms])
  fix sel news
  assume new: "new = old @ news" and l2: "list_all2 stored_as (nths docs sel) news"
    and sel: "Inr () = (Inr () :: exn + unit) \<longrightarrow> sel = {..<length docs}"
  have "nths docs {..<length docs} = docs" by (rule nths_all) simp
  with l2 sel have "list_all2 stored_as docs news" by simp
  with new that show thesis by blast
qed

lemma insert_outcome_bulk:
  assumes "insert_outcome old docs new (Inl (BulkWriteErr errs))"
  obtains news where "new = old @ news"
    "list_all2 stored_as (nths docs {i. i < length docs \<and> i \<notin> fst ` set errs}) news"
    "\<forall>(i, code) \<in> set errs. i < length docs \<and> (code = 11000 \<longrightarrow> map_option bson (doc_id (docs ! i)) \<in> doc_id ` set new)"
proof (rule insert_outcomeE [OF assms])
  fix sel news
  assume new: "new = old @ news" and l2: "list_all2 stored_as (nths docs sel) news"
    and sel: "\<forall>errs'. Inl (BulkWriteErr errs) = (Inl (BulkWriteErr errs') :: exn + unit) \<longrightarrow>
          sel = {i. i < length docs \<and> i \<notin> fst ` set errs'} \<and>
          (\<forall>(i, code) \<in> set errs'. i < length docs \<and>
             (code = 11000 \<longrightarrow> map_option bson (doc_id (docs ! i)) \<in> doc_id ` set new))"
  from sel [rule_format, OF refl] l2 new that show thesis by blast
qed

lemma insert_outcome_Inr_ids:
  assumes "insert_outcome old docs new (Inr ())" and "d \<in> set docs" and "doc_id d = Some (PStr i)"
  shows "Some (PStr i) \<in> doc_id ` set new"
  using assms(1)
proof (rule insert_outcome_Inr)
  fix news
  assume new: "new = old @ news" and l2: "list_all2 stored_as docs news"
  from list_all2_stored_ids [OF l2 assms(2,3)] show ?thesis by (auto simp: new)
qed

lemma insert_outcome_bulk_ids:
  assumes "insert_outcome old docs new (Inl (BulkWriteErr errs))"
    and "\<forall>(i, code) \<in> set errs. code = 11000" and "d \<in> set docs" and "doc_id d = Some (PStr i)"
  shows "Some (PStr i) \<in> doc_id ` set new"
  using assms(1)
proof (rule insert_outcome_bulk)
  fix news
  assume new: "new = old @ news"
    and l2: "list_all2 stored_as (nths docs {i. i < length docs \<and> i \<notin> fst ` set errs}) news"
    and dup: "\<forall>(i, code) \<in> set errs. i < length docs \<and> (code = 11000 \<longrightarrow> map_option bson (doc_id (docs ! i)) \<in> doc_id ` set new)"
  from assms(3) obtain k where k: "k < length docs" "docs ! k = d" by (auto simp: in_set_conv_nth)
  show ?thesis
  proof (cases "k \<in> fst ` set errs")
    case True
    then obtain code where "(k, code) \<in> set errs" by force
    with assms(2) dup have "map_option bson (doc_id (docs ! k)) \<in> doc_id ` set new" by blast
    with k assms(4) show ?thesis by simp
  next
    case False
    with k have "d \<in> set (nths docs {i. i < length docs \<and> i \<notin> fst ` set errs})"
      by (auto simp: set_nths)
    from list_all2_stored_ids [OF l2 this assms(4)] show ?thesis by (auto simp: new)
  qed
qed

lemma mongo_contractD:
  assumes "mongo_contract D V"
  shows "insert_contract D V" "find_contract D V" "find_one_contract D V" "count_contract D V"
    "aggregate_contract D V" "update_many_contract D V" "upsert_contract D V" "delete_contract D V"
    "view_kept V (md_find D ns q)" "view_kept V (md_find_one D ns f p)"
    "view_kept V (md_count_documents D ns f)" "view_kept V (md_aggregate D ns st)"
    "view_kept V (md_ping D)" "view_kept V (md_create_index D ns k opts)" "view_kept V (md_drop_index D ns n)"
    "raises_ordinary (md_insert_many D ns ds False)"
  using assms unfolding mongo_contract_def by blast+

lemma view_keptD: "view_kept V f \<Longrightarrow> f w = (r, w') \<Longrightarrow> V w' = V w"
  by (simp add: view_kept_def)

lemma delete_contractD:
  assumes "delete_contract D V" and "md_delete_one D ns [(''_id'', PStr i)] w = (r, w')"
  shows "\<forall>ns'. ns' \<noteq> ns \<longrightarrow> V w' ns' = V w ns'"
    and "(V w' ns = V w ns \<and> (\<forall>n. r = Inr n \<longrightarrow> n = 0 \<and> (\<forall>d \<in> set (V w ns). \<not> mongo_matches [(''_id'', PStr i)] d))) \<or>
      (\<exists>xs d ys. V w ns = xs @ d # ys \<and> mongo_matches [(''_id'', PStr i)] d \<and> V w' ns = xs @ ys \<and> (\<forall>n. r = Inr n \<longrightarrow> n = 1))"
  using assms(1) [unfolded delete_contract_def, THEN spec, THEN spec, THEN spec, THEN spec, THEN spec, THEN mp, OF assms(2)]
  by (rule conjunct1, rule conjunct2)

lemma upsert_contractD:
  assumes "upsert_contract D V" and "md_update_one D ns [(''_id'', PStr i)] [(''$set'', PDict sets)] True w = (r, w')"
  shows "\<forall>ns'. ns' \<noteq> ns \<longrightarrow> V w' ns' = V w ns'"
    and "upserted i sets (V w ns) (V w' ns) \<or> (r \<noteq> Inr () \<and> V w' ns = V w ns)"
  using assms(1) [unfolded upsert_contract_def, THEN spec, THEN spec, THEN spec, THEN spec, THEN spec, THEN spec, THEN mp, OF assms(2)]
  by (rule conjunct1, rule conjunct2)

end
