(* ===== verification/Mongo_Memory.thy ===== *)
theory Mongo_Memory
  imports Mongo_Contract
begin

text \<open>
  An in-memory driver that satisfies the Mongo contract: the witnesses of the development run the
  application on it, which shows that the contract can be met. Its client state is the collections and
  a schedule of faults, one per operation: a failed request, or a write error for one document of an
  insert.
\<close>

datatype fault = NoFault | Fail exn | Refuse nat int

record mem =
  mm_docs :: "ns \<Rightarrow> pydict list"
  mm_faults :: "fault list"

definition mem_view :: "mem mongo_view" where
  "mem_view w = mm_docs w"

definition mem_new :: "fault list \<Rightarrow> mem" where
  "mem_new fs = \<lparr>mm_docs = (\<lambda>_. []), mm_faults = fs\<rparr>"

definition next_fault :: "mem \<Rightarrow> fault" where
  "next_fault w = (case mm_faults w of [] \<Rightarrow> NoFault | f # _ \<Rightarrow> f)"

fun failure_of :: "fault \<Rightarrow> exn option" where
  "failure_of (Fail (BulkWriteErr _)) = None"
| "failure_of (Fail CancelledErr) = None"
| "failure_of (Fail e) = Some e"
| "failure_of _ = None"

text \<open>An operation that a scheduled failure pre-empts; it gets the fault and the rest of the schedule.\<close>

definition guarded :: "(fault \<Rightarrow> (mem, 'a) io) \<Rightarrow> (mem, 'a) io" where
  "guarded op w = (let w1 = w\<lparr>mm_faults := tl (mm_faults w)\<rparr> in
     case failure_of (next_fault w) of Some e \<Rightarrow> (Inl e, w1) | None \<Rightarrow> op (next_fault w) w1)"

lemma failure_of_ordinary: "failure_of f = Some e \<Longrightarrow> is_Exception e \<and> (\<forall>errs. e \<noteq> BulkWriteErr errs)"
  by (induction f rule: failure_of.induct) (auto simp: is_Exception_def)

lemma guarded_cases:
  assumes "guarded op w = (r, w')"
  obtains (failed) e where "r = Inl e" "is_Exception e" "\<forall>errs. e \<noteq> BulkWriteErr errs" "mm_docs w' = mm_docs w"
    | (ran) w1 f where "mm_docs w1 = mm_docs w" "op f w1 = (r, w')"
proof (cases "failure_of (next_fault w)")
  case (Some e)
  with assms failure_of_ordinary [OF Some] show thesis by (intro failed [of e]) (auto simp: guarded_def)
next
  case None
  with assms show thesis
    by (intro ran [of "w\<lparr>mm_faults := tl (mm_faults w)\<rparr>" "next_fault w"]) (auto simp: guarded_def Let_def)
qed

section \<open>Operations\<close>

definition bson_doc :: "pydict \<Rightarrow> pydict" where
  "bson_doc d = map (\<lambda>kv. (fst kv, bson (snd kv))) d"

lemma bson_doc_gets: "dict_get (bson_doc d) k = map_option bson (dict_get d k)"
  by (induction d) (auto simp: bson_doc_def)

lemma stored_as_bson_doc [simp]: "stored_as d (bson_doc d)"
  by (simp add: stored_as_def bson_doc_gets)

fun refuses :: "fault \<Rightarrow> nat \<Rightarrow> int option" where
  "refuses (Refuse j c) i = (if j = i \<and> c \<noteq> 11000 then Some c else None)"
| "refuses _ i = None"

fun insert_loop :: "fault \<Rightarrow> nat \<Rightarrow> pydict list \<Rightarrow> pydict list \<Rightarrow> pydict list \<times> (nat \<times> int) list" where
  "insert_loop f i acc [] = (acc, [])"
| "insert_loop f i acc (d # ds) =
     (case refuses f i of
        Some c \<Rightarrow> (case insert_loop f (Suc i) acc ds of (new, errs) \<Rightarrow> (new, (i, c) # errs))
      | None \<Rightarrow>
          if doc_id (bson_doc d) \<in> doc_id ` set acc
          then (case insert_loop f (Suc i) acc ds of (new, errs) \<Rightarrow> (new, (i, 11000) # errs))
          else insert_loop f (Suc i) (acc @ [bson_doc d]) ds)"

text \<open>With \<open>dup_only\<close> the driver ignores scheduled refusals: duplicate ids are then its only write errors.\<close>

definition mem_insert :: "bool \<Rightarrow> ns \<Rightarrow> pydict list \<Rightarrow> bool \<Rightarrow> (mem, unit) io" where
  "mem_insert dup_only ns docs ordered = guarded (\<lambda>f w.
     if \<not> list_all (\<lambda>d. bson_ok (PDict d)) docs then (Inl OverflowErr, w)
     else case insert_loop (if dup_only then NoFault else f) 0 (mm_docs w ns) docs of (new, errs) \<Rightarrow>
       (if errs = [] then Inr () else Inl (BulkWriteErr errs), w\<lparr>mm_docs := (mm_docs w)(ns := new)\<rparr>))"

definition mem_key :: "string \<times> int \<Rightarrow> pydict \<Rightarrow> int" where
  "mem_key srt d = (case dict_get d (fst srt) of
     Some (PDate a) \<Rightarrow> if 0 < snd srt then dt_micros a else - dt_micros a | _ \<Rightarrow> 0)"

definition mem_find :: "ns \<Rightarrow> find_query \<Rightarrow> (mem, pydict list) io" where
  "mem_find ns q = guarded (\<lambda>f w. (Inr (map (project_out (fq_projection q)) (take (fq_limit q) (drop (fq_skip q)
     (sort_key (mem_key (fq_sort q)) (filter (mongo_matches (fq_filter q)) (mm_docs w ns)))))), w))"

definition mem_find_one :: "ns \<Rightarrow> pydict \<Rightarrow> pydict \<Rightarrow> (mem, pydict option) io" where
  "mem_find_one ns filt proj = guarded (\<lambda>f w.
     (Inr (map_option (project_out proj) (List.find (mongo_matches filt) (mm_docs w ns))), w))"

definition mem_count :: "ns \<Rightarrow> pydict \<Rightarrow> (mem, nat) io" where
  "mem_count ns filt = guarded (\<lambda>f w. (Inr (length (filter (mongo_matches filt) (mm_docs w ns))), w))"

definition mem_aggregate :: "ns \<Rightarrow> pydict list \<Rightarrow> (mem, pydict list) io" where
  "mem_aggregate ns stages = guarded (\<lambda>f w. (Inr (run_pipeline stages (mm_docs w ns)), w))"

definition apply_sets :: "pydict \<Rightarrow> pydict \<Rightarrow> pydict" where
  "apply_sets sets d = foldr (\<lambda>kv d. dict_set (fst kv) (bson (snd kv)) d) sets d"

lemma apply_sets_fields [simp]: "set_fields sets d (apply_sets sets d)"
  unfolding set_fields_def
proof
  fix k
  show "dict_get (apply_sets sets d) k =
      (case dict_get sets k of Some v \<Rightarrow> Some (bson v) | None \<Rightarrow> dict_get d k)"
    by (induction sets) (auto simp: apply_sets_def)
qed

fun update_sets :: "pydict \<Rightarrow> pydict" where
  "update_sets [(op, PDict sets)] = (if op = ''$set'' then sets else [])"
| "update_sets _ = []"

definition mem_update_many :: "ns \<Rightarrow> pydict \<Rightarrow> pydict \<Rightarrow> (mem, unit) io" where
  "mem_update_many ns filt upd = guarded (\<lambda>f w. (Inr (), w\<lparr>mm_docs := (mm_docs w)(ns :=
     map (\<lambda>d. if mongo_matches filt d then apply_sets (update_sets upd) d else d) (mm_docs w ns))\<rparr>))"

fun upsert_loop :: "pydict \<Rightarrow> pydict \<Rightarrow> pydict list \<Rightarrow> pydict list" where
  "upsert_loop filt sets [] = [apply_sets sets filt]"
| "upsert_loop filt sets (d # ds) =
     (if mongo_matches filt d then apply_sets sets d # ds else d # upsert_loop filt sets ds)"

definition mem_update_one :: "ns \<Rightarrow> pydict \<Rightarrow> pydict \<Rightarrow> bool \<Rightarrow> (mem, unit) io" where
  "mem_update_one ns filt upd upsert = guarded (\<lambda>f w. (Inr (), w\<lparr>mm_docs := (mm_docs w)(ns :=
     (if upsert \<or> list_ex (mongo_matches filt) (mm_docs w ns)
      then upsert_loop filt (update_sets upd) (mm_docs w ns) else mm_docs w ns))\<rparr>))"

fun delete_loop :: "pydict \<Rightarrow> pydict list \<Rightarrow> pydict list" where
  "delete_loop filt [] = []"
| "delete_loop filt (d # ds) = (if mongo_matches filt d then ds else d # delete_loop filt ds)"

definition mem_delete_one :: "ns \<Rightarrow> pydict \<Rightarrow> (mem, nat) io" where
  "mem_delete_one ns filt = guarded (\<lambda>f w.
     (Inr (if list_ex (mongo_matches filt) (mm_docs w ns) then 1 else 0),
      w\<lparr>mm_docs := (mm_docs w)(ns := delete_loop filt (mm_docs w ns))\<rparr>))"

definition mem_driver :: "bool \<Rightarrow> mem mongo_driver" where
  "mem_driver dup_only = \<lparr>md_client = (\<lambda>_. mem_new []), md_ping = guarded (\<lambda>f w. (Inr (), w)), md_close = (\<lambda>w. w),
     md_create_index = (\<lambda>ns k opts. guarded (\<lambda>f w. (Inr (), w))),
     md_drop_index = (\<lambda>ns n. guarded (\<lambda>f w. (Inl (OperationFailure 27), w))),
     md_insert_many = mem_insert dup_only, md_find = mem_find, md_find_one = mem_find_one,
     md_count_documents = mem_count, md_aggregate = mem_aggregate, md_update_one = mem_update_one,
     md_update_many = mem_update_many, md_delete_one = mem_delete_one\<rparr>"

lemmas mem_defs = mem_insert_def mem_find_def mem_find_one_def mem_count_def mem_aggregate_def
  mem_update_many_def mem_update_one_def mem_delete_one_def guarded_def next_fault_def

section \<open>The contract holds\<close>

lemma doc_id_bson_doc: "doc_id (bson_doc d) = map_option bson (doc_id d)"
  by (simp add: doc_id_def bson_doc_gets)

lemma insert_loop_grows:
  "insert_loop f i acc ds = (new, errs) \<Longrightarrow> set acc \<subseteq> set new \<and> (\<forall>j \<in> fst ` set errs. i \<le> j \<and> j < i + length ds)"
proof (induction ds arbitrary: i acc new errs)
  case (Cons d ds)
  then show ?case
    by (fastforce split: option.splits if_splits prod.splits)
qed simp

lemma nths_Cons_skip:
  "i \<in> E \<Longrightarrow> nths (d # ds) {k. k < length (d # ds) \<and> i + k \<notin> E} = nths ds {k. k < length ds \<and> Suc i + k \<notin> E}"
  by (simp add: nths_Cons)

lemma nths_Cons_keep:
  "i \<notin> E \<Longrightarrow> nths (d # ds) {k. k < length (d # ds) \<and> i + k \<notin> E} = d # nths ds {k. k < length ds \<and> Suc i + k \<notin> E}"
  by (simp add: nths_Cons)

lemma insert_loop_news:
  "insert_loop f i acc ds = (new, errs) \<Longrightarrow>
    \<exists>news. new = acc @ news \<and> list_all2 stored_as (nths ds {k. k < length ds \<and> i + k \<notin> fst ` set errs}) news"
proof (induction ds arbitrary: i acc new errs)
  case (Cons d ds)
  have skip: ?case if loop: "insert_loop f (Suc i) acc ds = (new, errs')" and e: "errs = (i, c) # errs'" for errs' c
  proof -
    from Cons.IH [OF loop] obtain news where new: "new = acc @ news"
      and l2: "list_all2 stored_as (nths ds {k. k < length ds \<and> Suc i + k \<notin> fst ` set errs'}) news" by blast
    have "i \<in> fst ` set errs" by (simp add: e)
    moreover have "{k. k < length ds \<and> Suc i + k \<notin> fst ` set errs} = {k. k < length ds \<and> Suc i + k \<notin> fst ` set errs'}"
      by (simp add: e)
    ultimately have "nths (d # ds) {k. k < length (d # ds) \<and> i + k \<notin> fst ` set errs} =
        nths ds {k. k < length ds \<and> Suc i + k \<notin> fst ` set errs'}" by (simp only: nths_Cons_skip)
    with new l2 show ?thesis by (simp only:) blast
  qed
  show ?case
  proof (cases "refuses f i")
    case (Some c)
    with Cons.prems skip show ?thesis by (auto split: prod.splits)
  next
    case None
    show ?thesis
    proof (cases "doc_id (bson_doc d) \<in> doc_id ` set acc")
      case True
      with None Cons.prems skip show ?thesis by (auto split: prod.splits)
    next
      case False
      with None Cons.prems have loop: "insert_loop f (Suc i) (acc @ [bson_doc d]) ds = (new, errs)" by simp
      from Cons.IH [OF this] obtain news where new: "new = (acc @ [bson_doc d]) @ news"
        and l2: "list_all2 stored_as (nths ds {k. k < length ds \<and> Suc i + k \<notin> fst ` set errs}) news" by blast
      from insert_loop_grows [OF loop] have "i \<notin> fst ` set errs" by fastforce
      from nths_Cons_keep [OF this, of d ds] l2 new show ?thesis
        by (intro exI [of _ "bson_doc d # news"]) (simp only: list_all2_Cons stored_as_bson_doc append_assoc append_Cons append_Nil simp_thms)
    qed
  qed
qed simp

lemma insert_loop_distinct:
  "insert_loop f i acc ds = (new, errs) \<Longrightarrow> distinct (map doc_id acc) \<Longrightarrow> distinct (map doc_id new)"
proof (induction ds arbitrary: i acc new errs)
  case (Cons d ds)
  then show ?case
    by (auto split: option.splits if_splits prod.splits)
qed simp

lemma insert_loop_codes:
  "insert_loop f i acc ds = (new, errs) \<Longrightarrow> (j, 11000) \<in> set errs \<Longrightarrow>
    map_option bson (doc_id (ds ! (j - i))) \<in> doc_id ` set new"
proof (induction ds arbitrary: i acc new errs)
  case (Cons d ds)
  have tail: "map_option bson (doc_id ((d # ds) ! (j - i))) \<in> doc_id ` set new"
    if "insert_loop f (Suc i) a ds = (new, es)" "(j, 11000) \<in> set es" for a es
  proof -
    from insert_loop_grows [OF that(1)] that(2) have "Suc i \<le> j" by force
    with Cons.IH [OF that] show ?thesis by (simp add: nth_Cons' Suc_le_eq)
  qed
  show ?case
  proof (cases "refuses f i")
    case (Some c)
    then have "c \<noteq> 11000" by (cases f) (auto split: if_splits)
    with Some Cons.prems tail show ?thesis by (auto split: prod.splits)
  next
    case None
    show ?thesis
    proof (cases "doc_id (bson_doc d) \<in> doc_id ` set acc")
      case True
      with None Cons.prems(1) obtain errs' where loop: "insert_loop f (Suc i) acc ds = (new, errs')"
        and e: "errs = (i, 11000) # errs'" by (auto split: prod.splits)
      from True insert_loop_grows [OF loop] have "map_option bson (doc_id d) \<in> doc_id ` set new"
        by (auto simp: doc_id_bson_doc)
      with tail [OF loop] Cons.prems(2) e show ?thesis by auto
    next
      case False
      with None Cons.prems tail show ?thesis by auto
    qed
  qed
qed simp

lemma insert_loop_outcome:
  assumes loop: "insert_loop f 0 acc ds = (new, errs)" and ok: "list_all (\<lambda>d. bson_ok (PDict d)) ds"
  shows "insert_outcome acc ds new (if errs = [] then Inr () else Inl (BulkWriteErr errs))"
proof -
  from insert_loop_news [OF loop] obtain news where "new = acc @ news"
    "list_all2 stored_as (nths ds {k. k < length ds \<and> k \<notin> fst ` set errs}) news" by auto
  moreover have "\<forall>(i, code) \<in> set errs. i < length ds \<and>
      (code = 11000 \<longrightarrow> map_option bson (doc_id (ds ! i)) \<in> doc_id ` set new)"
    using insert_loop_grows [OF loop] insert_loop_codes [OF loop] by fastforce
  ultimately show ?thesis
    unfolding insert_outcome_def using insert_loop_distinct [OF loop] ok
    by (intro exI [of _ "{k. k < length ds \<and> k \<notin> fst ` set errs}"] exI [of _ news])
      (auto simp: list_all_iff)
qed

lemma insert_outcome_failed:
  "\<forall>errs. e \<noteq> BulkWriteErr errs \<Longrightarrow> insert_outcome old docs old (Inl e)"
  unfolding insert_outcome_def by (intro exI [of _ "{}"] exI [of _ "[]"]) simp

lemma mem_insert_contract: "insert_contract (mem_driver b) mem_view"
  unfolding insert_contract_def
proof (intro allI impI)
  fix ns :: ns and docs and w :: mem and r w'
  assume "md_insert_many (mem_driver b) ns docs False w = (r, w')"
  then have "mem_insert b ns docs False w = (r, w')" by (simp add: mem_driver_def)
  then show "(\<forall>ns'. ns' \<noteq> ns \<longrightarrow> mem_view w' ns' = mem_view w ns') \<and>
      insert_outcome (mem_view w ns) docs (mem_view w' ns) r"
    unfolding mem_insert_def
  proof (cases rule: guarded_cases)
    case (failed e)
    then show ?thesis by (simp add: mem_view_def insert_outcome_failed)
  next
    case (ran w1 f)
    show ?thesis
    proof (cases "list_all (\<lambda>d. bson_ok (PDict d)) docs")
      case True
      obtain new errs where loop: "insert_loop (if b then NoFault else f) 0 (mm_docs w1 ns) docs = (new, errs)" by force
      with ran True have "r = (if errs = [] then Inr () else Inl (BulkWriteErr errs))"
        and "mm_docs w' = (mm_docs w)(ns := new)" by auto
      with insert_loop_outcome [OF loop True] ran show ?thesis by (simp add: mem_view_def)
    next
      case False
      with ran show ?thesis by (auto simp: mem_view_def insert_outcome_failed)
    qed
  qed
qed

lemma mem_key_sorted: "sorted_wrt (sort_le srt) (sort_key (mem_key srt) ds)"
proof -
  have "sorted_wrt (\<lambda>a b. mem_key srt a \<le> mem_key srt b) (sort_key (mem_key srt) ds)"
    using sorted_sort_key [of "mem_key srt" ds] by (simp add: sorted_map)
  then show ?thesis
    by (rule sorted_wrt_mono_rel [rotated]) (auto simp: mem_key_def sort_le_def)
qed

lemma mem_find_contract: "find_contract (mem_driver b) mem_view"
  unfolding find_contract_def
proof (intro allI impI)
  fix ns q w ds w'
  assume "md_find (mem_driver b) ns q w = (Inr ds, w')"
  then have "mem_find ns q w = (Inr ds, w')" by (simp add: mem_driver_def)
  then have "ds = map (project_out (fq_projection q)) (take (fq_limit q) (drop (fq_skip q)
     (sort_key (mem_key (fq_sort q)) (filter (mongo_matches (fq_filter q)) (mm_docs w ns)))))"
    unfolding mem_find_def by (rule guarded_cases) auto
  then show "\<exists>s. mset s = mset (filter (mongo_matches (fq_filter q)) (mem_view w ns)) \<and>
      sorted_wrt (sort_le (fq_sort q)) s \<and>
      ds = map (project_out (fq_projection q)) (take (fq_limit q) (drop (fq_skip q) s))"
    by (intro exI [of _ "sort_key (mem_key (fq_sort q)) (filter (mongo_matches (fq_filter q)) (mem_view w ns))"])
      (simp add: mem_view_def mem_key_sorted)
qed

lemma mem_find_one_contract: "find_one_contract (mem_driver b) mem_view"
  unfolding find_one_contract_def
proof (intro allI impI)
  fix ns filt proj and w :: mem and x w'
  assume "md_find_one (mem_driver b) ns filt proj w = (Inr x, w')"
  then have "mem_find_one ns filt proj w = (Inr x, w')" by (simp add: mem_driver_def)
  then have "x = map_option (project_out proj) (List.find (mongo_matches filt) (mm_docs w ns))"
    unfolding mem_find_one_def by (rule guarded_cases) auto
  then show "case x of None \<Rightarrow> filter (mongo_matches filt) (mem_view w ns) = []
      | Some d \<Rightarrow> \<exists>d0 \<in> set (mem_view w ns). mongo_matches filt d0 \<and> d = project_out proj d0"
    by (auto simp: mem_view_def find_None_iff find_Some_iff filter_empty_conv split: option.split)
qed

lemma mem_count_contract: "count_contract (mem_driver b) mem_view"
  unfolding count_contract_def mem_driver_def mem_count_def mem_view_def
  by (auto elim: guarded_cases)

lemma mem_aggregate_contract: "aggregate_contract (mem_driver b) mem_view"
  unfolding aggregate_contract_def mem_driver_def mem_aggregate_def mem_view_def
  by (auto elim: guarded_cases)

lemma mem_update_many_contract: "update_many_contract (mem_driver b) mem_view"
  unfolding update_many_contract_def
proof (intro allI impI)
  fix ns filt sets and w :: mem and r w'
  assume "md_update_many (mem_driver b) ns filt [(''$set'', PDict sets)] w = (r, w')"
  then have "mem_update_many ns filt [(''$set'', PDict sets)] w = (r, w')" by (simp add: mem_driver_def)
  then show "(\<forall>ns'. ns' \<noteq> ns \<longrightarrow> mem_view w' ns' = mem_view w ns') \<and>
     list_all2 (\<lambda>d d'. (mongo_matches filt d \<and> set_fields sets d d') \<or> ((r = Inr () \<longrightarrow> \<not> mongo_matches filt d) \<and> d' = d))
       (mem_view w ns) (mem_view w' ns)"
    unfolding mem_update_many_def
    by (cases rule: guarded_cases)
      (auto simp: mem_view_def list_all2_map2 intro!: list_all2_refl)
qed

lemma upsert_loop_found:
  "\<exists>d \<in> set ds. mongo_matches filt d \<Longrightarrow>
    \<exists>xs d d' ys. ds = xs @ d # ys \<and> mongo_matches filt d \<and> upsert_loop filt sets ds = xs @ d' # ys \<and> set_fields sets d d'"
proof (induction ds)
  case (Cons x xs)
  show ?case
  proof (cases "mongo_matches filt x")
    case True
    then show ?thesis by (intro exI [of _ "[]"] exI [of _ x] exI [of _ "apply_sets sets x"] exI [of _ xs]) simp
  next
    case False
    with Cons obtain as d d' ys where "xs = as @ d # ys" "mongo_matches filt d"
      "upsert_loop filt sets xs = as @ d' # ys" "set_fields sets d d'" by auto
    with False show ?thesis by (intro exI [of _ "x # as"] exI [of _ d] exI [of _ d'] exI [of _ ys]) simp
  qed
qed simp

lemma upsert_loop_absent:
  "\<forall>d \<in> set ds. \<not> mongo_matches filt d \<Longrightarrow> upsert_loop filt sets ds = ds @ [apply_sets sets filt]"
  by (induction ds) auto

lemma mem_upsert_contract: "upsert_contract (mem_driver b) mem_view"
  unfolding upsert_contract_def
proof (intro allI impI)
  fix ns i sets and w :: mem and r w'
  assume "md_update_one (mem_driver b) ns [(''_id'', PStr i)] [(''$set'', PDict sets)] True w = (r, w')"
  then have run: "mem_update_one ns [(''_id'', PStr i)] [(''$set'', PDict sets)] True w = (r, w')"
    by (simp add: mem_driver_def)
  have ok: "upserted i sets ds (upsert_loop [(''_id'', PStr i)] sets ds)" for ds
    using upsert_loop_found [of ds "[(''_id'', PStr i)]" sets] upsert_loop_absent [of ds "[(''_id'', PStr i)]" sets]
    by (simp add: upserted_def)
  show "(\<forall>ns'. ns' \<noteq> ns \<longrightarrow> mem_view w' ns' = mem_view w ns') \<and>
     (upserted i sets (mem_view w ns) (mem_view w' ns) \<or> (r \<noteq> Inr () \<and> mem_view w' ns = mem_view w ns))"
    using run unfolding mem_update_one_def
    by (cases rule: guarded_cases) (auto simp: mem_view_def ok)
qed

lemma delete_loop_spec:
  "(\<exists>xs d ys. ds = xs @ d # ys \<and> mongo_matches filt d \<and> delete_loop filt ds = xs @ ys) \<or>
   ((\<forall>d \<in> set ds. \<not> mongo_matches filt d) \<and> delete_loop filt ds = ds)"
proof (induction ds)
  case (Cons x xs)
  show ?case
  proof (cases "mongo_matches filt x")
    case True
    then have "x # xs = [] @ x # xs \<and> mongo_matches filt x \<and> delete_loop filt (x # xs) = [] @ xs" by simp
    then show ?thesis by blast
  next
    case False
    from Cons.IH show ?thesis
    proof
      assume "\<exists>as d ys. xs = as @ d # ys \<and> mongo_matches filt d \<and> delete_loop filt xs = as @ ys"
      then obtain as d ys where "xs = as @ d # ys" "mongo_matches filt d" "delete_loop filt xs = as @ ys" by blast
      with False show ?thesis by (intro disjI1 exI [of _ "x # as"] exI [of _ d] exI [of _ ys]) simp
    qed (use False in auto)
  qed
qed simp

lemma mem_delete_contract: "delete_contract (mem_driver b) mem_view"
  unfolding delete_contract_def
proof (intro allI impI)
  fix ns i and w :: mem and r w'
  assume "md_delete_one (mem_driver b) ns [(''_id'', PStr i)] w = (r, w')"
  then have "mem_delete_one ns [(''_id'', PStr i)] w = (r, w')" by (simp add: mem_driver_def)
  then show "(\<forall>ns'. ns' \<noteq> ns \<longrightarrow> mem_view w' ns' = mem_view w ns') \<and>
     ((mem_view w' ns = mem_view w ns \<and> (\<forall>n. r = Inr n \<longrightarrow> n = 0 \<and> (\<forall>d \<in> set (mem_view w ns). \<not> mongo_matches [(''_id'', PStr i)] d))) \<or>
      (\<exists>xs d ys. mem_view w ns = xs @ d # ys \<and> mongo_matches [(''_id'', PStr i)] d \<and> mem_view w' ns = xs @ ys \<and> (\<forall>n. r = Inr n \<longrightarrow> n = 1)))"
    unfolding mem_delete_one_def
  proof (cases rule: guarded_cases)
    case (failed e)
    then show ?thesis by (simp add: mem_view_def)
  next
    case (ran w1 f)
    let ?f = "[(''_id'', PStr i)]"
    from ran have r: "r = Inr (if list_ex (mongo_matches ?f) (mm_docs w ns) then 1 else 0)"
      and w': "mm_docs w' = (mm_docs w)(ns := delete_loop ?f (mm_docs w ns))" by auto
    from delete_loop_spec [of "mm_docs w ns" ?f] show ?thesis
    proof
      assume "\<exists>xs d ys. mm_docs w ns = xs @ d # ys \<and> mongo_matches ?f d \<and> delete_loop ?f (mm_docs w ns) = xs @ ys"
      then obtain xs d ys where *: "mm_docs w ns = xs @ d # ys" "mongo_matches ?f d"
        "delete_loop ?f (mm_docs w ns) = xs @ ys" by blast
      then have "list_ex (mongo_matches ?f) (mm_docs w ns)" by simp
      with * show ?thesis
        by (intro conjI disjI2 exI [of _ xs] exI [of _ d] exI [of _ ys]) (simp_all add: mem_view_def r w')
    next
      assume "(\<forall>d \<in> set (mm_docs w ns). \<not> mongo_matches ?f d) \<and> delete_loop ?f (mm_docs w ns) = mm_docs w ns"
      then show ?thesis by (intro conjI disjI1) (simp_all add: mem_view_def r w' list_ex_iff)
    qed
  qed
qed

lemma insert_loop_NoFault: "insert_loop NoFault i acc ds = (new, errs) \<Longrightarrow> \<forall>(j, c) \<in> set errs. c = 11000"
  by (induction ds arbitrary: i acc new errs) (fastforce split: if_splits prod.splits)+

lemma mem_only_duplicates: "only_duplicate_errors (mem_driver True)"
  unfolding only_duplicate_errors_def
proof (intro allI impI)
  fix ns docs and w :: mem and errs w'
  assume "md_insert_many (mem_driver True) ns docs False w = (Inl (BulkWriteErr errs), w')"
  then have "mem_insert True ns docs False w = (Inl (BulkWriteErr errs), w')" by (simp add: mem_driver_def)
  then show "\<forall>(i, code) \<in> set errs. code = 11000"
    unfolding mem_insert_def
  proof (cases rule: guarded_cases)
    case (ran w1 f)
    then show ?thesis by (auto split: if_splits prod.splits dest: insert_loop_NoFault)
  qed auto
qed

lemma guarded_view_kept:
  "(\<And>f w r w'. op f w = (r, w') \<Longrightarrow> mm_docs w' = mm_docs w) \<Longrightarrow> view_kept mem_view (guarded op)"
  unfolding view_kept_def mem_view_def by (metis guarded_cases)

lemma mem_contract: "mongo_contract (mem_driver b) mem_view"
proof -
  have "raises_ordinary (mem_insert b ns ds False)" for ns ds
    unfolding raises_ordinary_def mem_insert_def
    by (auto elim!: guarded_cases split: if_splits prod.splits)
  then show ?thesis
    unfolding mongo_contract_def
    by (intro conjI mem_insert_contract mem_find_contract mem_find_one_contract mem_count_contract
        mem_aggregate_contract mem_update_many_contract mem_upsert_contract mem_delete_contract allI)
      (auto simp: mem_driver_def mem_find_def mem_find_one_def mem_count_def mem_aggregate_def
        intro!: guarded_view_kept)
qed

end
