(* ===== verification/Models.thy ===== *)
theory Models
  imports Py_Values
begin

text \<open>
  \<open>app/models.py\<close>: the client payload \<open>EventCreate\<close>, the full record \<open>EventDocument\<close> that extends it,
  their construction with the declared defaults and constraint, and \<open>model_dump()\<close>. Which fields a
  client set (pydantic's \<open>model_fields_set\<close>) is passed separately where the code needs it. What
  pydantic does with an untyped dict (\<open>EventDocument(**d)\<close>) is a parameter \<open>validate\<close>; the contract
  \<open>pydantic_contract\<close> states what the code relies on.
\<close>

section \<open>EventCreate\<close>

record event_create =
  event_type :: string
  timestamp :: datetime
  user_id :: string
  source_url :: string
  metadata :: pydict
  schema_version :: int

text \<open>
  \<open>EventCreate(...)\<close> on fields of the declared types, \<open>None\<close> for an omitted one: \<open>timestamp\<close> defaults to
  the current time, \<open>metadata\<close> to an empty dict, \<open>schema_version\<close> to 1 and must be at least 1.
\<close>

definition EventCreate ::
  "datetime \<Rightarrow> string \<Rightarrow> datetime option \<Rightarrow> string \<Rightarrow> string \<Rightarrow> pydict option \<Rightarrow> int option \<Rightarrow> exn + event_create" where
  "EventCreate now et ts uid url meta ver =
     (let v = (case ver of None \<Rightarrow> 1 | Some n \<Rightarrow> n) in
      if v < 1 then Inl ValidationErr
      else Inr \<lparr>event_type = et, timestamp = (case ts of None \<Rightarrow> now | Some t \<Rightarrow> t), user_id = uid,
        source_url = url, metadata = (case meta of None \<Rightarrow> [] | Some m \<Rightarrow> m), schema_version = v\<rparr>)"

definition event_ok :: "('a) event_create_scheme \<Rightarrow> bool" where
  "event_ok ev \<longleftrightarrow> 1 \<le> schema_version ev"

definition dump_create :: "('a) event_create_scheme \<Rightarrow> pydict" where
  "dump_create ev =
    [(''event_type'', PStr (event_type ev)), (''timestamp'', PDate (timestamp ev)),
     (''user_id'', PStr (user_id ev)), (''source_url'', PStr (source_url ev)),
     (''metadata'', PDict (metadata ev)), (''schema_version'', PInt (schema_version ev))]"

section \<open>EventDocument\<close>

record event_document = event_create +
  event_id :: string
  received_at :: datetime

text \<open>\<open>EventDocument(event_id=..., received_at=..., **event.model_dump())\<close>.\<close>

definition EventDocument :: "string \<Rightarrow> datetime \<Rightarrow> event_create \<Rightarrow> event_document" where
  "EventDocument eid recv ev = event_create.extend ev (event_document.fields eid recv)"

lemma EventDocument_fields [simp]:
  "event_id (EventDocument i r ev) = i" "received_at (EventDocument i r ev) = r"
  "event_type (EventDocument i r ev) = event_type ev" "timestamp (EventDocument i r ev) = timestamp ev"
  "user_id (EventDocument i r ev) = user_id ev" "source_url (EventDocument i r ev) = source_url ev"
  "metadata (EventDocument i r ev) = metadata ev" "schema_version (EventDocument i r ev) = schema_version ev"
  by (simp_all add: EventDocument_def event_create.extend_def event_document.fields_def)

definition model_dump :: "event_document \<Rightarrow> pydict" where
  "model_dump e = dump_create e @
    [(''event_id'', PStr (event_id e)), (''received_at'', PDate (received_at e))]"

definition document_fields :: "string list" where
  "document_fields = [''event_type'', ''timestamp'', ''user_id'', ''source_url'', ''metadata'',
     ''schema_version'', ''event_id'', ''received_at'']"

lemma map_fst_model_dump [simp]: "map fst (model_dump e) = document_fields"
  by (simp add: model_dump_def dump_create_def document_fields_def)

lemma model_dump_gets [simp]:
  "dict_get (model_dump e) ''event_type'' = Some (PStr (event_type e))"
  "dict_get (model_dump e) ''timestamp'' = Some (PDate (timestamp e))"
  "dict_get (model_dump e) ''user_id'' = Some (PStr (user_id e))"
  "dict_get (model_dump e) ''source_url'' = Some (PStr (source_url e))"
  "dict_get (model_dump e) ''metadata'' = Some (PDict (metadata e))"
  "dict_get (model_dump e) ''schema_version'' = Some (PInt (schema_version e))"
  "dict_get (model_dump e) ''event_id'' = Some (PStr (event_id e))"
  "dict_get (model_dump e) ''received_at'' = Some (PDate (received_at e))"
  by (simp_all add: model_dump_def dump_create_def)

lemma model_dump_inj: "model_dump e = model_dump e' \<longleftrightarrow> e = e'"
proof
  assume "model_dump e = model_dump e'"
  then show "e = e'"
    by (cases e, cases e') (simp add: model_dump_def dump_create_def)
qed simp

section \<open>Building an \<open>EventDocument\<close> from a dict\<close>

type_synonym validator = "pydict \<Rightarrow> exn + event_document"

text \<open>
  What the code relies on of \<open>EventDocument(**d)\<close>: a dict that holds the declared fields with values of
  the declared types yields the event with these values, whatever the order and whatever else is in
  the dict (pydantic ignores unknown keys).
\<close>

definition pydantic_contract :: "validator \<Rightarrow> bool" where
  "pydantic_contract validate \<longleftrightarrow>
     (\<forall>d e. event_ok e \<longrightarrow> (\<forall>k \<in> set document_fields. dict_get d k = dict_get (model_dump e) k) \<longrightarrow>
        validate d = Inr e)"

lemma pydantic_contractD:
  assumes "pydantic_contract validate" "event_ok e"
    and "\<And>k. k \<in> set document_fields \<Longrightarrow> dict_get d k = dict_get (model_dump e) k"
  shows "validate d = Inr e"
  using assms by (auto simp: pydantic_contract_def)

text \<open>A validator without coercions, which satisfies the contract.\<close>

definition strict_validate :: validator where
  "strict_validate d =
     (case map (dict_get d) document_fields of
        [Some (PStr et), Some (PDate ts), Some (PStr uid), Some (PStr url), Some (PDict meta),
         Some (PInt ver), Some (PStr eid), Some (PDate recv)] \<Rightarrow>
           if ver < 1 then Inl ValidationErr
           else Inr \<lparr>event_type = et, timestamp = ts, user_id = uid, source_url = url, metadata = meta,
             schema_version = ver, event_id = eid, received_at = recv\<rparr>
      | _ \<Rightarrow> Inl ValidationErr)"

lemma strict_validate_contract: "pydantic_contract strict_validate"
  unfolding pydantic_contract_def
proof (intro allI impI)
  fix d e
  assume "event_ok e" and "\<forall>k \<in> set document_fields. dict_get d k = dict_get (model_dump e) k"
  then show "strict_validate d = Inr e"
    by (cases e) (simp add: strict_validate_def document_fields_def event_ok_def)
qed

text \<open>An event for the concrete runs.\<close>

definition sample_create :: event_create where
  "sample_create = \<lparr>event_type = ''view'', timestamp = utc_datetime 5000, user_id = ''u'', source_url = ''s'',
     metadata = [], schema_version = 1\<rparr>"

end
