(* ===== verification/Mongo_Store.thy ===== *)
theory Mongo_Store
  imports Mongo_Memory Models "HOL-Library.Sublist"
begin

text \<open>
  \<open>app/storage/mongo.py\<close>: the source-of-truth store. The state is the object's three attributes; the
  driver behind \<open>_client\<close> is the parameter \<open>D\<close>. Every method is translated in the order of the file,
  followed by what each guarantees under the driver's contract.
\<close>

section \<open>State and connection\<close>

record 'm mongo_store =
  ms_uri :: string
  ms_db_name :: string
  ms_client :: "'m option"

definition new_mongo_store :: "string \<Rightarrow> string \<Rightarrow> 'm mongo_store" where
  "new_mongo_store uri db = \<lparr>ms_uri = uri, ms_db_name = db, ms_client = None\<rparr>"

definition COLLECTION :: string where "COLLECTION = ''events''"
definition ROLLUPS :: string where "ROLLUPS = ''rollups''"
definition ROLLUP_ID :: string where "ROLLUP_ID = ''event_type_counts''"
definition DEAD_LETTER :: string where "DEAD_LETTER = ''dead_letter''"

text \<open>A driver call on a client that exists.\<close>

definition on_client :: "'m \<Rightarrow> ('m, 'a) io \<Rightarrow> ('m mongo_store, 'a) io" where
  "on_client m f s = (case f m of (r, m') \<Rightarrow> (r, s\<lparr>ms_client := Some m'\<rparr>))"

definition connect :: "'m mongo_driver \<Rightarrow> ('m mongo_store, unit) io" where
  "connect D s = on_client (md_client D (ms_uri s)) (md_ping D) s"

definition close :: "'m mongo_driver \<Rightarrow> 'm mongo_store \<Rightarrow> 'm mongo_store" where
  "close D s = (case ms_client s of None \<Rightarrow> s | Some m \<Rightarrow> s\<lparr>ms_client := Some (md_close D m)\<rparr>)"

text \<open>
  The properties \<open>_collection\<close>, \<open>_rollups_collection\<close> and \<open>_dead_letter_collection\<close> followed by a driver
  call: they raise when \<open>connect()\<close> has not been called.
\<close>

definition with_collection :: "string \<Rightarrow> (ns \<Rightarrow> ('m, 'a) io) \<Rightarrow> ('m mongo_store, 'a) io" where
  "with_collection coll f s = (case ms_client s of
       None \<Rightarrow> (Inl (RuntimeErr ''MongoStore.connect() has not been called''), s)
     | Some m \<Rightarrow> on_client m (f (ms_db_name s, coll)) s)"

definition ensure_indexes :: "'m mongo_driver \<Rightarrow> ('m mongo_store, unit) io" where
  "ensure_indexes D =
     (let bg = (''background'', PBool True); idx = (\<lambda>coll keys opts. with_collection coll (\<lambda>ns. md_create_index D ns keys opts)) in
      io_bind (idx COLLECTION [(''event_type'', 1), (''timestamp'', 1)] [bg]) (\<lambda>_.
      io_bind (idx COLLECTION [(''user_id'', 1), (''timestamp'', -1)] [bg]) (\<lambda>_.
      io_bind (idx COLLECTION [(''timestamp'', -1)] [bg]) (\<lambda>_.
      io_bind (io_catch (with_collection COLLECTION (\<lambda>ns. md_drop_index D ns ''es_indexed_1''))
                 is_OperationFailure (\<lambda>_. io_return ())) (\<lambda>_.
      io_bind (idx COLLECTION [(''es_indexed'', 1), (''received_at'', 1)]
                 [(''name'', PStr ''outbox_pending''),
                  (''partialFilterExpression'', PDict [(''es_indexed'', PBool False)]), bg]) (\<lambda>_.
      idx DEAD_LETTER [(''failed_at'', -1)] [bg]))))))"

text \<open>\<open>ping()\<close> answers \<open>False\<close> on any exception, also the one a missing client causes.\<close>

definition ping :: "'m mongo_driver \<Rightarrow> ('m mongo_store, bool) io" where
  "ping D = io_catch
     (io_bind (\<lambda>s. case ms_client s of None \<Rightarrow> (Inl AttributeErr, s) | Some m \<Rightarrow> on_client m (md_ping D) s)
        (\<lambda>_. io_return True))
     is_Exception (\<lambda>_. io_return False)"

section \<open>Writing events\<close>

definition to_doc :: "event_document \<Rightarrow> pydict" where
  "to_doc e = dict_set ''es_indexed'' (PBool False) (dict_set ''_id'' (PStr (event_id e)) (model_dump e))"

text \<open>The loop of \<open>_dedupe_by_id\<close>, with its \<open>seen\<close> set and \<open>unique\<close> list.\<close>

fun dedupe_loop :: "pyval list \<Rightarrow> pydict list \<Rightarrow> pydict list \<Rightarrow> exn + pydict list" where
  "dedupe_loop seen unique [] = Inr unique"
| "dedupe_loop seen unique (doc # docs) =
     (case doc_id doc of None \<Rightarrow> Inl (KeyErr ''_id'')
      | Some i \<Rightarrow> if i \<notin> set seen then dedupe_loop (i # seen) (unique @ [doc]) docs
                 else dedupe_loop seen unique docs)"

definition dedupe_by_id :: "pydict list \<Rightarrow> exn + pydict list" where
  "dedupe_by_id docs = dedupe_loop [] [] docs"

fun is_BulkWriteError :: "exn \<Rightarrow> bool" where
  "is_BulkWriteError (BulkWriteErr _) = True"
| "is_BulkWriteError _ = False"

definition bulk_write :: "'m mongo_driver \<Rightarrow> event_document list \<Rightarrow> ('m mongo_store, unit) io" where
  "bulk_write D events =
     (if events = [] then io_return ()
      else case dedupe_by_id (map to_doc events) of
        Inl e \<Rightarrow> io_raise e
      | Inr docs \<Rightarrow> io_catch (with_collection COLLECTION (\<lambda>ns. md_insert_many D ns docs False))
          is_BulkWriteError (\<lambda>_. io_return ()))"

section \<open>Reading events\<close>

definition timestamp_clause :: "datetime option \<Rightarrow> datetime option \<Rightarrow> pydict option" where
  "timestamp_clause from_ts to_ts =
     (let c = (case from_ts of None \<Rightarrow> [] | Some f \<Rightarrow> [(''$gte'', PDate f)]) @
              (case to_ts of None \<Rightarrow> [] | Some t \<Rightarrow> [(''$lte'', PDate t)])
      in if c = [] then None else Some c)"

text \<open>\<open>if value: filt[field] = value\<close> for an optional string: an empty string does not filter.\<close>

definition opt_filter :: "string \<Rightarrow> string option \<Rightarrow> pydict" where
  "opt_filter field v = (case v of None \<Rightarrow> [] | Some s \<Rightarrow> if s = [] then [] else [(field, PStr s)])"

definition events_filter ::
  "string option \<Rightarrow> string option \<Rightarrow> string option \<Rightarrow> datetime option \<Rightarrow> datetime option \<Rightarrow> pydict" where
  "events_filter et uid url from_ts to_ts =
     opt_filter ''event_type'' et @ opt_filter ''user_id'' uid @ opt_filter ''source_url'' url @
     (case timestamp_clause from_ts to_ts of None \<Rightarrow> [] | Some c \<Rightarrow> [(''timestamp'', PDict c)])"

definition find_events ::
  "'m mongo_driver \<Rightarrow> string option \<Rightarrow> string option \<Rightarrow> string option \<Rightarrow> datetime option \<Rightarrow> datetime option \<Rightarrow>
   nat \<Rightarrow> nat \<Rightarrow> bool \<Rightarrow> ('m mongo_store, pydict list \<times> bool \<times> nat option) io" where
  "find_events D et uid url from_ts to_ts limit offset with_total =
     (let filt = events_filter et uid url from_ts to_ts in
      io_bind (with_collection COLLECTION (\<lambda>ns. md_find D ns
          \<lparr>fq_filter = filt, fq_projection = [(''_id'', PInt 0), (''es_indexed'', PInt 0)],
           fq_sort = (''timestamp'', -1), fq_skip = offset, fq_limit = limit + 1\<rparr>)) (\<lambda>docs.
      let has_more = limit < length docs; page = take limit docs in
      if with_total
      then io_bind (with_collection COLLECTION (\<lambda>ns. md_count_documents D ns filt))
             (\<lambda>n. io_return (page, has_more, Some n))
      else io_return (page, has_more, None)))"

definition counts_pipeline :: "datetime option \<Rightarrow> datetime option \<Rightarrow> string option \<Rightarrow> pydict list" where
  "counts_pipeline from_ts to_ts interval =
     (case timestamp_clause from_ts to_ts of None \<Rightarrow> []
      | Some c \<Rightarrow> [[(''$match'', PDict [(''timestamp'', PDict c)])]]) @
     (case interval of
        Some (u # us) \<Rightarrow>
          [[(''$group'', PDict [(''_id'', PDict [(''event_type'', PStr ''$event_type''),
               (''bucket'', PDict [(''$dateTrunc'', PDict [(''date'', PStr ''$timestamp''), (''unit'', PStr (u # us))])])]),
             (''count'', PDict [(''$sum'', PInt 1)])])],
           [(''$sort'', PDict [(''_id.bucket'', PInt 1), (''_id.event_type'', PInt 1)])],
           [(''$project'', PDict [(''_id'', PInt 0), (''event_type'', PStr ''$_id.event_type''),
             (''bucket'', PStr ''$_id.bucket''), (''count'', PInt 1)])]]
      | _ \<Rightarrow>
          [[(''$group'', PDict [(''_id'', PStr ''$event_type''), (''count'', PDict [(''$sum'', PInt 1)])])],
           [(''$sort'', PDict [(''count'', PInt (-1)), (''_id'', PInt 1)])],
           [(''$project'', PDict [(''_id'', PInt 0), (''event_type'', PStr ''$_id''), (''count'', PInt 1)])]])"

definition aggregate_counts ::
  "'m mongo_driver \<Rightarrow> datetime option \<Rightarrow> datetime option \<Rightarrow> string option \<Rightarrow> ('m mongo_store, pydict list) io" where
  "aggregate_counts D from_ts to_ts interval =
     with_collection COLLECTION (\<lambda>ns. md_aggregate D ns (counts_pipeline from_ts to_ts interval))"

text \<open>\<open>sum(row["count"] for row in rows)\<close>; a row without the key raises \<open>KeyError\<close>.\<close>

fun sum_counts :: "pydict list \<Rightarrow> exn + int" where
  "sum_counts [] = Inr 0"
| "sum_counts (row # rows) = (case dict_get row ''count'' of
       Some (PInt n) \<Rightarrow> (case sum_counts rows of Inl e \<Rightarrow> Inl e | Inr m \<Rightarrow> Inr (n + m))
     | _ \<Rightarrow> Inl (KeyErr ''count''))"

definition recent_pipeline :: "datetime \<Rightarrow> pydict list" where
  "recent_pipeline since =
     [[(''$match'', PDict [(''timestamp'', PDict [(''$gte'', PDate since)])])],
      [(''$group'', PDict [(''_id'', PStr ''$event_type''), (''count'', PDict [(''$sum'', PInt 1)])])],
      [(''$sort'', PDict [(''count'', PInt (-1)), (''_id'', PInt 1)])],
      [(''$project'', PDict [(''_id'', PInt 0), (''event_type'', PStr ''$_id''), (''count'', PInt 1)])]]"

definition aggregate_recent_counts :: "'m mongo_driver \<Rightarrow> datetime \<Rightarrow> int \<Rightarrow> ('m mongo_store, pydict) io" where
  "aggregate_recent_counts D now window_seconds =
     (let since = dt_minus_seconds now window_seconds in
      io_bind (with_collection COLLECTION (\<lambda>ns. md_aggregate D ns (recent_pipeline since))) (\<lambda>by_type.
      case sum_counts by_type of
        Inl e \<Rightarrow> io_raise e
      | Inr tot \<Rightarrow> io_return [(''window_seconds'', PInt window_seconds), (''since'', PStr (isoformat since)),
          (''total'', PInt tot), (''by_type'', PList (map PDict by_type))]))"

section \<open>The stats rollup\<close>

definition refresh_event_type_rollup :: "'m mongo_driver \<Rightarrow> datetime \<Rightarrow> ('m mongo_store, pydict) io" where
  "refresh_event_type_rollup D now =
     io_bind (aggregate_counts D None None None) (\<lambda>counts.
     case sum_counts counts of
       Inl e \<Rightarrow> io_raise e
     | Inr tot \<Rightarrow>
         let doc = [(''counts'', PList (map PDict counts)), (''total'', PInt tot),
                    (''computed_at'', PStr (isoformat now))] in
         io_bind (with_collection ROLLUPS (\<lambda>ns.
             md_update_one D ns [(''_id'', PStr ROLLUP_ID)] [(''$set'', PDict doc)] True))
           (\<lambda>_. io_return doc))"

definition get_event_type_rollup :: "'m mongo_driver \<Rightarrow> ('m mongo_store, pydict option) io" where
  "get_event_type_rollup D =
     with_collection ROLLUPS (\<lambda>ns. md_find_one D ns [(''_id'', PStr ROLLUP_ID)] [(''_id'', PInt 0)])"

section \<open>The outbox\<close>

definition fetch_unindexed :: "'m mongo_driver \<Rightarrow> nat \<Rightarrow> ('m mongo_store, pydict list) io" where
  "fetch_unindexed D limit =
     with_collection COLLECTION (\<lambda>ns. md_find D ns
       \<lparr>fq_filter = [(''es_indexed'', PBool False)], fq_projection = [(''_id'', PInt 0), (''es_indexed'', PInt 0)],
        fq_sort = (''received_at'', 1), fq_skip = 0, fq_limit = limit\<rparr>)"

definition mark_indexed :: "'m mongo_driver \<Rightarrow> string list \<Rightarrow> ('m mongo_store, unit) io" where
  "mark_indexed D event_ids =
     (if event_ids = [] then io_return ()
      else with_collection COLLECTION (\<lambda>ns. md_update_many D ns
        [(''_id'', PDict [(''$in'', PList (map PStr event_ids))])]
        [(''$set'', PDict [(''es_indexed'', PBool True)])]))"

section \<open>The dead-letter collection\<close>

definition persist_dead_letters :: "'m mongo_driver \<Rightarrow> pydict list \<Rightarrow> ('m mongo_store, unit) io" where
  "persist_dead_letters D docs =
     (if docs = [] then io_return ()
      else io_catch (with_collection DEAD_LETTER (\<lambda>ns. md_insert_many D ns docs False))
        is_BulkWriteError (\<lambda>_. io_return ()))"

definition list_dead_letters :: "'m mongo_driver \<Rightarrow> nat \<Rightarrow> nat \<Rightarrow> ('m mongo_store, pydict list \<times> nat) io" where
  "list_dead_letters D limit offset =
     io_bind (with_collection DEAD_LETTER (\<lambda>ns. md_find D ns
         \<lparr>fq_filter = [], fq_projection = [(''_id'', PInt 0)], fq_sort = (''failed_at'', -1),
          fq_skip = offset, fq_limit = limit\<rparr>)) (\<lambda>entries.
     io_bind (with_collection DEAD_LETTER (\<lambda>ns. md_count_documents D ns [])) (\<lambda>n.
     io_return (entries, n)))"

definition get_dead_letter :: "'m mongo_driver \<Rightarrow> string \<Rightarrow> ('m mongo_store, pydict option) io" where
  "get_dead_letter D eid =
     with_collection DEAD_LETTER (\<lambda>ns. md_find_one D ns [(''_id'', PStr eid)] [(''_id'', PInt 0)])"

definition delete_dead_letter :: "'m mongo_driver \<Rightarrow> string \<Rightarrow> ('m mongo_store, bool) io" where
  "delete_dead_letter D eid =
     io_bind (with_collection DEAD_LETTER (\<lambda>ns. md_delete_one D ns [(''_id'', PStr eid)]))
       (\<lambda>deleted. io_return (0 < deleted))"

section \<open>What the store holds\<close>

text \<open>What stands for a Mongo in the interfaces: a driver and how its state is read.\<close>

type_synonym 'm mongo_ctx = "'m mongo_driver \<times> 'm mongo_view"

definition store_docs :: "'m mongo_view \<Rightarrow> 'm mongo_store \<Rightarrow> string \<Rightarrow> pydict list" where
  "store_docs V s coll = (case ms_client s of None \<Rightarrow> [] | Some m \<Rightarrow> V m (ms_db_name s, coll))"

definition stored_ids :: "'m mongo_view \<Rightarrow> 'm mongo_store \<Rightarrow> string \<Rightarrow> string set" where
  "stored_ids V s coll = {i. Some (PStr i) \<in> doc_id ` set (store_docs V s coll)}"

definition store_inv :: "'m mongo_view \<Rightarrow> 'm mongo_store \<Rightarrow> bool" where
  "store_inv V s \<longleftrightarrow> (\<forall>coll. distinct (map doc_id (store_docs V s coll)) \<and>
     (\<forall>d \<in> set (store_docs V s coll). \<exists>i. doc_id d = Some (PStr i)))"

lemma collection_names [simp]:
  "COLLECTION \<noteq> DEAD_LETTER" "DEAD_LETTER \<noteq> COLLECTION" "COLLECTION \<noteq> ROLLUPS" "ROLLUPS \<noteq> COLLECTION"
  "ROLLUPS \<noteq> DEAD_LETTER" "DEAD_LETTER \<noteq> ROLLUPS"
  by (simp_all add: COLLECTION_def DEAD_LETTER_def ROLLUPS_def)

lemma with_collection_cases:
  assumes "with_collection coll f s = (r, s')"
  obtains (unconnected) "ms_client s = None" "s' = s" "r = Inl (RuntimeErr ''MongoStore.connect() has not been called'')"
    | (call) m m' where "ms_client s = Some m" "f (ms_db_name s, coll) m = (r, m')" "s' = s\<lparr>ms_client := Some m'\<rparr>"
  using assms by (auto simp: with_collection_def on_client_def split: option.splits prod.splits)

lemma with_collection_kept:
  assumes "\<And>ns. view_kept V (f ns)" and "with_collection coll f s = (r, s')"
  shows "store_docs V s' = store_docs V s"
  using assms(2)
  by (rule with_collection_cases) (auto simp: store_docs_def fun_eq_iff dest: view_keptD [OF assms(1)])

text \<open>The documents the store writes.\<close>

lemma to_doc_gets:
  "dict_get (to_doc e) k = (if k = ''es_indexed'' then Some (PBool False)
     else if k = ''_id'' then Some (PStr (event_id e)) else dict_get (model_dump e) k)"
  by (simp add: to_doc_def)

lemma doc_id_to_doc [simp]: "doc_id (to_doc e) = Some (PStr (event_id e))"
  by (simp add: doc_id_def to_doc_gets)

section \<open>Deduplication\<close>

text \<open>The reference for the loop: keep a document when its \<open>_id\<close> was not seen before.\<close>

fun first_by_id :: "pyval set \<Rightarrow> pydict list \<Rightarrow> pydict list" where
  "first_by_id seen [] = []"
| "first_by_id seen (d # ds) = (if the (doc_id d) \<in> seen then first_by_id seen ds
     else d # first_by_id (insert (the (doc_id d)) seen) ds)"

lemma dedupe_loop_first_by_id:
  "\<forall>d \<in> set docs. doc_id d \<noteq> None \<Longrightarrow> dedupe_loop seen unique docs = Inr (unique @ first_by_id (set seen) docs)"
  by (induction docs arbitrary: seen unique) auto

lemma dedupe_by_id_eq:
  "\<forall>d \<in> set docs. doc_id d \<noteq> None \<Longrightarrow> dedupe_by_id docs = Inr (first_by_id {} docs)"
  by (simp add: dedupe_by_id_def dedupe_loop_first_by_id)

lemma first_by_id_subseq: "subseq (first_by_id seen docs) docs"
  by (induction docs arbitrary: seen) auto

lemma first_by_id_set: "set (first_by_id seen docs) \<subseteq> set docs"
  by (induction docs arbitrary: seen) (auto dest: subsetD)

lemma first_by_id_fresh:
  assumes "\<forall>d \<in> set docs. doc_id d \<noteq> None" and "d \<in> set (first_by_id seen docs)"
  shows "the (doc_id d) \<notin> seen"
  using assms
proof (induction docs arbitrary: seen)
  case (Cons x xs)
  show ?case
  proof (cases "the (doc_id x) \<in> seen")
    case False
    with Cons.prems have "d = x \<or> d \<in> set (first_by_id (insert (the (doc_id x)) seen) xs)" by simp
    with False Cons.IH [of "insert (the (doc_id x)) seen"] Cons.prems(1) show ?thesis by auto
  qed (use Cons in simp)
qed simp

lemma first_by_id_distinct:
  "\<forall>d \<in> set docs. doc_id d \<noteq> None \<Longrightarrow> distinct (map doc_id (first_by_id seen docs))"
proof (induction docs arbitrary: seen)
  case (Cons d ds)
  have "doc_id d \<noteq> doc_id d'" if "d' \<in> set (first_by_id (insert (the (doc_id d)) seen) ds)" for d'
    using first_by_id_fresh [OF _ that] Cons.prems by auto
  then have "doc_id d \<notin> doc_id ` set (first_by_id (insert (the (doc_id d)) seen) ds)" by blast
  with Cons show ?case by simp
qed simp

lemma first_by_id_ids:
  "\<forall>d \<in> set docs. doc_id d \<noteq> None \<Longrightarrow>
    doc_id ` set (first_by_id seen docs) = doc_id ` set docs - Some ` seen"
proof (induction docs arbitrary: seen)
  case (Cons d ds)
  then obtain i where i: "doc_id d = Some i" by auto
  with Cons.prems Cons.IH [of seen] Cons.IH [of "insert i seen"] show ?case by auto
qed simp

lemma first_by_id_find:
  assumes "\<forall>d \<in> set docs. doc_id d \<noteq> None" and "d \<in> set (first_by_id seen docs)"
  shows "List.find (\<lambda>x. doc_id x = doc_id d) docs = Some d"
  using assms
proof (induction docs arbitrary: seen)
  case (Cons x xs)
  show ?case
  proof (cases "the (doc_id x) \<in> seen")
    case True
    with Cons.prems first_by_id_fresh [OF Cons.prems] have "doc_id x \<noteq> doc_id d" by auto
    with True Cons show ?thesis by simp
  next
    case False
    show ?thesis
    proof (cases "d \<in> set (first_by_id (insert (the (doc_id x)) seen) xs)")
      case True
      with first_by_id_fresh [OF _ True] Cons.prems(1) have "doc_id x \<noteq> doc_id d" by auto
      with True Cons show ?thesis by simp
    qed (use False Cons.prems in auto)
  qed
qed simp

text \<open>
  C24: \<open>_dedupe_by_id\<close> returns a subsequence of its input with pairwise different ids, covering every id
  of the input, and keeps of each id the first document; a document without \<open>_id\<close> raises \<open>KeyError\<close>.
\<close>

theorem dedupe_by_id_correct:
  "((\<forall>d \<in> set docs. doc_id d \<noteq> None) \<longrightarrow> (\<exists>out. dedupe_by_id docs = Inr out \<and> subseq out docs \<and>
      distinct (map doc_id out) \<and> doc_id ` set out = doc_id ` set docs \<and>
      (\<forall>d \<in> set out. List.find (\<lambda>x. doc_id x = doc_id d) docs = Some d))) \<and>
   ((\<exists>d \<in> set docs. doc_id d = None) \<longrightarrow> dedupe_by_id docs = Inl (KeyErr ''_id''))"
proof (intro conjI impI)
  assume ids: "\<forall>d \<in> set docs. doc_id d \<noteq> None"
  show "\<exists>out. dedupe_by_id docs = Inr out \<and> subseq out docs \<and>
      distinct (map doc_id out) \<and> doc_id ` set out = doc_id ` set docs \<and>
      (\<forall>d \<in> set out. List.find (\<lambda>x. doc_id x = doc_id d) docs = Some d)"
    using ids dedupe_by_id_eq first_by_id_subseq first_by_id_distinct first_by_id_ids [of docs "{}"]
      first_by_id_find [of docs _ "{}"] by (intro exI [of _ "first_by_id {} docs"]) auto
next
  have "\<exists>d \<in> set ds. doc_id d = None \<Longrightarrow> dedupe_loop seen u ds = Inl (KeyErr ''_id'')" for seen u ds
    by (induction ds arbitrary: seen u) (auto split: option.split)
  then show "\<exists>d \<in> set docs. doc_id d = None \<Longrightarrow> dedupe_by_id docs = Inl (KeyErr ''_id'')"
    by (simp add: dedupe_by_id_def)
qed

theorem dedupe_by_id_correct_witness:
  "dedupe_by_id [[(''_id'', PInt 1), (''n'', PInt 1)], [(''_id'', PInt 1)], [(''_id'', PInt 2)]] =
     Inr [[(''_id'', PInt 1), (''n'', PInt 1)], [(''_id'', PInt 2)]] \<and>
   dedupe_by_id [[(''n'', PInt 0)]] = Inl (KeyErr ''_id'')"
  using dedupe_by_id_correct [of "[[(''n'', PInt 0)]]"]
  by (simp add: doc_id_def) (simp add: dedupe_by_id_def doc_id_def)

section \<open>Idempotent writes\<close>

definition event_ids_of :: "event_document list \<Rightarrow> string set" where
  "event_ids_of events = event_id ` set events"

definition bulk_docs :: "event_document list \<Rightarrow> pydict list" where
  "bulk_docs events = first_by_id {} (map to_doc events)"

lemma dedupe_to_docs: "dedupe_by_id (map to_doc events) = Inr (bulk_docs events)"
  by (simp add: dedupe_by_id_eq bulk_docs_def)

lemma bulk_docs_ids: "doc_id ` set (bulk_docs events) = (\<lambda>i. Some (PStr i)) ` event_ids_of events"
  using first_by_id_ids [of "map to_doc events" "{}"]
  by (simp add: bulk_docs_def event_ids_of_def image_image)

lemma bulk_docs_from_events: "d \<in> set (bulk_docs events) \<Longrightarrow> \<exists>e \<in> set events. d = to_doc e"
  using first_by_id_set [of "{}" "map to_doc events"] by (auto simp: bulk_docs_def)

lemma bulk_docs_have_ids: "d \<in> set (bulk_docs events) \<Longrightarrow> \<exists>i. doc_id d = Some (PStr i)"
  by (auto dest: bulk_docs_from_events)

text \<open>An \<open>insert_many\<close> behind \<open>except BulkWriteError: pass\<close>, as both writers of the store use it.\<close>

definition insert_skipping :: "'m mongo_driver \<Rightarrow> string \<Rightarrow> pydict list \<Rightarrow> ('m mongo_store, unit) io" where
  "insert_skipping D coll docs = io_catch (with_collection coll (\<lambda>ns. md_insert_many D ns docs False))
     is_BulkWriteError (\<lambda>_. io_return ())"

lemma is_BulkWriteErrorE: "is_BulkWriteError e \<Longrightarrow> (\<And>errs. e = BulkWriteErr errs \<Longrightarrow> P) \<Longrightarrow> P"
  by (cases e) auto

lemma bulk_write_insert: "events \<noteq> [] \<Longrightarrow> bulk_write D events = insert_skipping D COLLECTION (bulk_docs events)"
  by (simp add: bulk_write_def dedupe_to_docs insert_skipping_def)

lemma persist_insert: "docs \<noteq> [] \<Longrightarrow> persist_dead_letters D docs = insert_skipping D DEAD_LETTER docs"
  by (simp add: persist_dead_letters_def insert_skipping_def)

lemma insert_skipping_unconnected:
  "ms_client s = None \<Longrightarrow> insert_skipping D coll docs s =
     (Inl (RuntimeErr ''MongoStore.connect() has not been called''), s)"
  by (simp add: insert_skipping_def with_collection_def io_catch_def)

lemma insert_skipping_connected:
  assumes "ms_client s = Some m" and "md_insert_many D (ms_db_name s, coll) docs False m = (r, m')"
  shows "insert_skipping D coll docs s =
    (case r of Inl e \<Rightarrow> if is_BulkWriteError e then Inr () else Inl e | Inr u \<Rightarrow> Inr u, s\<lparr>ms_client := Some m'\<rparr>)"
  using assms by (simp add: insert_skipping_def with_collection_def on_client_def io_catch_def split: sum.split)

text \<open>What one such insert does to the collection, for every result.\<close>

lemma insert_skipping_effect:
  assumes ct: "mongo_contract D V" and ids: "\<forall>d \<in> set docs. \<exists>i. doc_id d = Some (PStr i)"
    and run: "insert_skipping D coll docs s = (r, s')"
  obtains (unconnected) "ms_client s = None" "s' = s" "\<exists>e. r = Inl e \<and> is_Exception e"
    | (sent) r0 where "ms_client s \<noteq> None" "ms_client s' \<noteq> None" "ms_db_name s' = ms_db_name s"
        "insert_outcome (store_docs V s coll) docs (store_docs V s' coll) r0"
        "\<And>coll'. coll' \<noteq> coll \<Longrightarrow> store_docs V s' coll' = store_docs V s coll'"
        "r0 = r \<and> (\<forall>errs. r \<noteq> Inl (BulkWriteErr errs)) \<or>
         r = Inr () \<and> (\<exists>errs. r0 = Inl (BulkWriteErr errs) \<and> (only_duplicate_errors D \<longrightarrow> (\<forall>(i, c) \<in> set errs. c = 11000)))"
        "\<forall>e. r = Inl e \<longrightarrow> is_Exception e"
proof (cases "ms_client s")
  case None
  with run have "r = Inl (RuntimeErr ''MongoStore.connect() has not been called'')" "s' = s"
    by (simp_all add: insert_skipping_unconnected)
  with None show thesis by (intro that(1)) (auto simp: is_Exception_def)
next
  case (Some m)
  obtain r0 m' where call: "md_insert_many D (ms_db_name s, coll) docs False m = (r0, m')" by force
  from run insert_skipping_connected [OF Some call]
  have r: "r = (case r0 of Inl e \<Rightarrow> if is_BulkWriteError e then Inr () else Inl e | Inr u \<Rightarrow> Inr u)"
    and s': "s' = s\<lparr>ms_client := Some m'\<rparr>" by simp_all
  from ids have "\<forall>d \<in> set docs. doc_id d \<noteq> None" by force
  with mongo_contractD(1) [OF ct] call
  have "(\<forall>ns'. ns' \<noteq> (ms_db_name s, coll) \<longrightarrow> V m' ns' = V m ns') \<and>
      insert_outcome (V m (ms_db_name s, coll)) docs (V m' (ms_db_name s, coll)) r0"
    unfolding insert_contract_def by blast
  moreover have "\<forall>e. r0 = Inl e \<longrightarrow> is_Exception e"
    using mongo_contractD(16) [OF ct] call unfolding raises_ordinary_def by blast
  moreover have "only_duplicate_errors D \<Longrightarrow> r0 = Inl (BulkWriteErr errs) \<Longrightarrow> (\<forall>(i, c) \<in> set errs. c = 11000)" for errs
    using call unfolding only_duplicate_errors_def by blast
  moreover have "r0 = r \<and> (\<forall>errs. r \<noteq> Inl (BulkWriteErr errs)) \<or> r = Inr () \<and> (\<exists>errs. r0 = Inl (BulkWriteErr errs))"
    by (cases r0) (auto simp: r elim: is_BulkWriteErrorE)
  ultimately show thesis
    using Some s' by (intro that(2) [of r0]) (simp_all add: store_docs_def, blast+)
qed

lemma insert_skipping_mono:
  assumes "mongo_contract D V" and "\<forall>d \<in> set docs. \<exists>i. doc_id d = Some (PStr i)" and "insert_skipping D coll docs s = (r, s')"
  shows "\<exists>news. store_docs V s' coll' = store_docs V s coll' @ news"
  using assms
proof (rule insert_skipping_effect)
  fix r0
  assume "insert_outcome (store_docs V s coll) docs (store_docs V s' coll) r0"
    and "\<And>c. c \<noteq> coll \<Longrightarrow> store_docs V s' c = store_docs V s c"
  then show ?thesis by (cases "coll' = coll") (auto dest: insert_outcome_append)
qed auto

lemma insert_skipping_inv:
  assumes "mongo_contract D V" and ids: "\<forall>d \<in> set docs. \<exists>i. doc_id d = Some (PStr i)"
    and "insert_skipping D coll docs s = (r, s')" and inv: "store_inv V s"
  shows "store_inv V s'"
  using assms(1-3)
proof (rule insert_skipping_effect)
  fix r0
  assume oc: "insert_outcome (store_docs V s coll) docs (store_docs V s' coll) r0"
    and other: "\<And>c. c \<noteq> coll \<Longrightarrow> store_docs V s' c = store_docs V s c"
  from oc obtain news where new: "store_docs V s' coll = store_docs V s coll @ news"
    and src: "\<And>n. n \<in> set news \<Longrightarrow> \<exists>d \<in> set docs. stored_as d n" by (rule insert_outcome_news) blast
  have "\<exists>i. doc_id n = Some (PStr i)" if "n \<in> set news" for n
    using src [OF that] ids stored_as_doc_id by blast
  with inv new have "\<forall>d \<in> set (store_docs V s' coll). \<exists>i. doc_id d = Some (PStr i)"
    by (auto simp: store_inv_def)
  moreover from inv insert_outcome_distinct [OF oc] have "distinct (map doc_id (store_docs V s' coll))"
    by (simp add: store_inv_def)
  ultimately show ?thesis using inv other unfolding store_inv_def by (metis (no_types, lifting))
qed (use inv in auto)

lemma insert_skipping_stores:
  assumes "mongo_contract D V" and "only_duplicate_errors D" and "\<forall>d \<in> set docs. \<exists>i. doc_id d = Some (PStr i)"
    and "insert_skipping D coll docs s = (Inr (), s')" and "d \<in> set docs" and "doc_id d = Some (PStr i)"
  shows "i \<in> stored_ids V s' coll"
  using assms(1,3,4)
proof (rule insert_skipping_effect)
  fix r0 :: "exn + unit"
  assume oc: "insert_outcome (store_docs V s coll) docs (store_docs V s' coll) r0"
    and "r0 = Inr () \<and> (\<forall>errs. Inr () \<noteq> Inl (BulkWriteErr errs)) \<or>
       Inr () = (Inr () :: exn + unit) \<and> (\<exists>errs. r0 = Inl (BulkWriteErr errs) \<and>
         (only_duplicate_errors D \<longrightarrow> (\<forall>(i, c) \<in> set errs. c = 11000)))"
  then consider "r0 = Inr ()" | errs where "r0 = Inl (BulkWriteErr errs)" "\<forall>(i, c) \<in> set errs. c = 11000"
    using assms(2) by blast
  then show ?thesis
  proof cases
    case 1
    with oc insert_outcome_Inr_ids [OF _ assms(5,6)] show ?thesis by (simp add: stored_ids_def)
  next
    case 2
    with oc insert_outcome_bulk_ids [OF _ _ assms(5,6)] show ?thesis by (simp add: stored_ids_def)
  qed
qed simp_all

lemma insert_skipping_news:
  assumes "mongo_contract D V" and "\<forall>d \<in> set docs. \<exists>i. doc_id d = Some (PStr i)" and "insert_skipping D coll docs s = (r, s')"
  obtains news where "store_docs V s' coll = store_docs V s coll @ news"
    "\<And>n. n \<in> set news \<Longrightarrow> \<exists>d \<in> set docs. stored_as d n"
    "\<And>c. c \<noteq> coll \<Longrightarrow> store_docs V s' c = store_docs V s c"
  using assms
proof (rule insert_skipping_effect)
  fix r0
  assume "insert_outcome (store_docs V s coll) docs (store_docs V s' coll) r0"
    and other: "\<And>c. c \<noteq> coll \<Longrightarrow> store_docs V s' c = store_docs V s c"
  from this(1) show thesis by (rule insert_outcome_news) (use that other in blast)
qed (use that [of "[]"] in auto)

lemma stored_ids_mono:
  assumes "mongo_contract D V" and "\<forall>d \<in> set docs. \<exists>i. doc_id d = Some (PStr i)" and "insert_skipping D coll docs s = (r, s')"
  shows "stored_ids V s c \<subseteq> stored_ids V s' c"
  using insert_skipping_mono [OF assms] by (auto simp: stored_ids_def) (metis UnCI set_append image_iff)

lemma bulk_write_Nil [simp]: "bulk_write D [] s = (Inr (), s)"
  by (simp add: bulk_write_def)

lemma bulk_write_cases:
  assumes "bulk_write D events s = (r, s')"
  obtains "events = []" "r = Inr ()" "s' = s"
    | "events \<noteq> []" "insert_skipping D COLLECTION (bulk_docs events) s = (r, s')"
  using assms by (cases "events = []") (auto simp: bulk_write_insert)

lemma bulk_docs_string_ids: "\<forall>d \<in> set (bulk_docs events). \<exists>i. doc_id d = Some (PStr i)"
  by (auto dest: bulk_docs_have_ids)

lemma persist_Nil [simp]: "persist_dead_letters D [] s = (Inr (), s)"
  by (simp add: persist_dead_letters_def)

lemma bulk_write_effect:
  assumes "mongo_contract D V" and "store_inv V s" and "bulk_write D events s = (r, s')"
  shows "store_inv V s' \<and> (\<forall>c. c \<noteq> COLLECTION \<longrightarrow> store_docs V s' c = store_docs V s c) \<and>
    (\<exists>news. store_docs V s' COLLECTION = store_docs V s COLLECTION @ news \<and>
       (\<forall>n \<in> set news. \<exists>e \<in> set events. stored_as (to_doc e) n \<and> dict_get n ''es_indexed'' = Some (PBool False))) \<and>
    (r = Inr () \<and> only_duplicate_errors D \<longrightarrow> event_ids_of events \<subseteq> stored_ids V s' COLLECTION)"
proof (cases "events = []")
  case True
  with assms show ?thesis by (auto simp: event_ids_of_def)
next
  case False
  with assms(3) have run: "insert_skipping D COLLECTION (bulk_docs events) s = (r, s')"
    by (simp add: bulk_write_insert)
  have ids: "\<forall>d \<in> set (bulk_docs events). \<exists>i. doc_id d = Some (PStr i)" by (auto dest: bulk_docs_have_ids)
  obtain news where news: "store_docs V s' COLLECTION = store_docs V s COLLECTION @ news"
    "\<And>n. n \<in> set news \<Longrightarrow> \<exists>d \<in> set (bulk_docs events). stored_as d n"
    "\<And>c. c \<noteq> COLLECTION \<Longrightarrow> store_docs V s' c = store_docs V s c"
    by (rule insert_skipping_news [OF assms(1) ids run]) blast
  have "\<exists>e \<in> set events. stored_as (to_doc e) n \<and> dict_get n ''es_indexed'' = Some (PBool False)"
    if "n \<in> set news" for n
    using news(2) [OF that] by (auto dest!: bulk_docs_from_events simp: stored_as_def to_doc_gets)
  moreover have "event_ids_of events \<subseteq> stored_ids V s' COLLECTION"
    if "r = Inr ()" and "only_duplicate_errors D"
  proof
    fix i
    assume "i \<in> event_ids_of events"
    then have "Some (PStr i) \<in> doc_id ` set (bulk_docs events)" by (simp add: bulk_docs_ids)
    then obtain d where "d \<in> set (bulk_docs events)" "doc_id d = Some (PStr i)" by auto
    with insert_skipping_stores [OF assms(1) that(2) ids] run that(1)
    show "i \<in> stored_ids V s' COLLECTION" by blast
  qed
  ultimately show ?thesis using news insert_skipping_inv [OF assms(1) ids run assms(2)] by blast
qed

text \<open>
  C12: a batch write. Whatever \<open>bulk_write\<close> returns, documents already stored stay, no other collection
  changes, ids stay unique, and every new document is the serialisation of an event of the batch, pending
  in the outbox. When it returns normally and the server refuses documents for duplicate ids only, every
  event of the batch is stored.
\<close>

theorem bulk_write_stores:
  assumes "mongo_contract D V" and "store_inv V s" and "bulk_write D events s = (r, s')"
  shows "store_inv V s' \<and> (\<forall>c. c \<noteq> COLLECTION \<longrightarrow> store_docs V s' c = store_docs V s c) \<and>
    (\<exists>news. store_docs V s' COLLECTION = store_docs V s COLLECTION @ news \<and>
       (\<forall>n \<in> set news. \<exists>e \<in> set events. stored_as (to_doc e) n \<and> dict_get n ''es_indexed'' = Some (PBool False))) \<and>
    (r = Inr () \<and> only_duplicate_errors D \<longrightarrow> event_ids_of events \<subseteq> stored_ids V s' COLLECTION)"
  using assms by (rule bulk_write_effect)

definition sample_event :: "string \<Rightarrow> event_document" where
  "sample_event i = EventDocument i (utc_datetime 7000) sample_create"

definition mem_store :: "fault list \<Rightarrow> mem mongo_store" where
  "mem_store fs = \<lparr>ms_uri = ''mongodb://x'', ms_db_name = ''db'', ms_client = Some (mem_new fs)\<rparr>"

lemma mem_store_inv: "store_inv mem_view (mem_store fs)"
  by (simp add: store_inv_def store_docs_def mem_store_def mem_view_def mem_new_def)

lemma event_id_sample [simp]: "event_id (sample_event i) = i"
  by (simp add: sample_event_def)

lemma sample_encodable [simp]: "list_all (\<lambda>kv. bson_ok (snd kv)) (to_doc (sample_event i))"
  by (simp add: to_doc_def model_dump_def dump_create_def sample_event_def sample_create_def)

lemma bulk_docs_single [simp]: "bulk_docs [e] = [to_doc e]"
  by (simp add: bulk_docs_def)

definition mem_written :: "string \<Rightarrow> mem mongo_store" where
  "mem_written i = (mem_store [])\<lparr>ms_client := Some
     ((mem_new [])\<lparr>mm_docs := (\<lambda>_. [])((''db'', COLLECTION) := [bson_doc (to_doc (sample_event i))])\<rparr>)\<rparr>"

lemma mem_store_write: "bulk_write (mem_driver b) [sample_event i] (mem_store []) = (Inr (), mem_written i)"
proof -
  have "md_insert_many (mem_driver b) (''db'', COLLECTION) [to_doc (sample_event i)] False (mem_new []) =
      (Inr (), (mem_new [])\<lparr>mm_docs := (\<lambda>_. [])((''db'', COLLECTION) := [bson_doc (to_doc (sample_event i))])\<rparr>)"
    by (simp add: mem_driver_def mem_insert_def guarded_def next_fault_def mem_new_def Let_def)
  then show ?thesis
    by (simp add: bulk_write_insert insert_skipping_connected [where m = "mem_new []"] mem_store_def mem_written_def)
qed

lemma mem_written_docs:
  "store_docs mem_view (mem_written i) c = (if c = COLLECTION then [bson_doc (to_doc (sample_event i))] else [])"
  by (simp add: store_docs_def mem_written_def mem_store_def mem_view_def mem_new_def)

lemma mem_written_inv: "store_inv mem_view (mem_written i)"
  by (simp add: store_inv_def mem_written_docs doc_id_bson_doc)

lemma mem_written_ids: "stored_ids mem_view (mem_written i) COLLECTION = {i}"
  by (auto simp: stored_ids_def mem_written_docs doc_id_bson_doc)

theorem bulk_write_stores_witness:
  "bulk_write (mem_driver True) [sample_event ''a''] (mem_store []) = (Inr (), mem_written ''a'') \<and>
   event_ids_of [sample_event ''a''] \<subseteq> stored_ids mem_view (mem_written ''a'') COLLECTION"
  using bulk_write_stores [OF mem_contract mem_store_inv mem_store_write [of True "''a''"], THEN conjunct2, THEN conjunct2,
      THEN conjunct2] mem_only_duplicates mem_store_write by blast

text \<open>
  C30: writes are idempotent. Rewriting events whose ids are all stored changes no collection, whatever
  the driver answers.
\<close>

theorem bulk_write_idempotent:
  assumes "mongo_contract D V" and "store_inv V s" and "event_ids_of events \<subseteq> stored_ids V s COLLECTION"
    and "bulk_write D events s = (r, s')"
  shows "store_docs V s' = store_docs V s"
proof -
  note stores = bulk_write_effect [OF assms(1,2,4)]
  note inv = stores [THEN conjunct1] and other = stores [THEN conjunct2, THEN conjunct1]
  obtain news where app: "store_docs V s' COLLECTION = store_docs V s COLLECTION @ news"
    and src: "\<forall>n \<in> set news. \<exists>e \<in> set events. stored_as (to_doc e) n"
    using stores [THEN conjunct2, THEN conjunct2, THEN conjunct1] by blast
  have "news = []"
  proof (rule ccontr)
    assume "news \<noteq> []"
    then obtain n where n: "n \<in> set news" by (cases news) auto
    with src obtain e where e: "e \<in> set events" "stored_as (to_doc e) n" by blast
    then have "doc_id n = Some (PStr (event_id e))" using stored_as_doc_id doc_id_to_doc by blast
    moreover have "Some (PStr (event_id e)) \<in> doc_id ` set (store_docs V s COLLECTION)"
      using assms(3) e by (auto simp: event_ids_of_def stored_ids_def)
    moreover have "doc_id ` set (store_docs V s COLLECTION) \<inter> doc_id ` set news = {}"
    proof -
      from inv have "distinct (map doc_id (store_docs V s' COLLECTION))" by (simp add: store_inv_def)
      then show ?thesis by (simp add: app)
    qed
    ultimately show False using n by (metis IntI empty_iff imageI)
  qed
  with app have "store_docs V s' COLLECTION = store_docs V s COLLECTION" by simp
  with other have "store_docs V s' c = store_docs V s c" for c by (cases "c = COLLECTION") simp_all
  then show ?thesis by (rule ext)
qed

theorem bulk_write_idempotent_witness:
  "store_docs mem_view (snd (bulk_write (mem_driver True) [sample_event ''a'', sample_event ''a''] (mem_written ''a''))) =
   store_docs mem_view (mem_written ''a'')"
  by (rule bulk_write_idempotent [OF mem_contract mem_written_inv _ prod.collapse [symmetric]])
    (simp add: event_ids_of_def mem_written_ids)

text \<open>A driver that keeps to its documentation may refuse a document with code 121, a failed document validation.\<close>

lemma refused_insert:
  "md_insert_many (mem_driver False) (''db'', COLLECTION) [to_doc (sample_event i)] False (mem_new [Refuse 0 121]) =
     (Inl (BulkWriteErr [(0, 121)]), mem_new [])"
  by (simp add: mem_driver_def mem_insert_def guarded_def next_fault_def mem_new_def Let_def fun_upd_idem)

lemma refused_write: "bulk_write (mem_driver False) [sample_event i] (mem_store [Refuse 0 121]) = (Inr (), mem_store [])"
  using refused_insert [of i]
  by (simp add: bulk_write_insert insert_skipping_connected [where m = "mem_new [Refuse 0 121]"] mem_store_def)

lemma mem_store_empty: "stored_ids mem_view (mem_store fs) c = {}"
  by (simp add: stored_ids_def store_docs_def mem_store_def mem_view_def mem_new_def)

end
