(* ===== verification/Dead_Letter_Queue.thy ===== *)
theory Dead_Letter_Queue
  imports Mongo_Store
begin

text \<open>
  \<open>app/queue/dlq.py\<close>: events that exhausted their retries. \<open>push_many\<close> is given as the part before its
  \<open>await\<close> (\<open>push_begin\<close>), the sink call, and the part after it (\<open>push_end\<close>), because other tasks run in
  between. The sink interface is a locale, the code's \<open>DeadLetterSink\<close> protocol with what a caller may
  rely on; the Mongo store is its implementation.
\<close>

record dlq_entry =
  de_event :: event_document
  de_reason :: string
  de_failed_at :: datetime

definition entry_id :: "dlq_entry \<Rightarrow> string" where
  "entry_id en = event_id (de_event en)"

definition entry_to_doc :: "dlq_entry \<Rightarrow> pydict" where
  "entry_to_doc en = dict_set ''_id'' (PStr (entry_id en))
     [(''event_id'', PStr (entry_id en)), (''event'', PDict (model_dump (de_event en))),
      (''reason'', PStr (de_reason en)), (''failed_at'', PDate (de_failed_at en))]"

record dlq =
  dq_unpersisted :: "dlq_entry list"
  dq_recorded :: nat

definition new_dlq :: dlq where
  "new_dlq = \<lparr>dq_unpersisted = [], dq_recorded = 0\<rparr>"

text \<open>\<open>DLQEntry(event=e, reason=reason)\<close> for each event; \<open>clock i\<close> is the time the i-th is built.\<close>

definition dlq_entries :: "(nat \<Rightarrow> datetime) \<Rightarrow> event_document list \<Rightarrow> string \<Rightarrow> dlq_entry list" where
  "dlq_entries clock events reason =
     map (\<lambda>(i, e). \<lparr>de_event = e, de_reason = reason, de_failed_at = clock i\<rparr>) (enumerate 0 events)"

definition push_begin ::
  "(nat \<Rightarrow> datetime) \<Rightarrow> event_document list \<Rightarrow> string \<Rightarrow> dlq \<Rightarrow> dlq \<times> dlq_entry list" where
  "push_begin clock events reason q =
     (let entries = dlq_entries clock events reason in
      (q\<lparr>dq_recorded := dq_recorded q + length entries\<rparr>, dq_unpersisted q @ entries))"

definition push_end :: "exn + unit \<Rightarrow> dlq_entry list \<Rightarrow> dlq \<Rightarrow> (exn + unit) \<times> dlq" where
  "push_end r pending q = (case r of
       Inr _ \<Rightarrow> (Inr (), q\<lparr>dq_unpersisted := []\<rparr>)
     | Inl e \<Rightarrow> if is_Exception e then (Inr (), q\<lparr>dq_unpersisted := pending\<rparr>) else (Inl e, q))"

definition push_many ::
  "(pydict list \<Rightarrow> ('s, unit) io) option \<Rightarrow> (nat \<Rightarrow> datetime) \<Rightarrow> event_document list \<Rightarrow> string \<Rightarrow>
   (dlq \<times> 's, unit) io" where
  "push_many sink clock events reason qs = (case qs of (q, s) \<Rightarrow>
     if events = [] then (Inr (), q, s)
     else case push_begin clock events reason q of (q1, pending) \<Rightarrow>
       (case sink of
          None \<Rightarrow> (Inr (), q1\<lparr>dq_unpersisted := pending\<rparr>, s)
        | Some persist \<Rightarrow> (case persist (map entry_to_doc pending) s of (r, s') \<Rightarrow>
            (case push_end r pending q1 of (r', q') \<Rightarrow> (r', q', s')))))"

definition push ::
  "(pydict list \<Rightarrow> ('s, unit) io) option \<Rightarrow> (nat \<Rightarrow> datetime) \<Rightarrow> event_document \<Rightarrow> string \<Rightarrow> (dlq \<times> 's, unit) io" where
  "push sink clock event reason = push_many sink clock [event] reason"

definition dlq_metrics :: "dlq \<Rightarrow> pydict" where
  "dlq_metrics q = [(''recorded'', PInt (int (dq_recorded q))), (''unpersisted'', PInt (int (length (dq_unpersisted q))))]"

section \<open>Lemmas\<close>

lemma doc_id_entry_to_doc [simp]: "doc_id (entry_to_doc en) = Some (PStr (entry_id en))"
  by (simp add: entry_to_doc_def doc_id_def)

lemma length_dlq_entries [simp]: "length (dlq_entries clock events reason) = length events"
  by (simp add: dlq_entries_def)

lemma entry_ids_dlq_entries [simp]: "map entry_id (dlq_entries clock events reason) = map event_id events"
proof -
  have "map entry_id (dlq_entries clock events reason) = map (event_id \<circ> snd) (enumerate 0 events)"
    by (simp add: dlq_entries_def entry_id_def case_prod_beta comp_def)
  then show ?thesis by (simp flip: map_map)
qed

lemma entry_ids_set [simp]: "entry_id ` set (dlq_entries clock events reason) = event_ids_of events"
  by (metis entry_ids_dlq_entries event_ids_of_def list.set_map)

definition buffered_ids :: "dlq \<Rightarrow> string set" where
  "buffered_ids q = entry_id ` set (dq_unpersisted q)"

lemma push_many_Nil [simp]: "push_many sink clock [] reason (q, s) = (Inr (), q, s)"
  by (simp add: push_many_def)

lemma push_many_sink:
  assumes "events \<noteq> []"
    and "persist (map entry_to_doc (dq_unpersisted q @ dlq_entries clock events reason)) s = (r, s')"
    and "\<forall>e. r = Inl e \<longrightarrow> is_Exception e"
  shows "push_many (Some persist) clock events reason (q, s) =
    (Inr (), q\<lparr>dq_recorded := dq_recorded q + length events,
       dq_unpersisted := (if r = Inr () then [] else dq_unpersisted q @ dlq_entries clock events reason)\<rparr>, s')"
  using assms by (cases r) (auto simp: push_many_def push_begin_def push_end_def Let_def)

section \<open>The sink interface\<close>

text \<open>
  The \<open>DeadLetterSink\<close> protocol. A context \<open>c\<close> says which sink it is and what is assumed of it (\<open>good c\<close>);
  \<open>ids c s\<close> are the ids durably recorded. The laws: recorded ids stay recorded, a call that returns has
  recorded its documents, a call that raises raises an ordinary exception.
\<close>

locale dead_letter_sink =
  fixes good :: "'c \<Rightarrow> bool" and inv :: "'c \<Rightarrow> 's \<Rightarrow> bool" and ids :: "'c \<Rightarrow> 's \<Rightarrow> string set"
    and persist :: "'c \<Rightarrow> pydict list \<Rightarrow> ('s, unit) io"
  assumes persist_inv: "good c \<Longrightarrow> inv c s \<Longrightarrow> \<forall>d \<in> set docs. \<exists>i. doc_id d = Some (PStr i) \<Longrightarrow>
      persist c docs s = (r, s') \<Longrightarrow> inv c s'"
    and persist_keeps: "good c \<Longrightarrow> inv c s \<Longrightarrow> \<forall>d \<in> set docs. \<exists>i. doc_id d = Some (PStr i) \<Longrightarrow>
      persist c docs s = (r, s') \<Longrightarrow> ids c s \<subseteq> ids c s'"
    and persist_records: "good c \<Longrightarrow> inv c s \<Longrightarrow> \<forall>d \<in> set docs. \<exists>i. doc_id d = Some (PStr i) \<Longrightarrow>
      persist c docs s = (Inr (), s') \<Longrightarrow> d \<in> set docs \<Longrightarrow> doc_id d = Some (PStr i) \<Longrightarrow> i \<in> ids c s'"
    and persist_raises: "good c \<Longrightarrow> inv c s \<Longrightarrow> \<forall>d \<in> set docs. \<exists>i. doc_id d = Some (PStr i) \<Longrightarrow>
      persist c docs s = (Inl e, s') \<Longrightarrow> is_Exception e"
begin

definition known :: "'c \<Rightarrow> dlq \<Rightarrow> 's \<Rightarrow> string set" where
  "known c q s = ids c s \<union> buffered_ids q"

lemma push_many_total:
  assumes "good c" and "inv c s" and "push_many (Some (persist c)) clock events reason (q, s) = (r, q', s')"
  shows "r = Inr ()" and "inv c s'" and "ids c s \<subseteq> ids c s'"
    and "dq_recorded q' = dq_recorded q + length events"
    and "known c q s \<union> event_ids_of events \<subseteq> known c q' s'"
    and "dq_unpersisted q' = [] \<or> dq_unpersisted q' = dq_unpersisted q @ dlq_entries clock events reason"
proof -
  let ?pend = "dq_unpersisted q @ dlq_entries clock events reason"
  have goal: "r = Inr () \<and> inv c s' \<and> ids c s \<subseteq> ids c s' \<and> dq_recorded q' = dq_recorded q + length events \<and>
     known c q s \<union> event_ids_of events \<subseteq> known c q' s' \<and> (dq_unpersisted q' = [] \<or> dq_unpersisted q' = ?pend)"
  proof (cases "events = []")
    case True
    with assms show ?thesis by (auto simp: event_ids_of_def dlq_entries_def)
  next
    case False
    obtain r0 s0 where call: "persist c (map entry_to_doc ?pend) s = (r0, s0)" by force
    have idd: "\<forall>d \<in> set (map entry_to_doc ?pend). \<exists>i. doc_id d = Some (PStr i)" by auto
    note laws = persist_inv [OF assms(1,2) idd call] persist_keeps [OF assms(1,2) idd call]
    have raises: "\<forall>e. r0 = Inl e \<longrightarrow> is_Exception e" using persist_raises [OF assms(1,2) idd] call by blast
    from push_many_sink [of events "persist c", OF False call raises] assms(3)
    have eqs: "r = Inr ()" "s' = s0" "dq_recorded q' = dq_recorded q + length events"
      "dq_unpersisted q' = (if r0 = Inr () then [] else ?pend)" by auto
    have pend: "entry_id ` set ?pend = buffered_ids q \<union> event_ids_of events"
      by (simp add: buffered_ids_def image_Un)
    have "known c q s \<union> event_ids_of events \<subseteq> known c q' s'"
    proof (cases "r0 = Inr ()")
      case True
      have "entry_id en \<in> ids c s'" if "en \<in> set ?pend" for en
        using persist_records [OF assms(1,2) idd, of s0 "entry_to_doc en"] call that True eqs by auto
      then have "buffered_ids q \<union> event_ids_of events \<subseteq> ids c s'" unfolding pend [symmetric] by blast
      with laws(2) eqs(2) show ?thesis unfolding known_def by blast
    next
      case False
      with eqs have "buffered_ids q' = buffered_ids q \<union> event_ids_of events"
        by (simp only: buffered_ids_def [of q'] pend if_False)
      with laws(2) eqs(2) show ?thesis unfolding known_def by blast
    qed
    with laws eqs show ?thesis by auto
  qed
  then show "r = Inr ()" "inv c s'" "ids c s \<subseteq> ids c s'" "dq_recorded q' = dq_recorded q + length events"
    "known c q s \<union> event_ids_of events \<subseteq> known c q' s'" "dq_unpersisted q' = [] \<or> dq_unpersisted q' = ?pend"
    by blast+
qed

end

definition sink_good :: "'m mongo_ctx \<Rightarrow> bool" where
  "sink_good c \<longleftrightarrow> mongo_contract (fst c) (snd c) \<and> only_duplicate_errors (fst c)"

definition sink_inv :: "'m mongo_ctx \<Rightarrow> 'm mongo_store \<Rightarrow> bool" where
  "sink_inv c s = store_inv (snd c) s"

definition dead_ids :: "'m mongo_ctx \<Rightarrow> 'm mongo_store \<Rightarrow> string set" where
  "dead_ids c s = stored_ids (snd c) s DEAD_LETTER"

definition mongo_persist :: "'m mongo_ctx \<Rightarrow> pydict list \<Rightarrow> ('m mongo_store, unit) io" where
  "mongo_persist c = persist_dead_letters (fst c)"

lemma persist_cases:
  assumes "persist_dead_letters D docs s = (r, s')"
  obtains "docs = []" "r = Inr ()" "s' = s" | "docs \<noteq> []" "insert_skipping D DEAD_LETTER docs s = (r, s')"
  using assms by (cases "docs = []") (auto simp: persist_insert)

lemma insert_skipping_raises:
  assumes "mongo_contract D V" and "\<forall>d \<in> set docs. \<exists>i. doc_id d = Some (PStr i)"
    and "insert_skipping D coll docs s = (Inl e, s')"
  shows "is_Exception e"
  using assms by (rule insert_skipping_effect) auto

interpretation mongo_sink: dead_letter_sink sink_good sink_inv dead_ids mongo_persist
proof
  fix c :: "'m mongo_ctx" and s s' and docs :: "pydict list" and r
  assume good: "sink_good c" and inv: "sink_inv c s" and ids: "\<forall>d \<in> set docs. \<exists>i. doc_id d = Some (PStr i)"
  from good have ct: "mongo_contract (fst c) (snd c)" and dup: "only_duplicate_errors (fst c)"
    by (simp_all add: sink_good_def)
  show "sink_inv c s'" if "mongo_persist c docs s = (r, s')"
    using that inv insert_skipping_inv [OF ct ids] unfolding mongo_persist_def sink_inv_def
    by (auto elim!: persist_cases)
  show "dead_ids c s \<subseteq> dead_ids c s'" if "mongo_persist c docs s = (r, s')"
    using that stored_ids_mono [OF ct ids] unfolding mongo_persist_def dead_ids_def
    by (blast elim: persist_cases)
  show "i \<in> dead_ids c s'"
    if "mongo_persist c docs s = (Inr (), s')" "d \<in> set docs" "doc_id d = Some (PStr i)" for d i
    using that insert_skipping_stores [OF ct dup ids] unfolding mongo_persist_def dead_ids_def
    by (auto elim!: persist_cases)
  show "is_Exception e" if "mongo_persist c docs s = (Inl e, s')" for e
    using that insert_skipping_raises [OF ct ids] unfolding mongo_persist_def
    by (auto elim!: persist_cases)
qed

section \<open>Properties\<close>

type_synonym push_call = "(nat \<Rightarrow> datetime) \<times> event_document list \<times> string"

fun push_all :: "(pydict list \<Rightarrow> ('s, unit) io) option \<Rightarrow> push_call list \<Rightarrow> dlq \<times> 's \<Rightarrow> dlq \<times> 's" where
  "push_all sink [] qs = qs"
| "push_all sink ((clock, events, reason) # ps) qs = push_all sink ps (snd (push_many sink clock events reason qs))"

definition pushed_ids :: "push_call list \<Rightarrow> string set" where
  "pushed_ids ps = (\<Union>p \<in> set ps. event_ids_of (fst (snd p)))"

lemma mongo_push_many_total:
  assumes "mongo_contract D V" and "only_duplicate_errors D" and "store_inv V s"
    and "push_many (Some (persist_dead_letters D)) clock events reason (q, s) = (r, q', s')"
  shows "r = Inr ()" and "store_inv V s'" and "dq_recorded q' = dq_recorded q + length events"
    and "stored_ids V s DEAD_LETTER \<union> buffered_ids q \<union> event_ids_of events \<subseteq> stored_ids V s' DEAD_LETTER \<union> buffered_ids q'"
proof -
  have *: "sink_good (D, V)" "sink_inv (D, V) s" "persist_dead_letters D = mongo_persist (D, V)"
    using assms by (simp_all add: sink_good_def sink_inv_def mongo_persist_def)
  from mongo_sink.push_many_total [OF *(1,2)] assms(4)
  show "r = Inr ()" "store_inv V s'" "dq_recorded q' = dq_recorded q + length events"
    "stored_ids V s DEAD_LETTER \<union> buffered_ids q \<union> event_ids_of events \<subseteq> stored_ids V s' DEAD_LETTER \<union> buffered_ids q'"
    unfolding *(3) mongo_sink.known_def dead_ids_def sink_inv_def by (metis snd_conv)+
qed

text \<open>
  C13: pushed one after the other, dead letters are never lost while the process runs. After any sequence of
  \<open>push_many\<close> calls, whichever of them found Mongo down, every event pushed is recorded in the dead-letter
  collection or buffered in memory, and \<open>recorded\<close> counts all of them.
\<close>

theorem dlq_keeps_every_event:
  assumes "mongo_contract D V" and "only_duplicate_errors D" and "store_inv V s"
    and "push_all (Some (persist_dead_letters D)) ps (q, s) = (q', s')"
  shows "pushed_ids ps \<union> buffered_ids q \<subseteq> stored_ids V s' DEAD_LETTER \<union> buffered_ids q' \<and>
    dq_recorded q' = dq_recorded q + (\<Sum>p \<leftarrow> ps. length (fst (snd p)))"
proof -
  have "pushed_ids ps \<union> stored_ids V s DEAD_LETTER \<union> buffered_ids q \<subseteq> stored_ids V s' DEAD_LETTER \<union> buffered_ids q' \<and>
    dq_recorded q' = dq_recorded q + (\<Sum>p \<leftarrow> ps. length (fst (snd p)))"
    using assms(3,4)
  proof (induction ps arbitrary: q s)
    case (Cons p ps)
    obtain clock events reason where p: "p = (clock, events, reason)" by (cases p)
    obtain r q1 s1 where call: "push_many (Some (persist_dead_letters D)) clock events reason (q, s) = (r, q1, s1)"
      by (metis prod.exhaust)
    note step = mongo_push_many_total [OF assms(1,2) Cons.prems(1) call]
    from Cons.prems(2) have "push_all (Some (persist_dead_letters D)) ps (q1, s1) = (q', s')"
      by (simp add: p call)
    from Cons.IH [OF step(2) this] step(3,4) show ?case by (auto simp: p pushed_ids_def)
  qed (auto simp: pushed_ids_def)
  then show ?thesis by blast
qed

definition down_then_up :: "(dlq \<times> mem mongo_store)" where
  "down_then_up = push_all (Some (persist_dead_letters (mem_driver True)))
     [(\<lambda>_. utc_datetime 0, [sample_event ''a''], ''down''), (\<lambda>_. utc_datetime 0, [sample_event ''b''], ''up'')]
     (new_dlq, mem_store [Fail (PyMongoErr ''down'')])"

theorem dlq_keeps_every_event_witness:
  "{''a'', ''b''} \<subseteq> stored_ids mem_view (snd down_then_up) DEAD_LETTER \<union> buffered_ids (fst down_then_up) \<and>
   dq_recorded (fst down_then_up) = 2"
  using dlq_keeps_every_event [OF mem_contract mem_only_duplicates mem_store_inv
      prod.collapse [symmetric, of down_then_up, unfolded down_then_up_def]]
  by (simp add: pushed_ids_def event_ids_of_def new_dlq_def buffered_ids_def down_then_up_def)

text \<open>
  C39: two overlapping pushes lose events. Task A takes its snapshot of the buffer and awaits the sink; task B
  does the same, Mongo refuses B's call and B buffers its entry; then A's call succeeds and A empties the
  buffer. B's event was counted, but it is neither in the dead-letter collection nor in memory.
\<close>

theorem dlq_overlapping_pushes_lose:
  "\<exists>(D :: mem mongo_driver) V s s1 s2 q1 pA q2 pB q3 q4.
     mongo_contract D V \<and> only_duplicate_errors D \<and> store_inv V s \<and>
     push_begin clk [sample_event ''a''] why new_dlq = (q1, pA) \<and>
     push_begin clk [sample_event ''b''] why q1 = (q2, pB) \<and>
     persist_dead_letters D (map entry_to_doc pB) s = (Inl (PyMongoErr ''down''), s1) \<and>
     push_end (Inl (PyMongoErr ''down'')) pB q2 = (Inr (), q3) \<and>
     persist_dead_letters D (map entry_to_doc pA) s1 = (Inr (), s2) \<and>
     push_end (Inr ()) pA q3 = (Inr (), q4) \<and>
     dq_recorded q4 = 2 \<and> ''b'' \<notin> stored_ids V s2 DEAD_LETTER \<union> buffered_ids q4"
proof -
  let ?D = "mem_driver True" and ?s = "mem_store [Fail (PyMongoErr ''down'')]"
  let ?a = "\<lparr>de_event = sample_event ''a'', de_reason = why, de_failed_at = clk 0\<rparr>"
    and ?b = "\<lparr>de_event = sample_event ''b'', de_reason = why, de_failed_at = clk 0\<rparr>"
  let ?w = "(mem_new [])\<lparr>mm_docs := (\<lambda>_. [])((''db'', DEAD_LETTER) := [bson_doc (entry_to_doc ?a)])\<rparr>"
  have ins_b: "md_insert_many ?D (''db'', DEAD_LETTER) [entry_to_doc ?b] False (mem_new [Fail (PyMongoErr ''down'')]) =
      (Inl (PyMongoErr ''down''), mem_new [])"
    by (simp add: mem_driver_def mem_insert_def guarded_def next_fault_def mem_new_def)
  have "list_all (\<lambda>kv. bson_ok (snd kv)) (entry_to_doc ?a)"
    by (simp add: entry_to_doc_def model_dump_def dump_create_def sample_event_def sample_create_def)
  then have ins_a: "md_insert_many ?D (''db'', DEAD_LETTER) [entry_to_doc ?a] False (mem_new []) = (Inr (), ?w)"
    by (simp add: mem_driver_def mem_insert_def guarded_def next_fault_def mem_new_def Let_def)
  have "persist_dead_letters ?D [entry_to_doc ?b] ?s = (Inl (PyMongoErr ''down''), mem_store [])"
    using ins_b by (simp add: persist_insert insert_skipping_connected [where m = "mem_new [Fail (PyMongoErr ''down'')]"] mem_store_def)
  moreover have "persist_dead_letters ?D [entry_to_doc ?a] (mem_store []) = (Inr (), (mem_store [])\<lparr>ms_client := Some ?w\<rparr>)"
    using ins_a by (simp add: persist_insert insert_skipping_connected [where m = "mem_new []"] mem_store_def)
  moreover have "''b'' \<notin> stored_ids mem_view ((mem_store [])\<lparr>ms_client := Some ?w\<rparr>) DEAD_LETTER"
    by (simp add: stored_ids_def store_docs_def mem_store_def mem_view_def doc_id_bson_doc entry_id_def)
  ultimately show ?thesis
    using mem_contract mem_only_duplicates mem_store_inv
    by (intro exI [of _ ?D] exI [of _ mem_view] exI [of _ ?s] exI [of _ "mem_store []"]
        exI [of _ "(mem_store [])\<lparr>ms_client := Some ?w\<rparr>"])
      (simp add: push_begin_def push_end_def new_dlq_def dlq_entries_def buffered_ids_def)
qed

text \<open>A request with a document BSON cannot encode never succeeds.\<close>

lemma persist_unencodable:
  assumes "mongo_contract D V" and ids: "\<forall>d \<in> set docs. \<exists>i. doc_id d = Some (PStr i)"
    and "d \<in> set docs" and "\<not> bson_ok (PDict d)" and "persist_dead_letters D docs s = (r, s')"
  shows "\<exists>e. r = Inl e \<and> is_Exception e"
proof -
  from assms(3,5) have "insert_skipping D DEAD_LETTER docs s = (r, s')" by (auto elim: persist_cases)
  with assms(1) ids show ?thesis
  proof (rule insert_skipping_effect)
    fix r0
    assume oc: "insert_outcome (store_docs V s DEAD_LETTER) docs (store_docs V s' DEAD_LETTER) r0"
      and r0: "r0 = r \<and> (\<forall>errs. r \<noteq> Inl (BulkWriteErr errs)) \<or> r = Inr () \<and> (\<exists>errs. r0 = Inl (BulkWriteErr errs) \<and>
         (only_duplicate_errors D \<longrightarrow> (\<forall>(i, c) \<in> set errs. c = 11000)))"
      and exn: "\<forall>e. r = Inl e \<longrightarrow> is_Exception e"
    from oc assms(3,4) obtain e where "r0 = Inl e" "\<forall>errs. e \<noteq> BulkWriteErr errs"
      unfolding insert_outcome_def by blast
    with r0 exn show ?thesis by auto
  qed auto
qed

text \<open>
  C40: one unencodable dead letter blocks the durable store for good. JSON integers are unbounded, BSON's
  have 64 bits: an event whose metadata holds a wider one cannot be written anywhere in Mongo. Once such an
  entry is in the buffer, every later \<open>push_many\<close> fails with it, whatever the state of Mongo, so the
  buffer only grows: it holds all entries since, and none is flushed.
\<close>

theorem dlq_poison_entry:
  assumes "mongo_contract D V" and "en \<in> set (dq_unpersisted q)" and "\<not> bson_ok (PDict (entry_to_doc en))"
    and "push_all (Some (persist_dead_letters D)) ps (q, s) = (q', s')"
  shows "dq_unpersisted q' = dq_unpersisted q @
    concat (map (\<lambda>(clock, events, reason). dlq_entries clock events reason) ps)"
  using assms(2,4)
proof (induction ps arbitrary: q s)
  case (Cons p ps)
  obtain clock events reason where p: "p = (clock, events, reason)" by (cases p)
  show ?case
  proof (cases "events = []")
    case True
    with Cons.prems have "push_all (Some (persist_dead_letters D)) ps (q, s) = (q', s')" by (simp add: p)
    from Cons.IH [OF Cons.prems(1) this] True show ?thesis by (simp add: p dlq_entries_def)
  next
    case False
    let ?pend = "dq_unpersisted q @ dlq_entries clock events reason"
    obtain r s1 where call: "persist_dead_letters D (map entry_to_doc ?pend) s = (r, s1)" by force
    have "\<exists>e. r = Inl e \<and> is_Exception e"
      by (rule persist_unencodable [OF assms(1) _ _ assms(3) call]) (use Cons.prems(1) in auto)
    then have "push_many (Some (persist_dead_letters D)) clock events reason (q, s) =
        (Inr (), q\<lparr>dq_recorded := dq_recorded q + length events, dq_unpersisted := ?pend\<rparr>, s1)"
      using push_many_sink [of events "persist_dead_letters D", OF False call] by auto
    with Cons.prems(2) have "push_all (Some (persist_dead_letters D)) ps
        (q\<lparr>dq_recorded := dq_recorded q + length events, dq_unpersisted := ?pend\<rparr>, s1) = (q', s')"
      by (simp add: p)
    from Cons.IH [OF _ this] Cons.prems(1) show ?thesis by (simp add: p)
  qed
qed simp

definition poison_event :: "string \<Rightarrow> event_document" where
  "poison_event i = (sample_event i)\<lparr>metadata := [(''n'', PInt (2 ^ 64))]\<rparr>"

definition poison_entry :: dlq_entry where
  "poison_entry = \<lparr>de_event = poison_event ''p'', de_reason = ''overflow'', de_failed_at = utc_datetime 0\<rparr>"

lemma poison_entry_unencodable: "\<not> bson_ok (PDict (entry_to_doc poison_entry))"
  by (simp add: entry_to_doc_def poison_entry_def poison_event_def model_dump_def dump_create_def)

theorem dlq_poison_entry_witness:
  "dq_unpersisted (fst (push_all (Some (persist_dead_letters (mem_driver True)))
      [(\<lambda>_. utc_datetime 0, [sample_event ''a''], ''late'')] (\<lparr>dq_unpersisted = [poison_entry], dq_recorded = 1\<rparr>, mem_store []))) =
   [poison_entry, \<lparr>de_event = sample_event ''a'', de_reason = ''late'', de_failed_at = utc_datetime 0\<rparr>]"
  by (subst dlq_poison_entry [OF mem_contract _ poison_entry_unencodable prod.collapse [symmetric]])
    (simp_all add: dlq_entries_def)

end
