(* ===== verification/Event_Queue.thy ===== *)
theory Event_Queue
  imports Acheron_Prelude
begin

text \<open>
  \<open>app/queue/event_queue.py\<close>: the bounded \<open>asyncio.Queue\<close> wrapper. The record is the state of the
  \<open>asyncio.Queue\<close> the wrapper holds: the deque, \<open>maxsize\<close> (a queue with \<open>maxsize <= 0\<close> is unbounded) and the
  counter of unfinished tasks behind \<open>task_done()\<close> and \<open>join()\<close>.
\<close>

record 'a event_queue =
  q_items :: "'a list"
  q_maxsize :: int
  q_unfinished :: nat

definition new_queue :: "int \<Rightarrow> 'a event_queue" where
  "new_queue max_size = \<lparr>q_items = [], q_maxsize = max_size, q_unfinished = 0\<rparr>"

definition qsize :: "'a event_queue \<Rightarrow> nat" where
  "qsize q = length (q_items q)"

definition maxsize :: "'a event_queue \<Rightarrow> int" where
  "maxsize q = q_maxsize q"

definition empty :: "'a event_queue \<Rightarrow> bool" where
  "empty q = (q_items q = [])"

definition full :: "'a event_queue \<Rightarrow> bool" where
  "full q = (if q_maxsize q \<le> 0 then False else q_maxsize q \<le> int (qsize q))"

definition put_nowait :: "'a \<Rightarrow> ('a event_queue, unit) io" where
  "put_nowait x q =
     (if full q then (Inl QueueFull, q)
      else (Inr (), q\<lparr>q_items := q_items q @ [x], q_unfinished := Suc (q_unfinished q)\<rparr>))"

definition get_nowait :: "('a event_queue, 'a) io" where
  "get_nowait q =
     (case q_items q of [] \<Rightarrow> (Inl QueueEmpty, q) | x # xs \<Rightarrow> (Inr x, q\<lparr>q_items := xs\<rparr>))"

text \<open>\<open>await get()\<close>: \<open>None\<close> while the caller has to wait.\<close>

definition get :: "'a event_queue \<Rightarrow> ('a \<times> 'a event_queue) option" where
  "get q = (case get_nowait q of (Inl _, _) \<Rightarrow> None | (Inr x, q') \<Rightarrow> Some (x, q'))"

definition task_done :: "('a event_queue, unit) io" where
  "task_done q =
     (if q_unfinished q = 0 then (Inl ValueErr, q) else (Inr (), q\<lparr>q_unfinished := q_unfinished q - 1\<rparr>))"

text \<open>\<open>await join()\<close> returns once no task is unfinished.\<close>

definition join_ready :: "'a event_queue \<Rightarrow> bool" where
  "join_ready q \<longleftrightarrow> q_unfinished q = 0"

section \<open>Invariant\<close>

text \<open>
  The buffer never exceeds a positive capacity, and every buffered element is an unfinished task.
\<close>

definition queue_inv :: "'a event_queue \<Rightarrow> bool" where
  "queue_inv q \<longleftrightarrow> (0 < q_maxsize q \<longrightarrow> int (length (q_items q)) \<le> q_maxsize q) \<and>
     length (q_items q) \<le> q_unfinished q"

lemma new_queue_inv [inv_intro]: "queue_inv (new_queue n)"
  by (simp add: queue_inv_def new_queue_def)

lemma put_nowait_inv [inv_intro]: "queue_inv q \<Longrightarrow> queue_inv (snd (put_nowait x q))"
  by (auto simp: queue_inv_def put_nowait_def full_def qsize_def)

lemma get_nowait_inv [inv_intro]: "queue_inv q \<Longrightarrow> queue_inv (snd (get_nowait q))"
  by (auto simp: queue_inv_def get_nowait_def split: list.split)

lemma put_nowait_cases:
  obtains (full) "full q" "put_nowait x q = (Inl QueueFull, q)"
    | (room) "\<not> full q"
        "put_nowait x q = (Inr (), q\<lparr>q_items := q_items q @ [x], q_unfinished := Suc (q_unfinished q)\<rparr>)"
  by (auto simp: put_nowait_def)

lemma put_nowait_maxsize [simp]: "q_maxsize (snd (put_nowait x q)) = q_maxsize q"
  by (simp add: put_nowait_def)

section \<open>The buffer interface\<close>

text \<open>
  What producers and consumers rely on: a FIFO buffer with an optional capacity. The laws are proved
  for the event queue below; the client lemmas (a burst of offers, draining everything) once, here.
\<close>

fun offer_all :: "('a \<Rightarrow> ('q, unit) io) \<Rightarrow> 'a list \<Rightarrow> 'q \<Rightarrow> 'q" where
  "offer_all put [] q = q"
| "offer_all put (x # xs) q = offer_all put xs (snd (put x q))"

fun take_n :: "('q, 'a) io \<Rightarrow> nat \<Rightarrow> 'q \<Rightarrow> 'a list \<times> 'q" where
  "take_n tk 0 q = ([], q)"
| "take_n tk (Suc n) q = (case tk q of (Inl _, q') \<Rightarrow> ([], q')
     | (Inr x, q') \<Rightarrow> (case take_n tk n q' of (ys, q'') \<Rightarrow> (x # ys, q'')))"

locale fifo_buffer =
  fixes put :: "'a \<Rightarrow> ('q, unit) io"
    and take1 :: "('q, 'a) io"
    and contents :: "'q \<Rightarrow> 'a list"
    and capacity :: "'q \<Rightarrow> nat option"
  assumes put_full: "capacity q = Some n \<Longrightarrow> n \<le> length (contents q) \<Longrightarrow> put x q = (Inl QueueFull, q)"
    and put_room: "(\<forall>n. capacity q = Some n \<longrightarrow> length (contents q) < n) \<Longrightarrow>
      fst (put x q) = Inr () \<and> contents (snd (put x q)) = contents q @ [x] \<and>
      capacity (snd (put x q)) = capacity q"
    and take_empty: "contents q = [] \<Longrightarrow> take1 q = (Inl QueueEmpty, q)"
    and take_head: "contents q = y # ys \<Longrightarrow>
      fst (take1 q) = Inr y \<and> contents (snd (take1 q)) = ys \<and> capacity (snd (take1 q)) = capacity q"
begin

lemma put_contents:
  "contents (snd (put x q)) = (case capacity q of None \<Rightarrow> contents q @ [x]
     | Some n \<Rightarrow> if length (contents q) < n then contents q @ [x] else contents q)"
  and put_capacity: "capacity (snd (put x q)) = capacity q"
  using put_full [of q _ x] put_room [of q x]
  by (auto split: option.splits) (metis not_less snd_conv option.inject)+

lemma offer_all_contents:
  "contents (offer_all put xs q) = contents q @ (case capacity q of None \<Rightarrow> xs
     | Some n \<Rightarrow> take (n - length (contents q)) xs)"
proof (induction xs arbitrary: q)
  case (Cons x xs)
  then show ?case
    by (auto simp: put_contents put_capacity take_Cons' split: option.splits)
qed (simp split: option.split)

lemma offer_all_capacity [simp]: "capacity (offer_all put xs q) = capacity q"
  by (induction xs arbitrary: q) (simp_all add: put_capacity)

lemma take_n_contents:
  "fst (take_n take1 n q) = take n (contents q)"
  "contents (snd (take_n take1 n q)) = drop n (contents q)"
proof (induction n arbitrary: q)
  case (Suc n)
  {
    case 1
    show ?case
    proof (cases "contents q")
      case (Cons y ys)
      with take_head [OF this] Suc(1) [of "snd (take1 q)"] show ?thesis
        by (cases "take1 q") (auto split: prod.splits)
    qed (simp add: take_empty)
  next
    case 2
    show ?case
    proof (cases "contents q")
      case (Cons y ys)
      with take_head [OF this] Suc(2) [of "snd (take1 q)"] show ?thesis
        by (cases "take1 q") (auto split: prod.splits)
    qed (simp add: take_empty)
  }
qed simp_all

lemma burst_then_drain:
  assumes "contents q = []" and "capacity q = Some n"
  shows "fst (take_n take1 (length xs) (offer_all put xs q)) = take n xs"
  using assms by (cases "length xs \<le> n") (simp_all add: take_n_contents offer_all_contents)

end

definition queue_capacity :: "'a event_queue \<Rightarrow> nat option" where
  "queue_capacity q = (if q_maxsize q \<le> 0 then None else Some (nat (q_maxsize q)))"

interpretation eq: fifo_buffer put_nowait get_nowait q_items queue_capacity
  by unfold_locales
    (auto simp: put_nowait_def get_nowait_def queue_capacity_def full_def qsize_def split: if_splits)

section \<open>Properties\<close>

text \<open>
  C26: backpressure is exact and the queue is FIFO. However many events are offered to a fresh queue of
  capacity \<open>n > 0\<close>, exactly the first \<open>n\<close> are buffered (every later offer raises \<open>QueueFull\<close> and leaves
  the queue as it is), the invariant holds, and the consumers then receive exactly these, in order.
\<close>

theorem queue_backpressure_fifo:
  assumes "0 < n"
  shows "q_items (offer_all put_nowait xs (new_queue n)) = take (nat n) xs \<and>
     fst (take_n get_nowait (length xs) (offer_all put_nowait xs (new_queue n))) = take (nat n) xs \<and>
     queue_inv (offer_all put_nowait xs (new_queue n)) \<and>
     (nat n \<le> length xs \<longrightarrow>
        put_nowait x (offer_all put_nowait xs (new_queue n)) =
          (Inl QueueFull, offer_all put_nowait xs (new_queue n)))"
proof -
  let ?q = "offer_all put_nowait xs (new_queue n)"
  have cap: "queue_capacity (new_queue n) = Some (nat n)" and mt: "q_items (new_queue n) = []"
    using assms by (simp_all add: queue_capacity_def new_queue_def)
  have items: "q_items ?q = take (nat n) xs" by (simp add: eq.offer_all_contents cap mt)
  moreover have "queue_inv (offer_all put_nowait ys q)" if "queue_inv q" for ys and q :: "'a event_queue"
    using that by (induction ys arbitrary: q) (simp_all add: put_nowait_inv)
  moreover have "put_nowait x ?q = (Inl QueueFull, ?q)" if "nat n \<le> length xs"
    using that items by (intro eq.put_full [of ?q "nat n"]) (simp_all add: cap)
  ultimately show ?thesis using eq.burst_then_drain [OF mt cap] new_queue_inv by blast
qed

theorem queue_backpressure_fifo_witness:
  "q_items (offer_all put_nowait [1, 2, 3::nat] (new_queue 2)) = [1, 2] \<and>
   put_nowait 9 (offer_all put_nowait [1, 2, 3::nat] (new_queue 2)) =
     (Inl QueueFull, offer_all put_nowait [1, 2, 3] (new_queue 2))"
  using queue_backpressure_fifo [of 2 "[1, 2, 3::nat]" 9] by simp

end
