(* ===== verification/Worker_Pool.thy ===== *)
theory Worker_Pool
  imports Complex_Main Dead_Letter_Queue Event_Queue
begin

text \<open>
  \<open>app/worker/consumer.py\<close>: a consumer's batch (\<open>_consume\<close>), its Mongo write with retries and backoff
  (\<open>_process_batch\<close>) and the pool's counters. The store's \<open>bulk_write\<close>, the dead-letter sink, the clock,
  \<open>str(exc)\<close> and the random fractions behind \<open>random.uniform\<close> are parameters; \<open>wp_sleeps\<close> records the
  arguments of \<open>asyncio.sleep\<close>. Interleaving with other tasks and cancellation are in \<open>Pipeline\<close>.
\<close>

record worker_pool =
  wp_batch_size :: int
  wp_max_retries :: int
  wp_base_delay :: rat
  wp_stop_event :: bool
  wp_events_processed :: nat
  wp_batches_processed :: nat
  wp_retries :: nat
  wp_sleeps :: "rat list"

definition new_worker_pool :: "int \<Rightarrow> int \<Rightarrow> rat \<Rightarrow> worker_pool" where
  "new_worker_pool batch_size max_retries base_delay =
     \<lparr>wp_batch_size = batch_size, wp_max_retries = max_retries, wp_base_delay = base_delay, wp_stop_event = False,
      wp_events_processed = 0, wp_batches_processed = 0, wp_retries = 0, wp_sleeps = []\<rparr>"

definition worker_metrics :: "worker_pool \<Rightarrow> pydict" where
  "worker_metrics wp = [(''events_processed'', PInt (int (wp_events_processed wp))),
     (''batches_processed'', PInt (int (wp_batches_processed wp))), (''retries'', PInt (int (wp_retries wp)))]"

text \<open>\<open>random.uniform(0, b)\<close> for a random fraction \<open>f\<close>, and the delay of an attempt.\<close>

definition uniform0 :: "rat \<Rightarrow> rat \<Rightarrow> rat" where
  "uniform0 f b = f * b"

definition backoff_delay :: "rat \<Rightarrow> worker_pool \<Rightarrow> nat \<Rightarrow> rat" where
  "backoff_delay f wp attempt = uniform0 f (wp_base_delay wp * 2 ^ attempt)"

definition note_retry :: "rat \<Rightarrow> nat \<Rightarrow> worker_pool \<Rightarrow> worker_pool" where
  "note_retry f attempt wp =
     wp\<lparr>wp_retries := Suc (wp_retries wp), wp_sleeps := wp_sleeps wp @ [backoff_delay f wp attempt]\<rparr>"

definition note_success :: "nat \<Rightarrow> worker_pool \<Rightarrow> worker_pool" where
  "note_success n wp = wp\<lparr>wp_batches_processed := Suc (wp_batches_processed wp),
     wp_events_processed := wp_events_processed wp + n\<rparr>"

section \<open>The retry loop\<close>

text \<open>
  \<open>for attempt in ...\<close> over the remaining attempts; the result is \<open>last_exc\<close> after the loop.
  \<open>math.pow(2, attempt)\<close> raises \<open>OverflowError\<close> from \<open>attempt = 1024\<close> on, after the retry was counted.
\<close>

fun write_attempts ::
  "('s, unit) io \<Rightarrow> (nat \<Rightarrow> rat) \<Rightarrow> nat list \<Rightarrow> exn option \<Rightarrow> (worker_pool \<times> 's, exn option) io" where
  "write_attempts wr rnd [] last_exc ws = (Inr last_exc, ws)"
| "write_attempts wr rnd (a # as) last_exc (wp, s) =
     (case wr s of
        (Inr _, s') \<Rightarrow> (Inr None, wp, s')
      | (Inl e, s') \<Rightarrow>
          if \<not> is_Exception e then (Inl e, wp, s')
          else if int a = wp_max_retries wp then (Inr (Some e), wp, s')
          else if 1024 \<le> a then (Inl OverflowErr, wp\<lparr>wp_retries := Suc (wp_retries wp)\<rparr>, s')
          else write_attempts wr rnd as (Some e) (note_retry (rnd a) a wp, s'))"

definition attempt_range :: "worker_pool \<Rightarrow> nat list" where
  "attempt_range wp = [0..<nat (wp_max_retries wp + 1)]"

definition process_batch ::
  "(event_document list \<Rightarrow> ('s, unit) io) \<Rightarrow> (pydict list \<Rightarrow> ('s, unit) io) option \<Rightarrow> (exn \<Rightarrow> string) \<Rightarrow>
   (nat \<Rightarrow> datetime) \<Rightarrow> (nat \<Rightarrow> rat) \<Rightarrow> event_document list \<Rightarrow> (worker_pool \<times> dlq \<times> 's, unit) io" where
  "process_batch bulk_wr sink exn_str clock rnd batch st = (case st of (wp, q, s) \<Rightarrow>
     (case write_attempts (bulk_wr batch) rnd (attempt_range wp) None (wp, s) of
        (Inl e, wp', s') \<Rightarrow> (Inl e, wp', q, s')
      | (Inr (Some e), wp', s') \<Rightarrow>
          (case push_many sink clock batch (exn_str e) (q, s') of (r, q', s'') \<Rightarrow> (r, wp', q', s''))
      | (Inr None, wp', s') \<Rightarrow> (Inr (), note_success (length batch) wp', q, s')))"

section \<open>Collecting a batch\<close>

text \<open>\<open>while len(batch) < batch_size\<close>: take what is buffered without waiting.\<close>

function gather :: "int \<Rightarrow> 'a list \<Rightarrow> 'a event_queue \<Rightarrow> 'a list \<times> 'a event_queue" where
  "gather bs batch q =
     (if int (length batch) < bs
      then (case get_nowait q of (Inl _, q') \<Rightarrow> (batch, q') | (Inr x, q') \<Rightarrow> gather bs (batch @ [x]) q')
      else (batch, q))"
  by pat_completeness auto
termination
  by (relation "measure (\<lambda>(bs, batch, q). length (q_items q))") (auto simp: get_nowait_def split: list.splits)

declare gather.simps [simp del]

lemma gather_eq:
  "gather bs batch q = (batch @ take (nat (bs - int (length batch))) (q_items q),
     q\<lparr>q_items := drop (nat (bs - int (length batch))) (q_items q)\<rparr>)"
proof (induction bs batch q rule: gather.induct)
  case (1 bs batch q)
  show ?case
  proof (cases "int (length batch) < bs")
    case False
    then show ?thesis by (simp add: gather.simps [of bs batch q])
  next
    case True
    then obtain k where k: "nat (bs - int (length batch)) = Suc k" by (cases "nat (bs - int (length batch))") auto
    then have k': "nat (bs - int (length (batch @ [x]))) = k" for x :: 'a by simp
    show ?thesis
    proof (cases "q_items q")
      case Nil
      with True show ?thesis by (simp add: gather.simps [of bs batch q] get_nowait_def)
    next
      case (Cons x xs)
      then have gn: "get_nowait q = (Inr x, q\<lparr>q_items := xs\<rparr>)" by (simp add: get_nowait_def)
      from "1.IH" [OF True gn [symmetric] refl] True gn k k' [of x] Cons show ?thesis
        by (simp add: gather.simps [of bs batch q])
    qed
  qed
qed

text \<open>\<open>for _ in batch: task_done()\<close>.\<close>

fun tasks_done :: "'a list \<Rightarrow> 'a event_queue \<Rightarrow> (exn + unit) \<times> 'a event_queue" where
  "tasks_done [] q = (Inr (), q)"
| "tasks_done (_ # xs) q = (case task_done q of (Inl e, q') \<Rightarrow> (Inl e, q') | (Inr _, q') \<Rightarrow> tasks_done xs q')"

lemma tasks_done_eq:
  "length xs \<le> q_unfinished q \<Longrightarrow> tasks_done xs q = (Inr (), q\<lparr>q_unfinished := q_unfinished q - length xs\<rparr>)"
  by (induction xs arbitrary: q) (auto simp: task_done_def)

text \<open>
  One turn of \<open>_consume\<close>: waiting for an event timed out (exit once the pool is stopped), or a batch is
  collected, processed and acknowledged, also when processing raises.
\<close>

datatype turn = Waited | Exited | Processed | Raised exn

definition consume_turn ::
  "(event_document list \<Rightarrow> ('s, unit) io) \<Rightarrow> (pydict list \<Rightarrow> ('s, unit) io) option \<Rightarrow> (exn \<Rightarrow> string) \<Rightarrow>
   (nat \<Rightarrow> datetime) \<Rightarrow> (nat \<Rightarrow> rat) \<Rightarrow> event_document event_queue \<times> worker_pool \<times> dlq \<times> 's \<Rightarrow>
   turn \<times> event_document event_queue \<times> worker_pool \<times> dlq \<times> 's" where
  "consume_turn bulk_wr sink exn_str clock rnd st = (case st of (evq, wp, q, s) \<Rightarrow>
     (case get evq of
        None \<Rightarrow> (if wp_stop_event wp then Exited else Waited, evq, wp, q, s)
      | Some (fst_ev, evq1) \<Rightarrow>
          (case gather (wp_batch_size wp) [fst_ev] evq1 of (batch, evq2) \<Rightarrow>
             (case process_batch bulk_wr sink exn_str clock rnd batch (wp, q, s) of (r, wp', q', s') \<Rightarrow>
                (case tasks_done batch evq2 of
                   (Inl e, evq3) \<Rightarrow> (Raised e, evq3, wp', q', s')
                 | (Inr _, evq3) \<Rightarrow> (case r of Inl e \<Rightarrow> Raised e | Inr _ \<Rightarrow> Processed, evq3, wp', q', s'))))))"

section \<open>The retry loop, characterised\<close>

text \<open>The result and the state of the n-th of successive writes.\<close>

fun nth_write :: "('s, unit) io \<Rightarrow> nat \<Rightarrow> 's \<Rightarrow> (exn + unit) \<times> 's" where
  "nth_write wr 0 s = wr s"
| "nth_write wr (Suc n) s = nth_write wr n (snd (wr s))"

definition fails :: "('s, unit) io \<Rightarrow> nat \<Rightarrow> 's \<Rightarrow> bool" where
  "fails wr n s \<longleftrightarrow> (\<exists>e. fst (nth_write wr n s) = Inl e)"

fun retries_from :: "(nat \<Rightarrow> rat) \<Rightarrow> nat \<Rightarrow> nat \<Rightarrow> worker_pool \<Rightarrow> worker_pool" where
  "retries_from rnd a 0 wp = wp"
| "retries_from rnd a (Suc k) wp = retries_from rnd (Suc a) k (note_retry (rnd a) a wp)"

lemma note_retry_fields [simp]:
  "wp_max_retries (note_retry f a wp) = wp_max_retries wp" "wp_base_delay (note_retry f a wp) = wp_base_delay wp"
  "wp_retries (note_retry f a wp) = Suc (wp_retries wp)" "wp_batch_size (note_retry f a wp) = wp_batch_size wp"
  "wp_events_processed (note_retry f a wp) = wp_events_processed wp"
  "wp_batches_processed (note_retry f a wp) = wp_batches_processed wp"
  "wp_stop_event (note_retry f a wp) = wp_stop_event wp"
  "wp_sleeps (note_retry f a wp) = wp_sleeps wp @ [f * (wp_base_delay wp * 2 ^ a)]"
  by (simp_all add: note_retry_def backoff_delay_def uniform0_def)

lemma retries_from_fields [simp]:
  "wp_max_retries (retries_from rnd a k wp) = wp_max_retries wp"
  "wp_base_delay (retries_from rnd a k wp) = wp_base_delay wp"
  "wp_retries (retries_from rnd a k wp) = wp_retries wp + k"
  "wp_events_processed (retries_from rnd a k wp) = wp_events_processed wp"
  "wp_batches_processed (retries_from rnd a k wp) = wp_batches_processed wp"
  "wp_sleeps (retries_from rnd a k wp) = wp_sleeps wp @ map (\<lambda>i. rnd i * (wp_base_delay wp * 2 ^ i)) [a..<a + k]"
  by (induction k arbitrary: a wp) (simp_all add: upt_rec)

lemma write_attempts_spec:
  assumes "\<And>s e s'. wr s = (Inl e, s') \<Longrightarrow> is_Exception e" and "wp_max_retries wp = int (a + n)" and "a + n \<le> 1024"
  shows "(\<exists>k \<le> n. (\<forall>i < k. fails wr i s) \<and> \<not> fails wr k s \<and>
      write_attempts wr rnd [a..<Suc (a + n)] last_exc (wp, s) = (Inr None, retries_from rnd a k wp, snd (nth_write wr k s))) \<or>
    (\<exists>e. (\<forall>i \<le> n. fails wr i s) \<and> fst (nth_write wr n s) = Inl e \<and>
      write_attempts wr rnd [a..<Suc (a + n)] last_exc (wp, s) = (Inr (Some e), retries_from rnd a n wp, snd (nth_write wr n s)))"
  using assms(2,3)
proof (induction n arbitrary: a wp s last_exc)
  case 0
  then show ?case
    using assms(1) by (cases "wr s"; cases "fst (wr s)") (auto simp: fails_def)
next
  case (Suc n)
  have upt: "[a..<Suc (a + Suc n)] = a # [Suc a..<Suc (Suc a + n)]" by (simp add: upt_rec)
  show ?case
  proof (cases "wr s")
    case (Pair r s1)
    show ?thesis
    proof (cases r)
      case (Inr u)
      with Pair show ?thesis unfolding upt by (intro disjI1 exI [of _ 0]) (simp add: fails_def)
    next
      case (Inl e)
      have ne: "int a \<noteq> wp_max_retries wp" "\<not> 1024 \<le> a" using Suc.prems by (simp, linarith)
      have step: "write_attempts wr rnd [a..<Suc (a + Suc n)] last_exc (wp, s) =
          write_attempts wr rnd [Suc a..<Suc (Suc a + n)] (Some e) (note_retry (rnd a) a wp, s1)"
        unfolding upt using Pair Inl assms(1) [of s e s1] ne by simp
      have f: "fails wr 0 s" "\<And>i. fails wr (Suc i) s = fails wr i s1" using Pair Inl by (auto simp: fails_def)
      have split: "(\<forall>i < Suc k. fails wr i s) = (\<forall>i < k. fails wr i s1)" for k
        using f less_Suc_eq_0_disj by auto
      have "wp_max_retries (note_retry (rnd a) a wp) = int (Suc a + n)" "Suc a + n \<le> 1024" using Suc.prems by simp_all
      from Suc.IH [OF this, of s1 "Some e"] show ?thesis
      proof
        assume "\<exists>k\<le>n. (\<forall>i<k. fails wr i s1) \<and> \<not> fails wr k s1 \<and>
          write_attempts wr rnd [Suc a..<Suc (Suc a + n)] (Some e) (note_retry (rnd a) a wp, s1) =
          (Inr None, retries_from rnd (Suc a) k (note_retry (rnd a) a wp), snd (nth_write wr k s1))"
        then obtain k where "k \<le> n" "\<forall>i<k. fails wr i s1" "\<not> fails wr k s1"
          "write_attempts wr rnd [Suc a..<Suc (Suc a + n)] (Some e) (note_retry (rnd a) a wp, s1) =
          (Inr None, retries_from rnd (Suc a) k (note_retry (rnd a) a wp), snd (nth_write wr k s1))" by blast
        with step split f Pair show ?thesis by (intro disjI1 exI [of _ "Suc k"]) simp
      next
        assume "\<exists>e'. (\<forall>i\<le>n. fails wr i s1) \<and> fst (nth_write wr n s1) = Inl e' \<and>
          write_attempts wr rnd [Suc a..<Suc (Suc a + n)] (Some e) (note_retry (rnd a) a wp, s1) =
          (Inr (Some e'), retries_from rnd (Suc a) n (note_retry (rnd a) a wp), snd (nth_write wr n s1))"
        then obtain e' where "\<forall>i\<le>n. fails wr i s1" "fst (nth_write wr n s1) = Inl e'"
          "write_attempts wr rnd [Suc a..<Suc (Suc a + n)] (Some e) (note_retry (rnd a) a wp, s1) =
          (Inr (Some e'), retries_from rnd (Suc a) n (note_retry (rnd a) a wp), snd (nth_write wr n s1))" by blast
        moreover have "(\<forall>i \<le> Suc n. fails wr i s) = (\<forall>i \<le> n. fails wr i s1)"
          using split [of "Suc n"] by (simp add: less_Suc_eq_le)
        ultimately show ?thesis using step Pair by (intro disjI2 exI [of _ e']) simp
      qed
    qed
  qed
qed


text \<open>What a batch does when at least one attempt is made.\<close>

lemma process_batch_cases:
  assumes "\<And>s e s'. bulk_wr batch s = (Inl e, s') \<Longrightarrow> is_Exception e" and "wp_max_retries wp = int n" and "n \<le> 1024"
  obtains (written) k where "k \<le> n" "\<forall>i < k. fails (bulk_wr batch) i s" "\<not> fails (bulk_wr batch) k s"
      "process_batch bulk_wr sink exn_str clock rnd batch (wp, q, s) =
         (Inr (), note_success (length batch) (retries_from rnd 0 k wp), q, snd (nth_write (bulk_wr batch) k s))"
    | (routed) e where "\<forall>i \<le> n. fails (bulk_wr batch) i s" "fst (nth_write (bulk_wr batch) n s) = Inl e"
      "process_batch bulk_wr sink exn_str clock rnd batch (wp, q, s) =
         (case push_many sink clock batch (exn_str e) (q, snd (nth_write (bulk_wr batch) n s)) of
            (r, q', s') \<Rightarrow> (r, retries_from rnd 0 n wp, q', s'))"
proof -
  have range: "attempt_range wp = [0..<Suc (0 + n)]" by (simp add: attempt_range_def assms(2) nat_add_distrib)
  have "wp_max_retries wp = int (0 + n)" "0 + n \<le> 1024" using assms(2,3) by simp_all
  from write_attempts_spec [where wr = "bulk_wr batch" and s = s and rnd = rnd and last_exc = None, OF assms(1) this] show thesis
  proof
    assume "\<exists>k\<le>n. (\<forall>i<k. fails (bulk_wr batch) i s) \<and> \<not> fails (bulk_wr batch) k s \<and>
      write_attempts (bulk_wr batch) rnd [0..<Suc (0 + n)] None (wp, s) =
        (Inr None, retries_from rnd 0 k wp, snd (nth_write (bulk_wr batch) k s))"
    then obtain k where "k \<le> n" "\<forall>i<k. fails (bulk_wr batch) i s" "\<not> fails (bulk_wr batch) k s"
      "write_attempts (bulk_wr batch) rnd (attempt_range wp) None (wp, s) =
        (Inr None, retries_from rnd 0 k wp, snd (nth_write (bulk_wr batch) k s))" unfolding range by blast
    then show thesis by (intro written [of k]) (simp_all add: process_batch_def)
  next
    assume "\<exists>e. (\<forall>i\<le>n. fails (bulk_wr batch) i s) \<and> fst (nth_write (bulk_wr batch) n s) = Inl e \<and>
      write_attempts (bulk_wr batch) rnd [0..<Suc (0 + n)] None (wp, s) =
        (Inr (Some e), retries_from rnd 0 n wp, snd (nth_write (bulk_wr batch) n s))"
    then obtain e where "\<forall>i\<le>n. fails (bulk_wr batch) i s" "fst (nth_write (bulk_wr batch) n s) = Inl e"
      "write_attempts (bulk_wr batch) rnd (attempt_range wp) None (wp, s) =
        (Inr (Some e), retries_from rnd 0 n wp, snd (nth_write (bulk_wr batch) n s))" unfolding range by blast
    then show thesis by (intro routed [of e]) (simp_all add: process_batch_def case_prod_beta)
  qed
qed

lemma note_success_fields [simp]:
  "wp_max_retries (note_success n wp) = wp_max_retries wp" "wp_retries (note_success n wp) = wp_retries wp"
  "wp_events_processed (note_success n wp) = wp_events_processed wp + n"
  "wp_batches_processed (note_success n wp) = Suc (wp_batches_processed wp)"
  "wp_sleeps (note_success n wp) = wp_sleeps wp" "wp_base_delay (note_success n wp) = wp_base_delay wp"
  by (simp_all add: note_success_def)

text \<open>The k-th of successive writes keeps what every write keeps.\<close>

lemma nth_write_invariant:
  assumes "\<And>s r s'. I s \<Longrightarrow> wr s = (r, s') \<Longrightarrow> I s' \<and> (R s s')"
    and "\<And>s. R s s" and "\<And>a b c. R a b \<Longrightarrow> R b c \<Longrightarrow> R a c" and "I s"
  shows "I (snd (nth_write wr k s)) \<and> R s (snd (nth_write wr k s))"
  using assms(4)
proof (induction k arbitrary: s)
  case 0
  then show ?case using assms(1) [of s] by (cases "wr s") simp
next
  case (Suc k)
  obtain r s1 where w: "wr s = (r, s1)" by force
  from assms(1) [OF Suc.prems w] Suc.IH [of s1] assms(3) show ?case by (auto simp: w)
qed

lemma nth_write_last:
  "I s \<Longrightarrow> (\<And>s r s'. I s \<Longrightarrow> wr s = (r, s') \<Longrightarrow> I s') \<Longrightarrow> \<exists>t. I t \<and> nth_write wr k s = wr t"
  by (induction k arbitrary: s) (auto, metis prod.collapse)

text \<open>A bound on a sum of delays, each at most a power of two times the base.\<close>

lemma backoff_sum_le:
  assumes "\<And>i. 0 \<le> rnd i \<and> rnd i \<le> 1" and "0 \<le> (b::rat)"
  shows "sum_list (map (\<lambda>i. rnd i * (b * 2 ^ i)) [0..<k]) \<le> b * (2 ^ k - 1)"
proof (induction k)
  case (Suc k)
  have "rnd k * (b * 2 ^ k) \<le> 1 * (b * 2 ^ k)" using assms by (intro mult_right_mono) simp_all
  with Suc show ?case by (simp add: algebra_simps)
qed simp


section \<open>The store interface of the pipeline\<close>

text \<open>
  What the workers rely on besides the sink: \<open>stored c s\<close> are the ids in the source of truth; a write that
  returns has stored its events, one that raises raises an ordinary exception, and nothing stored or
  recorded is ever taken away by a write or by the sink.
\<close>

locale event_store = dead_letter_sink good inv ids persist
  for good :: "'c \<Rightarrow> bool" and inv :: "'c \<Rightarrow> 's \<Rightarrow> bool" and ids :: "'c \<Rightarrow> 's \<Rightarrow> string set"
    and persist :: "'c \<Rightarrow> pydict list \<Rightarrow> ('s, unit) io" +
  fixes stored :: "'c \<Rightarrow> 's \<Rightarrow> string set" and wr :: "'c \<Rightarrow> event_document list \<Rightarrow> ('s, unit) io"
  assumes wr_inv: "good c \<Longrightarrow> inv c s \<Longrightarrow> wr c events s = (r, s') \<Longrightarrow> inv c s'"
    and wr_keeps: "good c \<Longrightarrow> inv c s \<Longrightarrow> wr c events s = (r, s') \<Longrightarrow> stored c s \<subseteq> stored c s' \<and> ids c s \<subseteq> ids c s'"
    and wr_stores: "good c \<Longrightarrow> inv c s \<Longrightarrow> wr c events s = (Inr (), s') \<Longrightarrow> event_ids_of events \<subseteq> stored c s'"
    and wr_raises: "good c \<Longrightarrow> wr c events s = (Inl e, s') \<Longrightarrow> is_Exception e"
    and persist_keeps_stored: "good c \<Longrightarrow> inv c s \<Longrightarrow> \<forall>d \<in> set docs. \<exists>i. doc_id d = Some (PStr i) \<Longrightarrow>
      persist c docs s = (r, s') \<Longrightarrow> stored c s \<subseteq> stored c s'"
begin

text \<open>The ids that are durable or still known to the process.\<close>

definition held :: "'c \<Rightarrow> dlq \<Rightarrow> 's \<Rightarrow> string set" where
  "held c q s = stored c s \<union> known c q s"

lemma push_many_held:
  assumes "good c" and "inv c s" and "push_many (Some (persist c)) clock events reason (q, s) = (r, q', s')"
  shows "r = Inr ()" and "inv c s'" and "held c q s \<union> event_ids_of events \<subseteq> held c q' s'"
    and "stored c s \<subseteq> stored c s'" and "ids c s \<subseteq> ids c s'"
proof -
  note push = push_many_total [OF assms]
  show kept: "stored c s \<subseteq> stored c s'"
  proof (cases "events = []")
    case False
    let ?docs = "map entry_to_doc (dq_unpersisted q @ dlq_entries clock events reason)"
    obtain r0 s0 where call: "persist c ?docs s = (r0, s0)" by force
    have docs: "\<forall>d \<in> set ?docs. \<exists>i. doc_id d = Some (PStr i)" by auto
    have "\<forall>e. r0 = Inl e \<longrightarrow> is_Exception e" using persist_raises [OF assms(1,2) docs] call by blast
    from push_many_sink [of events "persist c", OF False call this] assms(3) have "s' = s0" by simp
    with persist_keeps_stored [OF assms(1,2) docs call] show ?thesis by simp
  qed (use assms(3) in simp)
  show "r = Inr ()" "inv c s'" "ids c s \<subseteq> ids c s'" by (fact push(1-3))+
  show "held c q s \<union> event_ids_of events \<subseteq> held c q' s'" using push(5) kept unfolding held_def by blast
qed

lemma nth_wr_kept:
  assumes "good c" and "inv c s"
  shows "inv c (snd (nth_write (wr c b) k s)) \<and>
    stored c s \<subseteq> stored c (snd (nth_write (wr c b) k s)) \<and> ids c s \<subseteq> ids c (snd (nth_write (wr c b) k s))"
  by (rule nth_write_invariant [where I = "inv c" and R = "\<lambda>s s'. stored c s \<subseteq> stored c s' \<and> ids c s \<subseteq> ids c s'"])
    (use assms wr_inv wr_keeps in blast)+

lemma process_batch_held:
  assumes "good c" and "inv c s" and "wp_max_retries wp = int n" and "n \<le> 1024"
    and run: "process_batch (wr c) (Some (persist c)) exn_str clock rnd batch (wp, q, s) = (r, wp', q', s')"
  shows "r = Inr ()" and "inv c s'" and "held c q s \<union> event_ids_of batch \<subseteq> held c q' s'"
    and "stored c s \<subseteq> stored c s'" and "ids c s \<subseteq> ids c s'"
proof -
  have goal: "r = Inr () \<and> inv c s' \<and> held c q s \<union> event_ids_of batch \<subseteq> held c q' s' \<and>
     stored c s \<subseteq> stored c s' \<and> ids c s \<subseteq> ids c s'"
  proof (rule process_batch_cases [where bulk_wr = "wr c" and batch = batch and s = s and sink = "Some (persist c)"
        and exn_str = exn_str and clock = clock and rnd = rnd and q = q, OF wr_raises [OF assms(1)] assms(3,4)])
    fix k
    let ?s = "snd (nth_write (wr c batch) k s)"
    assume ok: "\<not> fails (wr c batch) k s" and "process_batch (wr c) (Some (persist c)) exn_str clock rnd batch (wp, q, s) =
        (Inr (), note_success (length batch) (retries_from rnd 0 k wp), q, ?s)"
    with run have eqs: "r = Inr ()" "q' = q" "s' = ?s" by simp_all
    obtain t where t: "inv c t" "nth_write (wr c batch) k s = wr c batch t"
      using nth_write_last [of "inv c" s "wr c batch" k] assms(1,2) wr_inv by blast
    from ok have "fst (nth_write (wr c batch) k s) = Inr ()"
      by (cases "fst (nth_write (wr c batch) k s)") (simp_all add: fails_def)
    with wr_stores [OF assms(1) t(1), of batch ?s] t(2) have "event_ids_of batch \<subseteq> stored c ?s"
      by (simp add: prod_eq_iff)
    with nth_wr_kept [OF assms(1,2), of batch k] show ?thesis
      unfolding eqs held_def known_def by blast
  next
    fix e
    let ?s = "snd (nth_write (wr c batch) n s)"
    obtain r0 q0 s0 where call: "push_many (Some (persist c)) clock batch (exn_str e) (q, ?s) = (r0, q0, s0)"
      by (metis prod.exhaust)
    assume "process_batch (wr c) (Some (persist c)) exn_str clock rnd batch (wp, q, s) =
       (case push_many (Some (persist c)) clock batch (exn_str e) (q, ?s) of
          (r, q', s') \<Rightarrow> (r, retries_from rnd 0 n wp, q', s'))"
    with run call have eqs: "r = r0" "q' = q0" "s' = s0" by simp_all
    note kept = nth_wr_kept [OF assms(1,2), of batch n]
    note push = push_many_held [OF assms(1) kept [THEN conjunct1] call]
    have "held c q s \<subseteq> held c q ?s" using kept unfolding held_def known_def by blast
    with push kept show ?thesis unfolding eqs by (intro conjI) (simp, blast+)
  qed
  then show "r = Inr ()" "inv c s'" "held c q s \<union> event_ids_of batch \<subseteq> held c q' s'"
    "stored c s \<subseteq> stored c s'" "ids c s \<subseteq> ids c s'" by blast+
qed

end

definition event_ids_stored :: "'m mongo_ctx \<Rightarrow> 'm mongo_store \<Rightarrow> string set" where
  "event_ids_stored c s = stored_ids (snd c) s COLLECTION"

definition mongo_write :: "'m mongo_ctx \<Rightarrow> event_document list \<Rightarrow> ('m mongo_store, unit) io" where
  "mongo_write c = bulk_write (fst c)"

lemma bulk_write_event_ids:
  assumes "mongo_contract D V" and "only_duplicate_errors D" and "bulk_write D events s = (Inr (), s')"
  shows "event_ids_of events \<subseteq> stored_ids V s' COLLECTION"
  using assms(3)
proof (cases rule: bulk_write_cases)
  case 2
  show ?thesis
  proof
    fix i
    assume "i \<in> event_ids_of events"
    then have "Some (PStr i) \<in> doc_id ` set (bulk_docs events)" by (simp add: bulk_docs_ids)
    then obtain d where "d \<in> set (bulk_docs events)" "doc_id d = Some (PStr i)" by auto
    with insert_skipping_stores [OF assms(1,2) bulk_docs_string_ids 2(2)]
    show "i \<in> stored_ids V s' COLLECTION" by blast
  qed
qed (simp add: event_ids_of_def)

interpretation mongo_events: event_store sink_good sink_inv dead_ids mongo_persist event_ids_stored mongo_write
proof
  fix c :: "'m mongo_ctx" and s s' :: "'m mongo_store" and events r
  assume "sink_good c"
  then have ct: "mongo_contract (fst c) (snd c)" and dup: "only_duplicate_errors (fst c)"
    by (simp_all add: sink_good_def)
  show "is_Exception e" if "mongo_write c events s = (Inl e, s')" for e
    using that insert_skipping_raises [OF ct bulk_docs_string_ids] unfolding mongo_write_def
    by (auto elim!: bulk_write_cases)
  show "event_ids_of events \<subseteq> event_ids_stored c s'" if "mongo_write c events s = (Inr (), s')"
    using that bulk_write_event_ids [OF ct dup] unfolding mongo_write_def event_ids_stored_def by blast
  show "sink_inv c s'" if "mongo_write c events s = (r, s')" "sink_inv c s"
    using that insert_skipping_inv [OF ct bulk_docs_string_ids] unfolding mongo_write_def sink_inv_def
    by (auto elim!: bulk_write_cases)
  show "event_ids_stored c s \<subseteq> event_ids_stored c s' \<and> dead_ids c s \<subseteq> dead_ids c s'"
    if "mongo_write c events s = (r, s')"
    using that stored_ids_mono [OF ct bulk_docs_string_ids] unfolding mongo_write_def event_ids_stored_def dead_ids_def
    by (blast elim: bulk_write_cases)
  show "event_ids_stored c s \<subseteq> event_ids_stored c s'"
    if "mongo_persist c docs s = (r, s')" "\<forall>d \<in> set docs. \<exists>i. doc_id d = Some (PStr i)" for docs
    using that(1) stored_ids_mono [OF ct that(2)] unfolding mongo_persist_def event_ids_stored_def
    by (blast elim: persist_cases)
qed

section \<open>Properties\<close>

text \<open>
  C28: the retry loop of \<open>_process_batch\<close>. Of at most \<open>max_retries + 1\<close> writes, the first that succeeds ends
  the batch: it is counted once, with one retry per failure, and the dead-letter queue is untouched. Only
  when all of them fail is the whole batch routed to the dead-letter queue, with the last error as reason,
  and it does not count as processed.
\<close>

theorem process_batch_retries:
  assumes "\<And>s e s'. bulk_wr batch s = (Inl e, s') \<Longrightarrow> is_Exception e" and "wp_max_retries wp = int n" and "n \<le> 1024"
    and run: "process_batch bulk_wr sink exn_str clock rnd batch (wp, q, s) = (r, wp', q', s')"
  shows "(\<exists>k \<le> n. (\<forall>i < k. fails (bulk_wr batch) i s) \<and> \<not> fails (bulk_wr batch) k s \<and>
       r = Inr () \<and> q' = q \<and> s' = snd (nth_write (bulk_wr batch) k s) \<and> wp_retries wp' = wp_retries wp + k \<and>
       wp_batches_processed wp' = Suc (wp_batches_processed wp) \<and>
       wp_events_processed wp' = wp_events_processed wp + length batch) \<or>
    (\<exists>e. (\<forall>i \<le> n. fails (bulk_wr batch) i s) \<and> fst (nth_write (bulk_wr batch) n s) = Inl e \<and>
       (r, q', s') = push_many sink clock batch (exn_str e) (q, snd (nth_write (bulk_wr batch) n s)) \<and>
       wp_retries wp' = wp_retries wp + n \<and> wp_batches_processed wp' = wp_batches_processed wp \<and>
       wp_events_processed wp' = wp_events_processed wp)"
proof (rule process_batch_cases [where bulk_wr = bulk_wr and s = s and sink = sink
      and exn_str = exn_str and clock = clock and rnd = rnd and q = q, OF assms(1-3)])
  fix k
  assume "k \<le> n" "\<forall>i < k. fails (bulk_wr batch) i s" "\<not> fails (bulk_wr batch) k s"
    "process_batch bulk_wr sink exn_str clock rnd batch (wp, q, s) =
       (Inr (), note_success (length batch) (retries_from rnd 0 k wp), q, snd (nth_write (bulk_wr batch) k s))"
  with run show ?thesis by (intro disjI1 exI [of _ k]) auto
next
  fix e
  let ?p = "push_many sink clock batch (exn_str e) (q, snd (nth_write (bulk_wr batch) n s))"
  assume "\<forall>i \<le> n. fails (bulk_wr batch) i s" "fst (nth_write (bulk_wr batch) n s) = Inl e"
    "process_batch bulk_wr sink exn_str clock rnd batch (wp, q, s) =
       (case ?p of (r, q', s') \<Rightarrow> (r, retries_from rnd 0 n wp, q', s'))"
  with run show ?thesis by (intro disjI2 exI [of _ e]) (cases ?p, auto)
qed

lemma bulk_write_raises:
  "mongo_contract D V \<Longrightarrow> bulk_write D events s = (Inl e, s') \<Longrightarrow> is_Exception e"
  using insert_skipping_raises [OF _ bulk_docs_string_ids] by (auto elim!: bulk_write_cases)

definition sample_pool :: "int \<Rightarrow> worker_pool" where
  "sample_pool n = new_worker_pool 100 n (1 / 2)"

lemma sample_pool_fields [simp]:
  "wp_max_retries (sample_pool n) = n" "wp_base_delay (sample_pool n) = 1 / 2" "wp_sleeps (sample_pool n) = []"
  "wp_batch_size (sample_pool n) = 100" "wp_retries (sample_pool n) = 0" "wp_events_processed (sample_pool n) = 0"
  by (simp_all add: sample_pool_def new_worker_pool_def)

definition sample_pool_run :: "(exn + unit) \<times> worker_pool \<times> dlq \<times> mem mongo_store" where
  "sample_pool_run = process_batch (bulk_write (mem_driver True)) (Some (persist_dead_letters (mem_driver True)))
     (\<lambda>_. ''down'') (\<lambda>_. utc_datetime 0) (\<lambda>_. 1 / 2) [sample_event ''a''] (sample_pool 0, new_dlq, mem_store [])"

lemma sample_pool_run_eq: "sample_pool_run = (Inr (), note_success 1 (sample_pool 0), new_dlq, mem_written ''a'')"
  by (simp add: sample_pool_run_def process_batch_def attempt_range_def mem_store_write)

theorem process_batch_retries_witness:
  "wp_events_processed (note_success 1 (sample_pool 0)) = 1 \<and>
   \<not> fails (bulk_write (mem_driver True) [sample_event ''a'']) 0 (mem_store [])"
  using process_batch_retries [where bulk_wr = "bulk_write (mem_driver True)" and n = 0,
      OF bulk_write_raises [OF mem_contract] _ _ sample_pool_run_eq [unfolded sample_pool_run_def]]
  by (simp add: fails_def mem_store_write)

text \<open>
  C29: the backoff is bounded. For random fractions in \<open>[0, 1]\<close>, a batch sleeps at most \<open>max_retries\<close>
  times, the i-th time for at most \<open>base * 2^i\<close> seconds, \<open>base * (2^max_retries - 1)\<close> seconds in all.
\<close>

theorem backoff_bounded:
  assumes "\<And>s e s'. bulk_wr batch s = (Inl e, s') \<Longrightarrow> is_Exception e" and "wp_max_retries wp = int n" and "n \<le> 1024"
    and rnd: "\<And>i. 0 \<le> rnd i \<and> rnd i \<le> 1" and base: "0 \<le> wp_base_delay wp"
    and run: "process_batch bulk_wr sink exn_str clock rnd batch (wp, q, s) = (r, wp', q', s')"
  shows "\<exists>ds. wp_sleeps wp' = wp_sleeps wp @ ds \<and> length ds \<le> n \<and>
    (\<forall>i < length ds. 0 \<le> ds ! i \<and> ds ! i \<le> wp_base_delay wp * 2 ^ i) \<and>
    sum_list ds \<le> wp_base_delay wp * (2 ^ n - 1)"
proof -
  let ?ds = "\<lambda>k. map (\<lambda>i. rnd i * (wp_base_delay wp * 2 ^ i)) [0..<k]"
  have "\<exists>k \<le> n. wp_sleeps wp' = wp_sleeps wp @ ?ds k"
  proof (rule process_batch_cases [where bulk_wr = bulk_wr and s = s and sink = sink
        and exn_str = exn_str and clock = clock and rnd = rnd and q = q, OF assms(1-3)])
    fix k
    assume "k \<le> n" "process_batch bulk_wr sink exn_str clock rnd batch (wp, q, s) =
        (Inr (), note_success (length batch) (retries_from rnd 0 k wp), q, snd (nth_write (bulk_wr batch) k s))"
    with run show ?thesis by (intro exI [of _ k]) auto
  next
    fix e
    let ?p = "push_many sink clock batch (exn_str e) (q, snd (nth_write (bulk_wr batch) n s))"
    assume "process_batch bulk_wr sink exn_str clock rnd batch (wp, q, s) =
        (case ?p of (r, q', s') \<Rightarrow> (r, retries_from rnd 0 n wp, q', s'))"
    with run show ?thesis by (intro exI [of _ n]) (cases ?p, auto)
  qed
  then obtain k where k: "k \<le> n" "wp_sleeps wp' = wp_sleeps wp @ ?ds k" by blast
  have "sum_list (?ds k) \<le> wp_base_delay wp * (2 ^ k - 1)" by (rule backoff_sum_le [OF rnd base])
  also have "\<dots> \<le> wp_base_delay wp * (2 ^ n - 1)" using k(1) base by (intro mult_left_mono) simp_all
  finally have total: "sum_list (?ds k) \<le> wp_base_delay wp * (2 ^ n - 1)" .
  have one: "0 \<le> rnd i * (wp_base_delay wp * 2 ^ i) \<and> rnd i * (wp_base_delay wp * 2 ^ i) \<le> wp_base_delay wp * 2 ^ i" for i
    using rnd [of i] base mult_right_mono [of "rnd i" 1 "wp_base_delay wp * 2 ^ i"] by simp
  show ?thesis using k total one by (intro exI [of _ "?ds k"]) simp
qed

definition down_run :: "(exn + unit) \<times> worker_pool \<times> dlq \<times> nat" where
  "down_run = process_batch (\<lambda>_ s. (Inl (PyMongoErr ''down''), Suc s)) None (\<lambda>_. ''down'') (\<lambda>_. utc_datetime 0)
     (\<lambda>_. 1 / 2) [sample_event ''a''] (sample_pool 2, new_dlq, 0)"

theorem backoff_bounded_witness:
  "length (wp_sleeps (fst (snd down_run))) \<le> 2 \<and> sum_list (wp_sleeps (fst (snd down_run))) \<le> 3 / 2 \<and> wp_retries (fst (snd down_run)) = 2"
proof -
  obtain r wp' q' s' where run: "down_run = (r, wp', q', s')" by (metis prod.exhaust)
  from backoff_bounded [OF _ _ _ _ _ run [unfolded down_run_def], where n = 2]
  have "length (wp_sleeps wp') \<le> 2 \<and> sum_list (wp_sleeps wp') \<le> 3 / 2" by (auto simp: is_Exception_def)
  moreover have "wp_retries (fst (snd down_run)) = 2"
    by (simp add: down_run_def process_batch_def attempt_range_def upt_rec is_Exception_def push_many_def push_begin_def Let_def)
  ultimately show ?thesis by (simp add: run)
qed

text \<open>
  With a negative \<open>max_retries\<close> (the settings accept it) no write is attempted, yet the batch counts as
  processed: every event is dropped without an error.
\<close>

theorem negative_retries_drop_batch:
  assumes "wp_max_retries wp < 0"
  shows "process_batch bulk_wr sink exn_str clock rnd batch (wp, q, s) = (Inr (), note_success (length batch) wp, q, s)"
  using assms by (simp add: process_batch_def attempt_range_def)

theorem negative_retries_drop_batch_witness:
  "process_batch (bulk_write (mem_driver True)) None (\<lambda>_. ''x'') (\<lambda>_. utc_datetime 0) (\<lambda>_. 0) [sample_event ''a'']
     (sample_pool (-1), new_dlq, mem_store []) = (Inr (), note_success 1 (sample_pool (-1)), new_dlq, mem_store [])"
  by (subst negative_retries_drop_batch) simp_all

text \<open>
  C8: at-least-once per batch. Against a Mongo that keeps to its documentation and refuses documents for
  duplicate ids only, \<open>_process_batch\<close> never raises, whatever fails during it: every event of the batch
  ends up stored, recorded in the dead-letter collection or buffered in memory, and no event stored,
  recorded or buffered before is lost.
\<close>

theorem process_batch_at_least_once:
  assumes "mongo_contract D V" and "only_duplicate_errors D" and "store_inv V s"
    and "wp_max_retries wp = int n" and "n \<le> 1024"
    and "process_batch (bulk_write D) (Some (persist_dead_letters D)) exn_str clock rnd batch (wp, q, s) = (r, wp', q', s')"
  shows "r = Inr () \<and> store_inv V s' \<and>
    stored_ids V s COLLECTION \<union> stored_ids V s DEAD_LETTER \<union> buffered_ids q \<union> event_ids_of batch
      \<subseteq> stored_ids V s' COLLECTION \<union> stored_ids V s' DEAD_LETTER \<union> buffered_ids q'"
proof -
  have "sink_good (D, V)" "sink_inv (D, V) s" using assms(1-3) by (simp_all add: sink_good_def sink_inv_def)
  from mongo_events.process_batch_held [OF this assms(4,5), unfolded mongo_write_def mongo_persist_def fst_conv, OF assms(6)]
  show ?thesis
    by (simp add: mongo_events.held_def mongo_sink.known_def event_ids_stored_def dead_ids_def sink_inv_def Un_assoc)
qed

theorem process_batch_at_least_once_witness:
  "''a'' \<in> stored_ids mem_view (mem_written ''a'') COLLECTION \<union> stored_ids mem_view (mem_written ''a'') DEAD_LETTER \<union>
     buffered_ids new_dlq"
  using process_batch_at_least_once [OF mem_contract mem_only_duplicates mem_store_inv _ _
      sample_pool_run_eq [unfolded sample_pool_run_def], of 0]
  by (simp add: event_ids_of_def)

text \<open>
  C38: the assumption on refusals in C8 and C12 is needed. There is a driver that keeps to its documentation
  and refuses the one document of a batch with code 121 (a failed document validation, no duplicate id).
  \<open>bulk_write\<close> skips every \<open>BulkWriteError\<close> and returns; \<open>_process_batch\<close> then returns normally without a
  retry and counts the event as processed, and the event is neither stored nor dead-lettered nor buffered.
\<close>

theorem process_batch_silent_loss:
  "\<exists>(D :: mem mongo_driver) V s m m' s' wp'. mongo_contract D V \<and> store_inv V s \<and> ms_client s = Some m \<and>
     md_insert_many D (ms_db_name s, COLLECTION) [to_doc (sample_event i)] False m = (Inl (BulkWriteErr [(0, 121)]), m') \<and>
     process_batch (bulk_write D) (Some (persist_dead_letters D)) exn_str clock rnd [sample_event i] (sample_pool 2, new_dlq, s) =
       (Inr (), wp', new_dlq, s') \<and>
     wp_events_processed wp' = 1 \<and> wp_retries wp' = 0 \<and>
     i \<notin> stored_ids V s' COLLECTION \<union> stored_ids V s' DEAD_LETTER \<union> buffered_ids new_dlq"
proof -
  let ?D = "mem_driver False" and ?s = "mem_store [Refuse 0 121]" and ?wp = "note_success 1 (sample_pool 2)"
  have "process_batch (bulk_write ?D) (Some (persist_dead_letters ?D)) exn_str clock rnd [sample_event i] (sample_pool 2, new_dlq, ?s) =
      (Inr (), ?wp, new_dlq, mem_store [])"
    by (simp add: process_batch_def attempt_range_def refused_write upt_rec)
  moreover have "ms_client ?s = Some (mem_new [Refuse 0 121])" "ms_db_name ?s = ''db''" by (simp_all add: mem_store_def)
  moreover have "buffered_ids new_dlq = {}" by (simp add: buffered_ids_def new_dlq_def)
  ultimately show ?thesis using mem_contract [of False] mem_store_inv [of "[Refuse 0 121]"] refused_insert [of i]
    by (intro exI [of _ ?D] exI [of _ mem_view] exI [of _ ?s] exI [of _ "mem_new [Refuse 0 121]"] exI [of _ "mem_new []"]
        exI [of _ "mem_store []"] exI [of _ ?wp]) (simp add: mem_store_empty)
qed

text \<open>The batch a turn takes: the first events of the queue, at least one, at most \<open>batch_size\<close>.\<close>

definition next_batch :: "int \<Rightarrow> 'a list \<Rightarrow> 'a list" where
  "next_batch bs xs = take (max 1 (nat bs)) xs"

lemma next_batch_Cons: "next_batch bs (x # xs) = x # take (nat (bs - 1)) xs"
proof -
  have "max 1 (nat bs) = Suc (nat (bs - 1))" by (cases "1 \<le> bs") simp_all
  then show ?thesis by (simp add: next_batch_def)
qed

lemma get_Some: "q_items q = x # xs \<Longrightarrow> get q = Some (x, q\<lparr>q_items := xs\<rparr>)"
  by (simp add: get_def get_nowait_def)

lemma gather_next_batch:
  assumes "q_items q = x # xs"
  shows "gather bs [x] (q\<lparr>q_items := xs\<rparr>) =
    (next_batch bs (q_items q), q\<lparr>q_items := drop (length (next_batch bs (q_items q))) (q_items q)\<rparr>)"
  using assms by (simp add: gather_eq next_batch_Cons min_def)

lemma consume_turn_step:
  assumes "queue_inv evq"
  shows "(q_items evq = [] \<longrightarrow>
      consume_turn bulk_wr sink exn_str clock rnd (evq, wp, q, s) = (if wp_stop_event wp then Exited else Waited, evq, wp, q, s)) \<and>
    (q_items evq \<noteq> [] \<longrightarrow> (let b = next_batch (wp_batch_size wp) (q_items evq);
         evq' = evq\<lparr>q_items := drop (length b) (q_items evq), q_unfinished := q_unfinished evq - length b\<rparr> in
      queue_inv evq' \<and> b @ q_items evq' = q_items evq \<and> 0 < length b \<and> length b \<le> q_unfinished evq \<and>
      consume_turn bulk_wr sink exn_str clock rnd (evq, wp, q, s) =
        (case process_batch bulk_wr sink exn_str clock rnd b (wp, q, s) of (r, wp', q', s') \<Rightarrow>
           (case r of Inl e \<Rightarrow> Raised e | Inr _ \<Rightarrow> Processed, evq', wp', q', s'))))"
proof (cases "q_items evq")
  case Nil
  then show ?thesis by (simp add: consume_turn_def get_def get_nowait_def)
next
  case (Cons x xs)
  let ?b = "next_batch (wp_batch_size wp) (q_items evq)"
  have b: "?b @ drop (length ?b) (q_items evq) = q_items evq" "0 < length ?b"
    using Cons by (simp_all add: next_batch_Cons min_def)
  have len: "length ?b \<le> length (q_items evq)" by (simp add: next_batch_def)
  with assms have done_ok: "length ?b \<le> q_unfinished evq" by (simp add: queue_inv_def)
  let ?evq = "evq\<lparr>q_items := drop (length ?b) (q_items evq)\<rparr>"
  have td: "tasks_done ?b ?evq = (Inr (), ?evq\<lparr>q_unfinished := q_unfinished evq - length ?b\<rparr>)"
    using done_ok by (subst tasks_done_eq) simp_all
  from assms len have "queue_inv (?evq\<lparr>q_unfinished := q_unfinished evq - length ?b\<rparr>)"
    by (auto simp: queue_inv_def)
  moreover have "consume_turn bulk_wr sink exn_str clock rnd (evq, wp, q, s) =
      (case process_batch bulk_wr sink exn_str clock rnd ?b (wp, q, s) of (r, wp', q', s') \<Rightarrow>
         (case r of Inl e \<Rightarrow> Raised e | Inr _ \<Rightarrow> Processed, ?evq\<lparr>q_unfinished := q_unfinished evq - length ?b\<rparr>, wp', q', s'))"
    by (simp add: consume_turn_def get_Some [OF Cons] gather_next_batch [OF Cons] td split: prod.split)
  ultimately show ?thesis using b done_ok Cons by (simp add: Let_def)
qed

text \<open>
  One turn of \<open>_consume\<close>. From a non-empty queue it takes the first \<open>max 1 batch_size\<close> events in order,
  processes exactly those and then calls \<open>task_done\<close> once for each, whether or not processing raised; the
  rest of the queue is untouched and its invariant kept. An empty queue is left alone.
\<close>

theorem consume_turn_accounting:
  assumes "queue_inv evq"
  shows "(q_items evq = [] \<longrightarrow>
      consume_turn bulk_wr sink exn_str clock rnd (evq, wp, q, s) = (if wp_stop_event wp then Exited else Waited, evq, wp, q, s)) \<and>
    (q_items evq \<noteq> [] \<longrightarrow> (let b = next_batch (wp_batch_size wp) (q_items evq);
         evq' = evq\<lparr>q_items := drop (length b) (q_items evq), q_unfinished := q_unfinished evq - length b\<rparr> in
      queue_inv evq' \<and> b @ q_items evq' = q_items evq \<and> 0 < length b \<and> length b \<le> q_unfinished evq \<and>
      consume_turn bulk_wr sink exn_str clock rnd (evq, wp, q, s) =
        (case process_batch bulk_wr sink exn_str clock rnd b (wp, q, s) of (r, wp', q', s') \<Rightarrow>
           (case r of Inl e \<Rightarrow> Raised e | Inr _ \<Rightarrow> Processed, evq', wp', q', s'))))"
  using assms by (rule consume_turn_step)

definition sample_queue :: "event_document event_queue" where
  "sample_queue = offer_all put_nowait [sample_event ''a'', sample_event ''b''] (new_queue 10)"

lemma sample_queue_eq: "sample_queue = \<lparr>q_items = [sample_event ''a'', sample_event ''b''], q_maxsize = 10, q_unfinished = 2\<rparr>"
  by (simp add: sample_queue_def new_queue_def put_nowait_def full_def qsize_def)

lemma sample_queue_inv: "queue_inv sample_queue"
  by (simp add: sample_queue_eq queue_inv_def)

theorem consume_turn_accounting_witness:
  "fst (consume_turn (\<lambda>_ s. (Inr (), Suc s)) None (\<lambda>_. ''x'') (\<lambda>_. utc_datetime 0) (\<lambda>_. 0) (sample_queue, sample_pool 3, new_dlq, 0 :: nat)) = Processed \<and>
   q_unfinished (fst (snd (consume_turn (\<lambda>_ s. (Inr (), Suc s)) None (\<lambda>_. ''x'') (\<lambda>_. utc_datetime 0) (\<lambda>_. 0) (sample_queue, sample_pool 3, new_dlq, 0 :: nat)))) = 0"
  using consume_turn_accounting [OF sample_queue_inv, THEN conjunct2,
      of "sample_pool 3" "\<lambda>_ s. (Inr (), Suc s)" None "\<lambda>_. ''x''" "\<lambda>_. utc_datetime 0" "\<lambda>_. 0" new_dlq "0 :: nat"]
  by (simp add: sample_queue_eq next_batch_def process_batch_def attempt_range_def upt_rec Let_def)

text \<open>Successive turns of a single worker, each with its own clock and random source.\<close>

fun turns ::
  "(event_document list \<Rightarrow> ('s, unit) io) \<Rightarrow> (pydict list \<Rightarrow> ('s, unit) io) option \<Rightarrow> (exn \<Rightarrow> string) \<Rightarrow>
   ((nat \<Rightarrow> datetime) \<times> (nat \<Rightarrow> rat)) list \<Rightarrow> event_document event_queue \<times> worker_pool \<times> dlq \<times> 's \<Rightarrow>
   event_document event_queue \<times> worker_pool \<times> dlq \<times> 's" where
  "turns bulk_wr sink exn_str [] st = st"
| "turns bulk_wr sink exn_str ((clock, rnd) # ts) st = turns bulk_wr sink exn_str ts (snd (consume_turn bulk_wr sink exn_str clock rnd st))"

lemma process_batch_pool:
  assumes "\<And>s e s'. bulk_wr batch s = (Inl e, s') \<Longrightarrow> is_Exception e" and "wp_max_retries wp = int n" and "n \<le> 1024"
    and run: "process_batch bulk_wr sink exn_str clock rnd batch (wp, q, s) = (r, wp', q', s')"
  shows "wp_max_retries wp' = int n"
proof (rule process_batch_cases [where bulk_wr = bulk_wr and s = s and sink = sink
      and exn_str = exn_str and clock = clock and rnd = rnd and q = q, OF assms(1-3)])
  fix e
  let ?p = "push_many sink clock batch (exn_str e) (q, snd (nth_write (bulk_wr batch) n s))"
  assume "process_batch bulk_wr sink exn_str clock rnd batch (wp, q, s) =
      (case ?p of (r, q', s') \<Rightarrow> (r, retries_from rnd 0 n wp, q', s'))"
  with run assms(2) show ?thesis by (cases ?p) auto
qed (use run assms(2) in auto)

lemma event_ids_of_append [simp]: "event_ids_of (xs @ ys) = event_ids_of xs \<union> event_ids_of ys"
  by (auto simp: event_ids_of_def)

context event_store
begin

lemma consume_turn_held:
  assumes "good c" and "inv c s" and "wp_max_retries wp = int n" and "n \<le> 1024" and "queue_inv evq"
    and "consume_turn (wr c) (Some (persist c)) exn_str clock rnd (evq, wp, q, s) = (t, evq', wp', q', s')"
  shows "inv c s' \<and> queue_inv evq' \<and> wp_max_retries wp' = int n \<and> length (q_items evq') \<le> length (q_items evq) - 1 \<and>
    q_unfinished evq' - length (q_items evq') = q_unfinished evq - length (q_items evq) \<and>
    held c q s \<union> event_ids_of (q_items evq) \<subseteq> held c q' s' \<union> event_ids_of (q_items evq')"
proof (cases "q_items evq = []")
  case True
  with consume_turn_step [OF assms(5), THEN conjunct1, rule_format, OF True,
      of "wr c" "Some (persist c)" exn_str clock rnd wp q s] assms show ?thesis by auto
next
  case False
  let ?b = "next_batch (wp_batch_size wp) (q_items evq)"
  obtain r wp1 q1 s1 where run: "process_batch (wr c) (Some (persist c)) exn_str clock rnd ?b (wp, q, s) = (r, wp1, q1, s1)"
    by (metis prod.exhaust)
  note safe = process_batch_held [OF assms(1-4) run]
  have pool: "wp_max_retries wp1 = int n"
    by (rule process_batch_pool [OF wr_raises [OF assms(1)] assms(3,4) run])
  note acc = consume_turn_step [OF assms(5), THEN conjunct2, rule_format, OF False,
      of wp "wr c" "Some (persist c)" exn_str clock rnd q s, unfolded Let_def run]
  from acc assms(6) have eqs: "wp' = wp1" "q' = q1" "s' = s1"
    "evq' = evq\<lparr>q_items := drop (length ?b) (q_items evq), q_unfinished := q_unfinished evq - length ?b\<rparr>" by simp_all
  from acc eqs(4) have q: "queue_inv evq'" "q_items evq = ?b @ q_items evq'" "0 < length ?b" "length ?b \<le> q_unfinished evq"
    by (simp_all del: append_take_drop_id)
  have "q_unfinished evq' = q_unfinished evq - length ?b" by (simp add: eqs(4))
  moreover have len: "length (q_items evq) = length ?b + length (q_items evq')" by (metis q(2) length_append)
  moreover have "length (q_items evq') \<le> length (q_items evq) - 1" using len q(3) by linarith
  moreover have "event_ids_of (q_items evq) = event_ids_of ?b \<union> event_ids_of (q_items evq')"
    by (metis q(2) event_ids_of_append)
  ultimately show ?thesis using safe pool q eqs(1-3) by auto
qed

lemma turns_drain:
  assumes "good c" and "n \<le> 1024" and "inv c s" and "wp_max_retries wp = int n" and "queue_inv evq"
    and "length (q_items evq) \<le> length ts"
    and "turns (wr c) (Some (persist c)) exn_str ts (evq, wp, q, s) = (evq', wp', q', s')"
  shows "q_items evq' = [] \<and> q_unfinished evq' = q_unfinished evq - length (q_items evq) \<and> inv c s' \<and>
    held c q s \<union> event_ids_of (q_items evq) \<subseteq> held c q' s'"
  using assms(3-)
proof (induction ts arbitrary: evq wp q s)
  case Nil
  then show ?case by (auto simp: event_ids_of_def)
next
  case (Cons tk ts)
  obtain clock rnd where tk: "tk = (clock, rnd)" by (cases tk)
  obtain t evq1 wp1 q1 s1 where turn:
    "consume_turn (wr c) (Some (persist c)) exn_str clock rnd (evq, wp, q, s) = (t, evq1, wp1, q1, s1)"
    by (metis prod.exhaust)
  note h = consume_turn_held [OF assms(1) Cons.prems(1,2) assms(2) Cons.prems(3) turn]
  have "length (q_items evq1) \<le> length (q_items evq) - 1" using h by blast
  with Cons.prems(4) have "length (q_items evq1) \<le> length ts" by (simp del: One_nat_def)
  moreover have "turns (wr c) (Some (persist c)) exn_str ts (evq1, wp1, q1, s1) = (evq', wp', q', s')"
    using Cons.prems(5) by (simp add: tk turn)
  ultimately have "q_items evq' = [] \<and> q_unfinished evq' = q_unfinished evq1 - length (q_items evq1) \<and> inv c s' \<and>
      held c q1 s1 \<union> event_ids_of (q_items evq1) \<subseteq> held c q' s'"
    using h by (intro Cons.IH) simp_all
  with h show ?case by auto
qed

end

text \<open>
  The queue drains. From any queue whose unfinished tasks are exactly its events, as many turns of a
  worker as there are events (fewer when batches are larger) empty the queue and bring its unfinished count
  to zero, so \<open>join()\<close> in \<open>WorkerPool.stop\<close> returns, and every event that was queued is stored, recorded in the
  dead-letter collection or buffered, whatever the database does meanwhile.
\<close>

theorem worker_drains_queue:
  assumes "mongo_contract D V" and "only_duplicate_errors D" and "store_inv V s"
    and "wp_max_retries wp = int n" and "n \<le> 1024" and "queue_inv evq" and "q_unfinished evq = length (q_items evq)"
    and "length (q_items evq) \<le> length ts"
    and "turns (bulk_write D) (Some (persist_dead_letters D)) exn_str ts (evq, wp, q, s) = (evq', wp', q', s')"
  shows "empty evq' \<and> join_ready evq' \<and>
    event_ids_of (q_items evq) \<subseteq> stored_ids V s' COLLECTION \<union> stored_ids V s' DEAD_LETTER \<union> buffered_ids q'"
proof -
  have "sink_good (D, V)" "sink_inv (D, V) s" using assms(1-3) by (simp_all add: sink_good_def sink_inv_def)
  from mongo_events.turns_drain [OF this(1) assms(5) this(2) assms(4,6,8), unfolded mongo_write_def mongo_persist_def fst_conv, OF assms(9)]
  show ?thesis using assms(7)
    by (simp add: mongo_events.held_def mongo_sink.known_def event_ids_stored_def dead_ids_def Un_assoc empty_def join_ready_def)
qed

theorem worker_drains_queue_witness:
  "empty (fst (turns (bulk_write (mem_driver True)) (Some (persist_dead_letters (mem_driver True))) (\<lambda>_. ''down'')
     (replicate 2 (\<lambda>_. utc_datetime 0, \<lambda>_. 1)) (sample_queue, sample_pool 2, new_dlq, mem_store [Fail (PyMongoErr ''x'')])))"
proof -
  let ?run = "turns (bulk_write (mem_driver True)) (Some (persist_dead_letters (mem_driver True))) (\<lambda>_. ''down'')
     (replicate 2 (\<lambda>_. utc_datetime 0, \<lambda>_. 1)) (sample_queue, sample_pool 2, new_dlq, mem_store [Fail (PyMongoErr ''x'')])"
  obtain evq' wp' q' s' where run: "?run = (evq', wp', q', s')" by (metis prod.exhaust)
  have "empty evq'"
    by (rule worker_drains_queue [OF mem_contract mem_only_duplicates mem_store_inv _ _ sample_queue_inv _ _ run, where n = 2,
          THEN conjunct1]) (simp_all add: sample_queue_eq)
  then show ?thesis by (simp add: run)
qed

end
