(* ===== verification/Hashing.thy ===== *)
theory Hashing
  imports Py_Values "HOL-Library.Word"
begin

text \<open>
  The parts of Python's \<open>hashlib\<close> and \<open>uuid\<close> the application calls: SHA-256 (the idempotency
  fingerprint), SHA-1 (inside \<open>uuid.uuid5\<close>), and the textual form of version 4 and version 5 UUIDs.
  All arithmetic is on 32-bit words with wrap-around, as the standards define it.
\<close>

unbundle bit_operations_syntax

section \<open>Bytes\<close>

type_synonym byte = "8 word"
type_synonym word32 = "32 word"

text \<open>\<open>str.encode("utf-8")\<close> for code points below 256.\<close>

definition utf8_char :: "char \<Rightarrow> byte list" where
  "utf8_char c = (let n = (of_char c :: nat) in
     if n < 128 then [word_of_nat n] else [word_of_nat (192 + n div 64), word_of_nat (128 + n mod 64)])"

definition utf8 :: "string \<Rightarrow> byte list" where
  "utf8 s = concat (map utf8_char s)"

definition hex_char :: "nat \<Rightarrow> char" where
  "hex_char n = ''0123456789abcdef'' ! n"

definition hex_byte :: "byte \<Rightarrow> string" where
  "hex_byte b = [hex_char (unat b div 16), hex_char (unat b mod 16)]"

definition hex :: "byte list \<Rightarrow> string" where
  "hex bs = concat (map hex_byte bs)"

lemma length_hex [simp]: "length (hex bs) = 2 * length bs"
  by (induction bs) (auto simp: hex_def hex_byte_def)

lemma hex_append: "hex (xs @ ys) = hex xs @ hex ys"
  by (simp add: hex_def)

lemma hex_char_inj: "m < 16 \<Longrightarrow> n < 16 \<Longrightarrow> hex_char m = hex_char n \<longleftrightarrow> m = n"
proof -
  have "distinct ''0123456789abcdef''" by simp
  moreover have "length ''0123456789abcdef'' = 16" by simp
  ultimately show "m < 16 \<Longrightarrow> n < 16 \<Longrightarrow> hex_char m = hex_char n \<longleftrightarrow> m = n"
    unfolding hex_char_def by (metis nth_eq_iff_index_eq)
qed

section \<open>Merkle-Damgard padding and big-endian words\<close>

definition be_word :: "byte list \<Rightarrow> word32" where
  "be_word bs = foldl (\<lambda>w b. push_bit 8 w OR ucast b) 0 bs"

definition be_bytes :: "word32 \<Rightarrow> byte list" where
  "be_bytes w = [ucast (drop_bit 24 w), ucast (drop_bit 16 w), ucast (drop_bit 8 w), ucast w]"

lemma length_be_bytes [simp]: "length (be_bytes w) = 4"
  by (simp add: be_bytes_def)

definition length_bytes :: "nat \<Rightarrow> byte list" where
  "length_bytes n = map (\<lambda>i. ucast (drop_bit (8 * i) (word_of_nat n :: 64 word))) (rev [0..<8])"

definition md_pad :: "byte list \<Rightarrow> byte list" where
  "md_pad m = m @ [0x80] @ replicate ((119 - length m mod 64) mod 64) 0 @ length_bytes (8 * length m)"

fun chunks :: "nat \<Rightarrow> nat \<Rightarrow> 'a list \<Rightarrow> 'a list list" where
  "chunks 0 n xs = []"
| "chunks (Suc k) n xs = take n xs # chunks k n (drop n xs)"

definition block_words :: "byte list \<Rightarrow> word32 list" where
  "block_words blk = map be_word (chunks 16 4 blk)"

definition blocks :: "byte list \<Rightarrow> word32 list list" where
  "blocks m = map block_words (chunks (length m div 64) 64 m)"

lemma length_md_pad: "length (md_pad m) mod 64 = 0"
proof -
  define r where "r = length m mod 64"
  have r: "r < 64" by (simp add: r_def)
  have "(119 - r) mod 64 = (if r \<le> 55 then 55 - r else 119 - r)"
  proof (cases "r \<le> 55")
    case True
    then have "119 - r = 64 + (55 - r)" by arith
    then have "(119 - r) mod 64 = (55 - r) mod 64" by (metis mod_add_self1)
    with True show ?thesis by simp
  qed (use r in simp)
  with r have "r + (9 + (119 - r) mod 64) = (if r \<le> 55 then 64 else 128)" by simp
  then have "(r + (9 + (119 - r) mod 64)) mod 64 = 0" by simp
  moreover have "length (md_pad m) = length m + (9 + (119 - r) mod 64)"
    by (simp add: md_pad_def length_bytes_def r_def)
  ultimately show ?thesis by (metis r_def mod_add_left_eq)
qed

section \<open>SHA-1\<close>

definition sha1_schedule :: "word32 list \<Rightarrow> word32 list" where
  "sha1_schedule blk = foldl (\<lambda>w t. w @ [word_rotl 1 (w ! (t - 3) XOR w ! (t - 8) XOR w ! (t - 14) XOR w ! (t - 16))])
     blk [16..<80]"

type_synonym sha1_state = "word32 \<times> word32 \<times> word32 \<times> word32 \<times> word32"

definition sha1_round :: "sha1_state \<Rightarrow> nat \<times> word32 \<Rightarrow> sha1_state" where
  "sha1_round st tw = (case st of (a, b, c, d, e) \<Rightarrow> case tw of (t, w) \<Rightarrow>
     let (f, k) = (if t < 20 then ((b AND c) OR (NOT b AND d), 0x5A827999)
                   else if t < 40 then (b XOR c XOR d, 0x6ED9EBA1)
                   else if t < 60 then ((b AND c) OR (b AND d) OR (c AND d), 0x8F1BBCDC)
                   else (b XOR c XOR d, 0xCA62C1D6))
     in (word_rotl 5 a + f + e + k + w, a, word_rotl 30 b, c, d))"

definition sha1_block :: "sha1_state \<Rightarrow> word32 list \<Rightarrow> sha1_state" where
  "sha1_block h blk = (case h of (h0, h1, h2, h3, h4) \<Rightarrow>
     case foldl sha1_round h (enumerate 0 (sha1_schedule blk)) of (a, b, c, d, e) \<Rightarrow>
       (h0 + a, h1 + b, h2 + c, h3 + d, h4 + e))"

definition sha1 :: "byte list \<Rightarrow> byte list" where
  "sha1 m = (case foldl sha1_block (0x67452301, 0xEFCDAB89, 0x98BADCFE, 0x10325476, 0xC3D2E1F0) (blocks (md_pad m)) of
     (a, b, c, d, e) \<Rightarrow> concat (map be_bytes [a, b, c, d, e]))"

lemma length_sha1 [simp]: "length (sha1 m) = 20"
  by (simp add: sha1_def split: prod.split)

section \<open>SHA-256\<close>

definition sha256_k :: "word32 list" where
  "sha256_k =
    [0x428a2f98, 0x71374491, 0xb5c0fbcf, 0xe9b5dba5, 0x3956c25b, 0x59f111f1, 0x923f82a4, 0xab1c5ed5,
     0xd807aa98, 0x12835b01, 0x243185be, 0x550c7dc3, 0x72be5d74, 0x80deb1fe, 0x9bdc06a7, 0xc19bf174,
     0xe49b69c1, 0xefbe4786, 0x0fc19dc6, 0x240ca1cc, 0x2de92c6f, 0x4a7484aa, 0x5cb0a9dc, 0x76f988da,
     0x983e5152, 0xa831c66d, 0xb00327c8, 0xbf597fc7, 0xc6e00bf3, 0xd5a79147, 0x06ca6351, 0x14292967,
     0x27b70a85, 0x2e1b2138, 0x4d2c6dfc, 0x53380d13, 0x650a7354, 0x766a0abb, 0x81c2c92e, 0x92722c85,
     0xa2bfe8a1, 0xa81a664b, 0xc24b8b70, 0xc76c51a3, 0xd192e819, 0xd6990624, 0xf40e3585, 0x106aa070,
     0x19a4c116, 0x1e376c08, 0x2748774c, 0x34b0bcb5, 0x391c0cb3, 0x4ed8aa4a, 0x5b9cca4f, 0x682e6ff3,
     0x748f82ee, 0x78a5636f, 0x84c87814, 0x8cc70208, 0x90befffa, 0xa4506ceb, 0xbef9a3f7, 0xc67178f2]"

definition sha256_schedule :: "word32 list \<Rightarrow> word32 list" where
  "sha256_schedule blk = foldl (\<lambda>w t.
     let s0 = word_rotr 7 (w ! (t - 15)) XOR word_rotr 18 (w ! (t - 15)) XOR drop_bit 3 (w ! (t - 15));
         s1 = word_rotr 17 (w ! (t - 2)) XOR word_rotr 19 (w ! (t - 2)) XOR drop_bit 10 (w ! (t - 2))
     in w @ [w ! (t - 16) + s0 + w ! (t - 7) + s1]) blk [16..<64]"

type_synonym sha256_state =
  "word32 \<times> word32 \<times> word32 \<times> word32 \<times> word32 \<times> word32 \<times> word32 \<times> word32"

definition sha256_round :: "sha256_state \<Rightarrow> word32 \<times> word32 \<Rightarrow> sha256_state" where
  "sha256_round st kw = (case st of (a, b, c, d, e, f, g, h) \<Rightarrow> case kw of (k, w) \<Rightarrow>
     let s1 = word_rotr 6 e XOR word_rotr 11 e XOR word_rotr 25 e;
         ch = (e AND f) XOR (NOT e AND g);
         t1 = h + s1 + ch + k + w;
         s0 = word_rotr 2 a XOR word_rotr 13 a XOR word_rotr 22 a;
         maj = (a AND b) XOR (a AND c) XOR (b AND c)
     in (t1 + (s0 + maj), a, b, c, d + t1, e, f, g))"

definition sha256_block :: "sha256_state \<Rightarrow> word32 list \<Rightarrow> sha256_state" where
  "sha256_block st blk = (case st of (h0, h1, h2, h3, h4, h5, h6, h7) \<Rightarrow>
     case foldl sha256_round st (zip sha256_k (sha256_schedule blk)) of (a, b, c, d, e, f, g, h) \<Rightarrow>
       (h0 + a, h1 + b, h2 + c, h3 + d, h4 + e, h5 + f, h6 + g, h7 + h))"

definition sha256 :: "byte list \<Rightarrow> byte list" where
  "sha256 m = (case foldl sha256_block
       (0x6a09e667, 0xbb67ae85, 0x3c6ef372, 0xa54ff53a, 0x510e527f, 0x9b05688c, 0x1f83d9ab, 0x5be0cd19)
       (blocks (md_pad m)) of
     (a, b, c, d, e, f, g, h) \<Rightarrow> concat (map be_bytes [a, b, c, d, e, f, g, h]))"

lemma length_sha256 [simp]: "length (sha256 m) = 32"
  by (simp add: sha256_def split: prod.split)

definition sha256_hexdigest :: "byte list \<Rightarrow> string" where
  "sha256_hexdigest m = hex (sha256 m)"

section \<open>UUIDs\<close>

text \<open>\<open>UUID(bytes=..., version=v)\<close>: the version nibble and the variant bits are overwritten.\<close>

definition uuid_of_bytes :: "nat \<Rightarrow> byte list \<Rightarrow> byte list" where
  "uuid_of_bytes v bs = bs[6 := (bs ! 6 AND 0x0F) OR word_of_nat (16 * v), 8 := (bs ! 8 AND 0x3F) OR 0x80]"

definition uuid_str :: "byte list \<Rightarrow> string" where
  "uuid_str bs = hex (take 4 bs) @ ''-'' @ hex (take 2 (drop 4 bs)) @ ''-'' @ hex (take 2 (drop 6 bs)) @ ''-'' @
     hex (take 2 (drop 8 bs)) @ ''-'' @ hex (take 6 (drop 10 bs))"

definition uuid5_str :: "byte list \<Rightarrow> string \<Rightarrow> string" where
  "uuid5_str ns name = uuid_str (uuid_of_bytes 5 (take 16 (sha1 (ns @ utf8 name))))"

text \<open>\<open>uuid.uuid4()\<close> from the 16 bytes \<open>os.urandom\<close> gave.\<close>

definition uuid4_str :: "byte list \<Rightarrow> string" where
  "uuid4_str entropy = uuid_str (uuid_of_bytes 4 entropy)"

lemma length_uuid_of_bytes [simp]: "length (uuid_of_bytes v bs) = length bs"
  by (simp add: uuid_of_bytes_def)

lemma length_uuid_str: "length bs = 16 \<Longrightarrow> length (uuid_str bs) = 36"
  by (simp add: uuid_str_def)

lemma uuid_str_version:
  assumes "length bs = 16"
  shows "uuid_str bs ! 14 = hex_char (unat (bs ! 6) div 16)"
proof -
  from assms obtain a b c d e f g bs' where "bs = a # b # c # d # e # f # g # bs'"
    by (auto simp: numeral_eq_Suc length_Suc_conv)
  then show ?thesis by (simp add: uuid_str_def hex_def hex_byte_def)
qed

lemma version_nibble:
  assumes "v < 16"
  shows "unat (((b :: byte) AND 0x0F) OR word_of_nat (16 * v)) div 16 = v"
proof -
  have "v \<in> set [0..<16]" using assms by simp
  then have "drop_bit 4 ((b AND 0x0F) OR word_of_nat (16 * v)) = (word_of_nat v :: byte)"
    by (simp add: upt_rec drop_bit_or drop_bit_and) (elim disjE; simp)
  then have "unat (drop_bit 4 ((b AND 0x0F) OR word_of_nat (16 * v))) = v"
    using assms by (simp add: unat_of_nat)
  then have "drop_bit 4 (unat ((b AND 0x0F) OR word_of_nat (16 * v))) = v" by (simp only: unat_drop_bit_eq)
  then show ?thesis by (simp only: drop_bit_eq_div) simp
qed

lemma uuid_version:
  assumes "length bs = 16" and "v < 16"
  shows "uuid_str (uuid_of_bytes v bs) ! 14 = hex_char v"
  using assms version_nibble [OF assms(2), of "bs ! 6"]
  by (simp add: uuid_str_version) (simp add: uuid_of_bytes_def)

lemma uuid5_str_version [simp]: "uuid5_str ns name ! 14 = CHR ''5''"
  by (simp add: uuid5_str_def uuid_version) (simp add: hex_char_def)

lemma uuid4_str_version: "length entropy = 16 \<Longrightarrow> uuid4_str entropy ! 14 = CHR ''4''"
  by (simp add: uuid4_str_def uuid_version) (simp add: hex_char_def)

lemma length_uuid5_str [simp]: "length (uuid5_str ns name) = 36"
  by (simp add: uuid5_str_def length_uuid_str)

lemma length_uuid4_str: "length entropy = 16 \<Longrightarrow> length (uuid4_str entropy) = 36"
  by (simp add: uuid4_str_def length_uuid_str)

end
