(* ===== verification/Ingestion.thy ===== *)
theory Ingestion
  imports Event_Queue Models Hashing
begin

text \<open>
  \<open>app/ingestion/service.py\<close>: the service that stamps an event with its server-side fields and
  enqueues it. The state is the queue and the \<open>_accepting\<close> flag; the clock reading and the 16 bytes of
  entropy behind \<open>uuid4\<close> are arguments.
\<close>

definition IDEMPOTENCY_NAMESPACE :: "byte list" where
  "IDEMPOTENCY_NAMESPACE =
     [0xa3, 0xb5, 0xc7, 0xd9, 0x1e, 0x2f, 0x4a, 0x6b, 0x8c, 0x0d, 0x12, 0x34, 0x56, 0x78, 0x90, 0xab]"

record ingestion_service =
  is_queue :: "event_document event_queue"
  is_accepting :: bool

definition new_ingestion :: "event_document event_queue \<Rightarrow> ingestion_service" where
  "new_ingestion q = \<lparr>is_queue = q, is_accepting = True\<rparr>"

definition stop_accepting :: "ingestion_service \<Rightarrow> ingestion_service" where
  "stop_accepting s = s\<lparr>is_accepting := False\<rparr>"

text \<open>\<open>key = idempotency_key.strip() if idempotency_key else None\<close>, and the truth test that follows.\<close>

definition effective_key :: "string option \<Rightarrow> string option" where
  "effective_key k = (case k of None \<Rightarrow> None | Some s \<Rightarrow>
     (if s = [] then None else if strip s = [] then None else Some (strip s)))"

definition event_id_for :: "byte list \<Rightarrow> string option \<Rightarrow> string" where
  "event_id_for entropy k = (case effective_key k of
     Some key \<Rightarrow> uuid5_str IDEMPOTENCY_NAMESPACE key | None \<Rightarrow> uuid4_str entropy)"

definition ingest ::
  "byte list \<Rightarrow> datetime \<Rightarrow> event_create \<Rightarrow> string option \<Rightarrow> (ingestion_service, event_document) io" where
  "ingest entropy now event idempotency_key s =
     (if \<not> is_accepting s then (Inl IngestionClosed, s)
      else let doc = EventDocument (event_id_for entropy idempotency_key) now event in
        case put_nowait doc (is_queue s) of
          (Inl e, q) \<Rightarrow> (Inl e, s\<lparr>is_queue := q\<rparr>)
        | (Inr _, q) \<Rightarrow> (Inr doc, s\<lparr>is_queue := q\<rparr>))"

section \<open>Lemmas\<close>

lemma effective_key_Some: "effective_key (Some s) = (if strip s = [] then None else Some (strip s))"
  by (auto simp: effective_key_def strip_def)

lemma effective_key_strip: "effective_key (Some (strip s)) = effective_key (Some s)"
  by (simp add: effective_key_Some)

lemma ingest_closed: "\<not> is_accepting s \<Longrightarrow> ingest ent now ev k s = (Inl IngestionClosed, s)"
  by (simp add: ingest_def)

lemma ingest_full:
  "is_accepting s \<Longrightarrow> full (is_queue s) \<Longrightarrow> ingest ent now ev k s = (Inl QueueFull, s)"
  by (simp add: ingest_def put_nowait_def)

lemma ingest_ok:
  assumes "is_accepting s" and "\<not> full (is_queue s)"
  shows "ingest ent now ev k s =
    (Inr (EventDocument (event_id_for ent k) now ev),
     s\<lparr>is_queue := (is_queue s)\<lparr>q_items := q_items (is_queue s) @ [EventDocument (event_id_for ent k) now ev],
       q_unfinished := Suc (q_unfinished (is_queue s))\<rparr>\<rparr>)"
  using assms by (simp add: ingest_def put_nowait_def Let_def)

lemma ingest_Inr:
  assumes "ingest ent now ev k s = (Inr doc, s')"
  shows "is_accepting s" "\<not> full (is_queue s)" "doc = EventDocument (event_id_for ent k) now ev"
    "q_items (is_queue s') = q_items (is_queue s) @ [doc]"
    "q_unfinished (is_queue s') = Suc (q_unfinished (is_queue s))" "is_accepting s'"
  using assms
  by (auto simp: ingest_def put_nowait_def Let_def split: if_splits)

lemma length_event_id_for: "length ent = 16 \<Longrightarrow> length (event_id_for ent k) = 36"
  by (auto simp: event_id_for_def length_uuid4_str split: option.split)

section \<open>Properties\<close>

text \<open>
  C27: \<open>ingest\<close> on every branch. A stopped service raises \<open>IngestionClosed\<close>, a full queue
  \<open>QueueFull\<close>, both without touching the service; otherwise exactly one document is appended to the queue
  and returned, with the client's six fields, the given receipt time and a 36-character id.
\<close>

theorem ingest_branches:
  assumes "length entropy = 16"
  shows "(\<not> is_accepting s \<longrightarrow> ingest entropy now ev k s = (Inl IngestionClosed, s)) \<and>
    (is_accepting s \<and> full (is_queue s) \<longrightarrow> ingest entropy now ev k s = (Inl QueueFull, s)) \<and>
    (is_accepting s \<and> \<not> full (is_queue s) \<longrightarrow>
      (\<exists>doc s'. ingest entropy now ev k s = (Inr doc, s') \<and>
        q_items (is_queue s') = q_items (is_queue s) @ [doc] \<and> is_accepting s' \<and>
        dump_create doc = dump_create ev \<and> received_at doc = now \<and> length (event_id doc) = 36))"
  using assms
  by (auto simp: ingest_closed ingest_full ingest_ok dump_create_def length_event_id_for)

theorem ingest_branches_witness:
  "ingest (replicate 16 0) (utc_datetime 0) sample_create None \<lparr>is_queue = new_queue 1, is_accepting = False\<rparr> =
     (Inl IngestionClosed, \<lparr>is_queue = new_queue 1, is_accepting = False\<rparr>)"
  using ingest_branches [of "replicate 16 0" "\<lparr>is_queue = new_queue 1, is_accepting = False\<rparr>" "utc_datetime 0" sample_create None]
  by simp

text \<open>
  C31: which submissions share an id. Two submissions whose keys are equal after stripping (and not blank)
  get the same \<open>event_id\<close> whatever the entropy and the bodies; a submission without a usable key never
  gets the id of a keyed one, because the version digit of the UUID differs; and a blank key counts as
  no key.
\<close>

theorem idempotency_key_ids:
  "(strip k1 = strip k2 \<and> strip k1 \<noteq> [] \<longrightarrow> event_id_for ent1 (Some k1) = event_id_for ent2 (Some k2)) \<and>
   (effective_key k = None \<and> effective_key k' \<noteq> None \<and> length ent1 = 16 \<longrightarrow>
      event_id_for ent1 k \<noteq> event_id_for ent2 k') \<and>
   (strip k1 = [] \<longrightarrow> event_id_for ent1 (Some k1) = event_id_for ent1 None)"
proof (intro conjI impI)
  show "event_id_for ent1 (Some k1) = event_id_for ent2 (Some k2)"
    if "strip k1 = strip k2 \<and> strip k1 \<noteq> []"
    using that by (auto simp: event_id_for_def effective_key_Some)
  show "event_id_for ent1 k \<noteq> event_id_for ent2 k'"
    if "effective_key k = None \<and> effective_key k' \<noteq> None \<and> length ent1 = 16"
  proof
    assume "event_id_for ent1 k = event_id_for ent2 k'"
    then have "event_id_for ent1 k ! 14 = event_id_for ent2 k' ! 14" by simp
    with that show False by (auto simp: event_id_for_def uuid4_str_version)
  qed
qed (simp add: event_id_for_def effective_key_def)

theorem idempotency_key_ids_witness:
  "event_id_for (replicate 16 0) (Some '' k '') = event_id_for (replicate 16 1) (Some ''k'')"
proof -
  have "strip '' k '' = strip ''k''" "strip '' k '' \<noteq> []"
    by (simp_all add: strip_def py_space_def)
  with idempotency_key_ids [of "'' k ''" "''k''" "replicate 16 0" "replicate 16 1" None None] show ?thesis by simp
qed

end
