(* ===== verification/Mongo_Queries.thy ===== *)
theory Mongo_Queries
  imports Mongo_Store
begin

text \<open>
  The rest of \<open>MongoStore\<close> (\<open>app/storage/mongo.py\<close>) under the driver's contract: what the reads answer (filters,
  pages, aggregation, the rollup) and what the outbox and dead-letter updates change.
\<close>

section \<open>What the updates keep\<close>

text \<open>The collections hold documents with the same ids, in the same places.\<close>

definition same_ids :: "'m mongo_view \<Rightarrow> 'm mongo_store \<Rightarrow> 'm mongo_store \<Rightarrow> bool" where
  "same_ids V s s' \<longleftrightarrow> (\<forall>c. map doc_id (store_docs V s' c) = map doc_id (store_docs V s c))"

lemma same_idsD:
  assumes "same_ids V s s'"
  shows "stored_ids V s' c = stored_ids V s c" and "store_inv V s \<Longrightarrow> store_inv V s'"
proof -
  have eq: "map doc_id (store_docs V s' c) = map doc_id (store_docs V s c)" for c
    using assms by (simp add: same_ids_def)
  then have set: "doc_id ` set (store_docs V s' c) = doc_id ` set (store_docs V s c)" for c
    by (metis list.set_map)
  then show "stored_ids V s' c = stored_ids V s c" by (simp add: stored_ids_def)
  show "store_inv V s'" if "store_inv V s"
    unfolding store_inv_def
  proof (intro allI conjI ballI)
    fix c d
    show "distinct (map doc_id (store_docs V s' c))" using that by (simp add: store_inv_def eq)
    assume "d \<in> set (store_docs V s' c)"
    then have "doc_id d \<in> doc_id ` set (store_docs V s c)" using set by blast
    with that show "\<exists>i. doc_id d = Some (PStr i)" by (auto simp: store_inv_def)
  qed
qed

lemma id_matches:
  assumes "store_inv V s" and "d \<in> set (store_docs V s c)"
  shows "mongo_matches [(''_id'', PStr i)] d \<longleftrightarrow> doc_id d = Some (PStr i)"
proof -
  from assms obtain j where "doc_id d = Some (PStr j)" by (auto simp: store_inv_def)
  then show ?thesis by (auto simp: mongo_matches_def doc_id_def)
qed

lemma set_fields_doc_id: "set_fields sets d d' \<Longrightarrow> dict_get sets ''_id'' = None \<Longrightarrow> doc_id d' = doc_id d"
  by (simp add: set_fields_def doc_id_def)

text \<open>The outbox marker: exactly the listed events are flipped, nothing else changes.\<close>

definition marked :: "string list \<Rightarrow> pydict \<Rightarrow> pydict \<Rightarrow> bool" where
  "marked ids d d' \<longleftrightarrow> (\<exists>i \<in> set ids. doc_id d = Some (PStr i)) \<and> set_fields [(''es_indexed'', PBool True)] d d'"

lemma in_matches:
  assumes "doc_id d = Some (PStr j)"
  shows "mongo_matches [(''_id'', PDict [(''$in'', PList (map PStr ids))])] d \<longleftrightarrow> j \<in> set ids"
  using assms by (auto simp: mongo_matches_def doc_id_def list_ex_iff)

lemma mark_indexed_effect:
  assumes "mongo_contract D V" and "store_inv V s" and "mark_indexed D ids s = (r, s')"
  shows "(\<forall>c. c \<noteq> COLLECTION \<longrightarrow> store_docs V s' c = store_docs V s c) \<and>
    list_all2 (\<lambda>d d'. marked ids d d' \<or> ((r = Inr () \<longrightarrow> \<not> (\<exists>i \<in> set ids. doc_id d = Some (PStr i))) \<and> d' = d))
      (store_docs V s COLLECTION) (store_docs V s' COLLECTION)"
proof (cases "ids = []")
  case True
  with assms(3) show ?thesis by (auto simp: mark_indexed_def intro: list_all2_refl)
next
  case False
  let ?f = "[(''_id'', PDict [(''$in'', PList (map PStr ids))])]"
  from assms(3) False have "with_collection COLLECTION (\<lambda>ns. md_update_many D ns ?f
      [(''$set'', PDict [(''es_indexed'', PBool True)])]) s = (r, s')" by (simp add: mark_indexed_def)
  then show ?thesis
  proof (cases rule: with_collection_cases)
    case (call m m')
    have "filter_covered ?f" by (simp add: filter_covered_def)
    with mongo_contractD(6) [OF assms(1)] call(2) have *:
      "\<forall>ns'. ns' \<noteq> (ms_db_name s, COLLECTION) \<longrightarrow> V m' ns' = V m ns'"
      "list_all2 (\<lambda>d d'. (mongo_matches ?f d \<and> set_fields [(''es_indexed'', PBool True)] d d') \<or>
         ((r = Inr () \<longrightarrow> \<not> mongo_matches ?f d) \<and> d' = d)) (V m (ms_db_name s, COLLECTION)) (V m' (ms_db_name s, COLLECTION))"
      unfolding update_many_contract_def by blast+
    have match: "mongo_matches ?f d \<longleftrightarrow> (\<exists>i \<in> set ids. doc_id d = Some (PStr i))"
      if "d \<in> set (store_docs V s COLLECTION)" for d
    proof -
      from that assms(2) obtain j where "doc_id d = Some (PStr j)" by (auto simp: store_inv_def)
      with in_matches [OF this] show ?thesis by auto
    qed
    have "list_all2 (\<lambda>d d'. marked ids d d' \<or> ((r = Inr () \<longrightarrow> \<not> (\<exists>i \<in> set ids. doc_id d = Some (PStr i))) \<and> d' = d))
      (store_docs V s COLLECTION) (store_docs V s' COLLECTION)"
      using *(2) call match unfolding marked_def
      by (auto simp: store_docs_def list_all2_conv_all_nth)
    with * call show ?thesis by (auto simp: store_docs_def)
  qed (auto intro: list_all2_refl)
qed

lemma list_all2_map_eq: "list_all2 (\<lambda>x y. f y = f x) xs ys \<Longrightarrow> map f ys = map f xs"
  by (induction rule: list_all2_induct) auto

lemma mark_indexed_same_ids:
  assumes "mongo_contract D V" and "store_inv V s" and "mark_indexed D ids s = (r, s')"
  shows "same_ids V s s'"
proof -
  note eff = mark_indexed_effect [OF assms]
  have "list_all2 (\<lambda>d d'. doc_id d' = doc_id d) (store_docs V s COLLECTION) (store_docs V s' COLLECTION)"
    by (rule list_all2_mono [OF eff [THEN conjunct2]]) (auto simp: marked_def dest: set_fields_doc_id)
  then have "map doc_id (store_docs V s' COLLECTION) = map doc_id (store_docs V s COLLECTION)"
    by (rule list_all2_map_eq)
  with eff show ?thesis unfolding same_ids_def by (metis (no_types))
qed

text \<open>Deleting a dead letter removes that entry and nothing else.\<close>

lemma delete_dead_letter_effect:
  assumes "mongo_contract D V" and inv: "store_inv V s" and "delete_dead_letter D i s = (r, s')"
  shows "(\<forall>c. c \<noteq> DEAD_LETTER \<longrightarrow> store_docs V s' c = store_docs V s c) \<and>
    (store_docs V s' DEAD_LETTER = store_docs V s DEAD_LETTER \<or>
     store_docs V s' DEAD_LETTER = filter (\<lambda>d. doc_id d \<noteq> Some (PStr i)) (store_docs V s DEAD_LETTER)) \<and>
    (\<forall>b. r = Inr b \<longrightarrow> (b \<longleftrightarrow> i \<in> stored_ids V s DEAD_LETTER) \<and> i \<notin> stored_ids V s' DEAD_LETTER)"
proof -
  let ?f = "[(''_id'', PStr i)]"
  obtain r0 where call0: "with_collection DEAD_LETTER (\<lambda>ns. md_delete_one D ns ?f) s = (r0, s')"
    and r: "r = (case r0 of Inl e \<Rightarrow> Inl e | Inr n \<Rightarrow> Inr (0 < n))"
    using assms(3) unfolding delete_dead_letter_def by (cases rule: io_bind_cases) auto
  show ?thesis using call0
  proof (cases rule: with_collection_cases)
    case unconnected
    with r show ?thesis by simp
  next
    case (call m m')
    let ?ns = "(ms_db_name s, DEAD_LETTER)"
    have docs: "store_docs V s c = V m (ms_db_name s, c)" "store_docs V s' c = V m' (ms_db_name s, c)" for c
      using call by (simp_all add: store_docs_def)
    note other = delete_contractD(1) [OF mongo_contractD(8) [OF assms(1)] call(2)]
      and del = delete_contractD(2) [OF mongo_contractD(8) [OF assms(1)] call(2)]
    have match: "mongo_matches ?f d \<longleftrightarrow> doc_id d = Some (PStr i)" if "d \<in> set (V m ?ns)" for d
      using id_matches [OF inv, of d DEAD_LETTER] that by (simp add: docs)
    have "(V m' ?ns = V m ?ns \<or> V m' ?ns = filter (\<lambda>d. doc_id d \<noteq> Some (PStr i)) (V m ?ns)) \<and>
      (\<forall>b. r = Inr b \<longrightarrow> (b \<longleftrightarrow> Some (PStr i) \<in> doc_id ` set (V m ?ns)) \<and> Some (PStr i) \<notin> doc_id ` set (V m' ?ns))"
      using del
    proof
      assume "V m' ?ns = V m ?ns \<and> (\<forall>n. r0 = Inr n \<longrightarrow> n = 0 \<and> (\<forall>d \<in> set (V m ?ns). \<not> mongo_matches ?f d))"
      then show ?thesis using match r by (auto split: sum.splits)
    next
      assume "\<exists>xs d ys. V m ?ns = xs @ d # ys \<and> mongo_matches ?f d \<and> V m' ?ns = xs @ ys \<and> (\<forall>n. r0 = Inr n \<longrightarrow> n = 1)"
      then obtain xs d ys where old: "V m ?ns = xs @ d # ys" and d: "mongo_matches ?f d"
        and new: "V m' ?ns = xs @ ys" and n: "\<forall>n. r0 = Inr n \<longrightarrow> n = 1" by blast
      from d match have di: "doc_id d = Some (PStr i)" by (simp add: old)
      from inv have "distinct (map doc_id (V m ?ns))" by (simp add: store_inv_def flip: docs(1))
      then have rest: "\<forall>d' \<in> set (xs @ ys). doc_id d' \<noteq> Some (PStr i)" by (auto simp: old di image_iff)
      then have "filter (\<lambda>d. doc_id d \<noteq> Some (PStr i)) (V m ?ns) = V m' ?ns" by (simp add: old new di filter_id_conv)
      with rest di n r show ?thesis by (auto simp: old new split: sum.splits)
    qed
    moreover have "\<forall>c. c \<noteq> DEAD_LETTER \<longrightarrow> store_docs V s' c = store_docs V s c"
    proof (intro allI impI)
      fix c
      assume "c \<noteq> DEAD_LETTER"
      with other have "V m' (ms_db_name s, c) = V m (ms_db_name s, c)" by simp
      then show "store_docs V s' c = store_docs V s c" by (simp only: docs)
    qed
    ultimately show ?thesis unfolding stored_ids_def docs by simp
  qed
qed

lemma delete_dead_letter_ids:
  assumes "mongo_contract D V" and "store_inv V s" and "delete_dead_letter D i s = (r, s')"
  shows "store_inv V s'" and "stored_ids V s' COLLECTION = stored_ids V s COLLECTION"
    and "stored_ids V s DEAD_LETTER \<subseteq> insert i (stored_ids V s' DEAD_LETTER)"
proof -
  note eff = delete_dead_letter_effect [OF assms]
  from eff have other: "\<And>c. c \<noteq> DEAD_LETTER \<Longrightarrow> store_docs V s' c = store_docs V s c"
    and dead: "store_docs V s' DEAD_LETTER = store_docs V s DEAD_LETTER \<or>
     store_docs V s' DEAD_LETTER = filter (\<lambda>d. doc_id d \<noteq> Some (PStr i)) (store_docs V s DEAD_LETTER)" by auto
  show "stored_ids V s' COLLECTION = stored_ids V s COLLECTION" by (simp add: stored_ids_def other)
  show "stored_ids V s DEAD_LETTER \<subseteq> insert i (stored_ids V s' DEAD_LETTER)"
  proof
    fix j
    assume "j \<in> stored_ids V s DEAD_LETTER"
    then obtain d where "d \<in> set (store_docs V s DEAD_LETTER)" "doc_id d = Some (PStr j)"
      by (auto simp: stored_ids_def)
    with dead show "j \<in> insert i (stored_ids V s' DEAD_LETTER)"
      by (cases "j = i") (auto simp: stored_ids_def image_iff intro!: bexI [of _ d])
  qed
  show "store_inv V s'"
    unfolding store_inv_def
  proof
    fix c
    from assms(2) have old: "distinct (map doc_id (store_docs V s c))" "\<forall>d \<in> set (store_docs V s c). \<exists>i. doc_id d = Some (PStr i)"
      by (simp_all add: store_inv_def)
    show "distinct (map doc_id (store_docs V s' c)) \<and> (\<forall>d \<in> set (store_docs V s' c). \<exists>i. doc_id d = Some (PStr i))"
    proof (cases "c = DEAD_LETTER")
      case True
      with old dead show ?thesis by (auto simp: distinct_map_filter_id)
    qed (use old other in simp)
  qed
qed

section \<open>The documents of the event collection\<close>

text \<open>
  Every document of the collection is the stored form of an event, with the outbox marker at either value:
  \<open>bulk_write\<close> and \<open>mark_indexed\<close>, the only writers, keep it so.
\<close>

definition event_doc :: "event_document \<Rightarrow> bool \<Rightarrow> pydict \<Rightarrow> bool" where
  "event_doc e b d \<longleftrightarrow> (\<forall>k. dict_get d k =
     (if k = ''es_indexed'' then Some (PBool b) else map_option bson (dict_get (to_doc e) k)))"

definition events_inv :: "'m mongo_view \<Rightarrow> 'm mongo_store \<Rightarrow> bool" where
  "events_inv V s \<longleftrightarrow> store_inv V s \<and> (\<forall>d \<in> set (store_docs V s COLLECTION). \<exists>e b. event_doc e b d)"

lemma stored_event_doc: "stored_as (to_doc e) d \<Longrightarrow> event_doc e False d"
  by (simp add: stored_as_def event_doc_def to_doc_gets)

lemma marked_event_doc: "event_doc e b d \<Longrightarrow> marked ids d d' \<Longrightarrow> event_doc e True d'"
  by (simp add: event_doc_def marked_def set_fields_def)

lemma bulk_write_events_inv:
  assumes "mongo_contract D V" and "events_inv V s" and "bulk_write D events s = (r, s')"
  shows "events_inv V s'"
proof -
  from assms(2) have inv: "store_inv V s" and old: "\<forall>d \<in> set (store_docs V s COLLECTION). \<exists>e b. event_doc e b d"
    by (simp_all add: events_inv_def)
  from assms(3) show ?thesis
  proof (cases rule: bulk_write_cases)
    case 1
    with assms(2) show ?thesis by simp
  next
    case 2
    obtain news where new: "store_docs V s' COLLECTION = store_docs V s COLLECTION @ news"
      "\<And>n. n \<in> set news \<Longrightarrow> \<exists>d \<in> set (bulk_docs events). stored_as d n"
      by (rule insert_skipping_news [OF assms(1) bulk_docs_string_ids 2(2)]) blast
    have "\<exists>e b. event_doc e b n" if "n \<in> set news" for n
      using new(2) [OF that] by (auto dest!: bulk_docs_from_events stored_event_doc)
    with old insert_skipping_inv [OF assms(1) bulk_docs_string_ids 2(2) inv] show ?thesis
      unfolding events_inv_def new(1) by auto
  qed
qed

lemma mark_indexed_events_inv:
  assumes "mongo_contract D V" and "events_inv V s" and "mark_indexed D ids s = (r, s')"
  shows "events_inv V s'"
proof -
  from assms(2) have inv: "store_inv V s" and old: "\<forall>d \<in> set (store_docs V s COLLECTION). \<exists>e b. event_doc e b d"
    by (simp_all add: events_inv_def)
  note eff = mark_indexed_effect [OF assms(1) inv assms(3), THEN conjunct2]
  have "\<exists>e b. event_doc e b d'" if d': "d' \<in> set (store_docs V s' COLLECTION)" for d'
  proof -
    from d' obtain n where n: "n < length (store_docs V s' COLLECTION)" "store_docs V s' COLLECTION ! n = d'"
      by (auto simp: in_set_conv_nth)
    with eff have "store_docs V s COLLECTION ! n \<in> set (store_docs V s COLLECTION)"
      "marked ids (store_docs V s COLLECTION ! n) d' \<or> d' = store_docs V s COLLECTION ! n"
      by (auto simp: list_all2_conv_all_nth)
    then obtain d where "d \<in> set (store_docs V s COLLECTION)" "marked ids d d' \<or> d' = d" by blast
    with old marked_event_doc show ?thesis by blast
  qed
  with same_idsD(2) [OF mark_indexed_same_ids [OF assms(1) inv assms(3)] inv] show ?thesis
    by (simp add: events_inv_def)
qed

section \<open>Filters\<close>

text \<open>What a query for events means: optional exact values and an inclusive range, at millisecond precision.\<close>

definition wanted :: "string option \<Rightarrow> string \<Rightarrow> bool" where
  "wanted q v \<longleftrightarrow> q = None \<or> q = Some [] \<or> q = Some v"

definition in_range :: "datetime option \<Rightarrow> datetime option \<Rightarrow> datetime \<Rightarrow> bool" where
  "in_range from_ts to_ts t \<longleftrightarrow>
     (\<forall>a. from_ts = Some a \<longrightarrow> dt_micros (bson_date a) \<le> dt_micros (bson_date t)) \<and>
     (\<forall>b. to_ts = Some b \<longrightarrow> dt_micros (bson_date t) \<le> dt_micros (bson_date b))"

definition selected ::
  "string option \<Rightarrow> string option \<Rightarrow> string option \<Rightarrow> datetime option \<Rightarrow> datetime option \<Rightarrow> event_document \<Rightarrow> bool" where
  "selected et uid url from_ts to_ts e \<longleftrightarrow> wanted et (event_type e) \<and> wanted uid (user_id e) \<and>
     wanted url (source_url e) \<and> in_range from_ts to_ts (timestamp e)"

lemma event_doc_gets:
  assumes "event_doc e b d"
  shows "dict_get d ''event_type'' = Some (PStr (event_type e))" "dict_get d ''user_id'' = Some (PStr (user_id e))"
    "dict_get d ''source_url'' = Some (PStr (source_url e))" "dict_get d ''timestamp'' = Some (PDate (bson_date (timestamp e)))"
    "dict_get d ''received_at'' = Some (PDate (bson_date (received_at e)))" "dict_get d ''es_indexed'' = Some (PBool b)"
    "doc_id d = Some (PStr (event_id e))"
  using assms by (simp_all add: event_doc_def to_doc_gets doc_id_def model_dump_def dump_create_def)

lemma opt_filter_matches:
  assumes "dict_get d k = Some (PStr v)"
  shows "mongo_matches (opt_filter k q) d \<longleftrightarrow> wanted q v"
  using assms by (cases q) (auto simp: opt_filter_def mongo_matches_def wanted_def)

lemma mongo_matches_append [simp]: "mongo_matches (f @ g) d \<longleftrightarrow> mongo_matches f d \<and> mongo_matches g d"
  by (simp add: mongo_matches_def)

lemma timestamp_clause_matches:
  assumes "dict_get d ''timestamp'' = Some (PDate (bson_date t))"
  shows "mongo_matches (case timestamp_clause from_ts to_ts of None \<Rightarrow> [] | Some c \<Rightarrow> [(''timestamp'', PDict c)]) d
    \<longleftrightarrow> in_range from_ts to_ts t"
  using assms
  by (cases from_ts; cases to_ts) (auto simp: timestamp_clause_def Let_def mongo_matches_def in_range_def)

lemma events_filter_selects:
  assumes "event_doc e b d"
  shows "mongo_matches (events_filter et uid url from_ts to_ts) d \<longleftrightarrow> selected et uid url from_ts to_ts e"
  using event_doc_gets [OF assms]
  by (simp add: events_filter_def selected_def opt_filter_matches timestamp_clause_matches)

lemma events_filter_covered: "filter_covered (events_filter et uid url from_ts to_ts)"
  by (auto simp: events_filter_def opt_filter_def timestamp_clause_def Let_def filter_covered_def split: option.split)

lemma selected_docs_eq:
  assumes "\<forall>d \<in> set ds. event_doc (ev d) (bo d) d"
  shows "filter (mongo_matches (events_filter et uid url from_ts to_ts)) ds =
    filter (\<lambda>d. selected et uid url from_ts to_ts (ev d)) ds"
  using assms events_filter_selects by (intro filter_cong) auto

section \<open>Pages of events\<close>

definition newest_first :: "pydict \<Rightarrow> pydict \<Rightarrow> bool" where
  "newest_first = sort_le (''timestamp'', -1)"

text \<open>A document as a client sees it: the event's fields, without \<open>_id\<close> and the outbox marker.\<close>

definition hide_internal :: "pydict \<Rightarrow> pydict" where
  "hide_internal = project_out [(''_id'', PInt 0), (''es_indexed'', PInt 0)]"

definition event_view :: "event_document \<Rightarrow> pydict \<Rightarrow> bool" where
  "event_view e d \<longleftrightarrow> (\<forall>k. dict_get d k = map_option bson (dict_get (model_dump e) k))"

definition matching :: "'m mongo_view \<Rightarrow> 'm mongo_store \<Rightarrow> pydict \<Rightarrow> pydict list" where
  "matching V s filt = filter (mongo_matches filt) (store_docs V s COLLECTION)"

lemma model_dump_no_marker: "dict_get (model_dump e) ''_id'' = None" "dict_get (model_dump e) ''es_indexed'' = None"
  by (simp_all add: model_dump_def dump_create_def)

lemma hide_internal_view: "event_doc e b d \<Longrightarrow> event_view e (hide_internal d)"
  by (auto simp: event_view_def hide_internal_def dict_get_project_out event_doc_def to_doc_gets model_dump_no_marker)

text \<open>A find through the store answers with a window of some ordering of the matching documents.\<close>

lemma find_window:
  assumes "mongo_contract D V" and "filter_covered (fq_filter q)" and "0 < fq_limit q"
    and "with_collection coll (\<lambda>ns. md_find D ns q) s = (Inr ds, s')"
  obtains ordered where "mset ordered = mset (filter (mongo_matches (fq_filter q)) (store_docs V s coll))"
    "sorted_wrt (sort_le (fq_sort q)) ordered"
    "ds = map (project_out (fq_projection q)) (take (fq_limit q) (drop (fq_skip q) ordered))"
    "store_docs V s' = store_docs V s"
  using assms(4)
proof (cases rule: with_collection_cases)
  case (call m m')
  have "\<exists>ordered. mset ordered = mset (filter (mongo_matches (fq_filter q)) (V m (ms_db_name s, coll))) \<and>
      sorted_wrt (sort_le (fq_sort q)) ordered \<and>
      ds = map (project_out (fq_projection q)) (take (fq_limit q) (drop (fq_skip q) ordered))"
    using mongo_contractD(2) [OF assms(1), unfolded find_contract_def, THEN spec, THEN spec, THEN spec, THEN spec, THEN spec,
        THEN mp, OF call(2)] assms(2,3) by blast
  moreover have "store_docs V s' = store_docs V s"
    by (rule with_collection_kept [OF _ assms(4)]) (rule mongo_contractD(9) [OF assms(1)])
  ultimately show thesis using call(1) that by (auto simp: store_docs_def)
qed simp

lemma count_matching:
  assumes "mongo_contract D V" and "filter_covered filt"
    and "with_collection coll (\<lambda>ns. md_count_documents D ns filt) s = (Inr n, s')"
  shows "n = length (filter (mongo_matches filt) (store_docs V s coll))" and "store_docs V s' = store_docs V s"
proof -
  show "store_docs V s' = store_docs V s"
    by (rule with_collection_kept [OF _ assms(3)]) (rule mongo_contractD(11) [OF assms(1)])
  from assms(3) show "n = length (filter (mongo_matches filt) (store_docs V s coll))"
  proof (cases rule: with_collection_cases)
    case (call m m')
    with mongo_contractD(4) [OF assms(1)] assms(2) show ?thesis
      by (auto simp: count_contract_def store_docs_def)
  qed simp
qed

lemma find_events_window:
  assumes "mongo_contract D V"
    and run: "find_events D et uid url from_ts to_ts limit offset with_total s = (Inr (page, hm, tot), s')"
  obtains ordered where "mset ordered = mset (matching V s (events_filter et uid url from_ts to_ts))"
    "sorted_wrt newest_first ordered" "page = map hide_internal (take limit (drop offset ordered))"
    "hm \<longleftrightarrow> offset + limit < length ordered" "tot = (if with_total then Some (length ordered) else None)"
    "store_docs V s' = store_docs V s"
proof -
  let ?f = "events_filter et uid url from_ts to_ts"
  let ?q = "\<lparr>fq_filter = ?f, fq_projection = [(''_id'', PInt 0), (''es_indexed'', PInt 0)],
     fq_sort = (''timestamp'', -1), fq_skip = offset, fq_limit = limit + 1\<rparr>"
  from run obtain docs s1 where find: "with_collection COLLECTION (\<lambda>ns. md_find D ns ?q) s = (Inr docs, s1)"
    and rest: "page = take limit docs" "hm \<longleftrightarrow> limit < length docs"
      "(if with_total then io_bind (with_collection COLLECTION (\<lambda>ns. md_count_documents D ns ?f))
             (\<lambda>n. io_return (page, hm, Some n)) else io_return (page, hm, None)) s1 = (Inr (page, hm, tot), s')"
    unfolding find_events_def Let_def by (elim io_bind_cases) (auto split: if_splits simp: io_bind_def split: prod.splits sum.splits)
  obtain ordered where o: "mset ordered = mset (filter (mongo_matches ?f) (store_docs V s COLLECTION))"
    "sorted_wrt newest_first ordered" "docs = map hide_internal (take (Suc limit) (drop offset ordered))"
    "store_docs V s1 = store_docs V s"
    by (rule find_window [OF assms(1) _ _ find]) (simp_all add: events_filter_covered newest_first_def hide_internal_def)
  have page: "page = map hide_internal (take limit (drop offset ordered))"
    by (simp add: rest(1) o(3) take_map)
  have hm: "hm \<longleftrightarrow> offset + limit < length ordered" by (auto simp: rest(2) o(3))
  have "tot = (if with_total then Some (length ordered) else None) \<and> store_docs V s' = store_docs V s"
  proof (cases with_total)
    case True
    with rest(3) obtain n where n: "with_collection COLLECTION (\<lambda>ns. md_count_documents D ns ?f) s1 = (Inr n, s')" "tot = Some n"
      by (auto elim: io_bind_cases)
    from count_matching [OF assms(1) events_filter_covered n(1)] o(1,4) n(2) True show ?thesis
      by (metis size_mset)
  qed (use rest(3) o(4) in simp)
  with that [OF _ o(2) page hm] o(1) show thesis by (simp add: matching_def)
qed

text \<open>
  C19: a page of events. When \<open>find_events\<close> answers, the page is the window \<open>[offset, offset + limit)\<close> of the
  events that satisfy the query, newest first; each is shown with exactly its own fields (dates at
  millisecond precision), \<open>has_more\<close> says whether the window ends before the list does, the total, when asked
  for, is the length of the list, and nothing in the store changes.
\<close>

theorem find_events_page:
  assumes "mongo_contract D V" and "events_inv V s"
    and "find_events D et uid url from_ts to_ts limit offset with_total s = (Inr (page, hm, tot), s')"
  shows "\<exists>ordered.
    mset ordered = mset (filter (\<lambda>d. \<exists>e b. event_doc e b d \<and> selected et uid url from_ts to_ts e) (store_docs V s COLLECTION)) \<and>
    sorted_wrt newest_first ordered \<and> page = map hide_internal (take limit (drop offset ordered)) \<and>
    (hm \<longleftrightarrow> offset + limit < length ordered) \<and> tot = (if with_total then Some (length ordered) else None) \<and>
    (\<forall>d \<in> set page. \<exists>e. selected et uid url from_ts to_ts e \<and> event_view e d) \<and> store_docs V s' = store_docs V s"
proof (rule find_events_window [OF assms(1,3)])
  let ?sel = "\<lambda>d. \<exists>e b. event_doc e b d \<and> selected et uid url from_ts to_ts e"
  fix ordered
  assume o: "mset ordered = mset (matching V s (events_filter et uid url from_ts to_ts))" "sorted_wrt newest_first ordered"
    "page = map hide_internal (take limit (drop offset ordered))" "hm \<longleftrightarrow> offset + limit < length ordered"
    "tot = (if with_total then Some (length ordered) else None)" "store_docs V s' = store_docs V s"
  have sel: "mongo_matches (events_filter et uid url from_ts to_ts) d \<longleftrightarrow> ?sel d" if "d \<in> set (store_docs V s COLLECTION)" for d
    using assms(2) that events_filter_selects unfolding events_inv_def by blast
  then have eq: "matching V s (events_filter et uid url from_ts to_ts) = filter ?sel (store_docs V s COLLECTION)"
    unfolding matching_def by (rule filter_cong [OF refl])
  have "\<exists>e. selected et uid url from_ts to_ts e \<and> event_view e d" if "d \<in> set page" for d
  proof -
    from that o(3) obtain d0 where d0: "d0 \<in> set ordered" "d = hide_internal d0" by (auto dest: in_set_takeD in_set_dropD)
    from d0(1) have "d0 \<in># mset ordered" by simp
    then have "?sel d0" unfolding o(1) eq by simp
    with hide_internal_view show ?thesis unfolding d0(2) by blast
  qed
  with o eq show ?thesis by (intro exI [of _ ordered]) simp
qed

lemma mem_written_event_doc: "event_doc (sample_event i) False (bson_doc (to_doc (sample_event i)))"
  by (rule stored_event_doc) simp

lemma mem_written_events_inv: "events_inv mem_view (mem_written i)"
  by (auto simp: events_inv_def mem_written_inv mem_written_docs intro: mem_written_event_doc)

lemma mem_fresh [simp]: "guarded op (mem_new []\<lparr>mm_docs := ds\<rparr>) = op NoFault (mem_new []\<lparr>mm_docs := ds\<rparr>)"
  by (simp add: guarded_def next_fault_def mem_new_def)

lemma mem_written_call:
  "with_collection coll f (mem_written i) =
     (case f (''db'', coll) (mem_new []\<lparr>mm_docs := (\<lambda>_. [])((''db'', COLLECTION) := [bson_doc (to_doc (sample_event i))])\<rparr>) of
        (r, m') \<Rightarrow> (r, (mem_written i)\<lparr>ms_client := Some m'\<rparr>))"
  by (simp add: with_collection_def on_client_def mem_written_def mem_store_def)

lemma mem_written_same: "(mem_written i)\<lparr>ms_client := Some (mem_new []\<lparr>mm_docs := (\<lambda>_. [])((''db'', COLLECTION) := [bson_doc (to_doc (sample_event i))])\<rparr>)\<rparr> = mem_written i"
  by (simp add: mem_written_def mem_store_def)

lemma mem_page:
  assumes "0 < limit"
  shows "find_events (mem_driver b) None None None None None limit 0 wt (mem_written i) =
    (Inr ([hide_internal (bson_doc (to_doc (sample_event i)))], False, if wt then Some 1 else None), mem_written i)"
  using assms
  by (simp add: find_events_def Let_def io_bind_def mem_written_call mem_driver_def mem_find_def mem_count_def events_filter_def
      opt_filter_def timestamp_clause_def mongo_matches_def mem_written_same hide_internal_def min_def)

theorem find_events_page_witness:
  "\<exists>ordered. mset ordered = mset (filter (\<lambda>d. \<exists>e b. event_doc e b d \<and> selected None None None None None e)
       (store_docs mem_view (mem_written ''a'') COLLECTION)) \<and> length ordered = 1"
proof -
  from find_events_page [OF mem_contract mem_written_events_inv mem_page [of 10 True True "''a''"]]
  obtain ordered where "mset ordered = mset (filter (\<lambda>d. \<exists>e b. event_doc e b d \<and> selected None None None None None e)
       (store_docs mem_view (mem_written ''a'') COLLECTION))" "Some 1 = Some (length ordered)" by auto
  then show ?thesis by (intro exI [of _ ordered]) simp
qed

definition doc_time :: "pydict \<Rightarrow> int" where
  "doc_time d = (case dict_get d ''timestamp'' of Some (PDate t) \<Rightarrow> dt_micros t | _ \<Rightarrow> 0)"

lemma newest_first_sorted:
  assumes "sorted_wrt newest_first ds" and "\<forall>d \<in> set ds. \<exists>t. dict_get d ''timestamp'' = Some (PDate t)"
  shows "sorted (map (\<lambda>d. - doc_time d) ds)"
  using assms
proof (induction ds)
  case (Cons d ds)
  from Cons.prems(2) obtain t where t: "dict_get d ''timestamp'' = Some (PDate t)" by auto
  have "doc_time d' \<le> doc_time d" if "d' \<in> set ds" for d'
  proof -
    from that Cons.prems(2) obtain t' where t': "dict_get d' ''timestamp'' = Some (PDate t')" by auto
    from that Cons.prems(1) have "sort_le (''timestamp'', -1) d d'" by (simp add: newest_first_def)
    with t t' show ?thesis by (simp add: sort_le_def doc_time_def)
  qed
  with Cons show ?case by simp
qed simp

text \<open>With pairwise different timestamps the server has no choice of order.\<close>

lemma newest_first_unique:
  assumes "sorted_wrt newest_first xs" and "mset xs = mset docs" and "inj_on doc_time (set docs)"
    and "\<forall>d \<in> set docs. \<exists>t. dict_get d ''timestamp'' = Some (PDate t)"
  shows "xs = sort_key (\<lambda>d. - doc_time d) docs"
proof -
  have "set xs = set docs" using assms(2) by (metis set_mset_mset)
  with assms(4) newest_first_sorted [OF assms(1)] have "sorted (map (\<lambda>d. - doc_time d) xs)" by simp
  moreover have "inj_on (\<lambda>d. - doc_time d) (set docs)" using assms(3) by (simp add: inj_on_def)
  ultimately show ?thesis by (rule sort_key_inj_key_eq [OF assms(2) [symmetric], symmetric, rotated])
qed

lemma pages_concat:
  "concat (map (\<lambda>k. take l (drop (k * l) xs)) [0..<n]) = take (n * l) xs"
proof (induction n)
  case (Suc n)
  have "take (n * l) xs @ take l (drop (n * l) xs) = take (n * l + l) xs" by (simp add: take_add)
  with Suc show ?case by (simp add: add.commute)
qed simp

text \<open>
  C20: pagination is complete when timestamps differ. If no two matching events share a timestamp (to the
  millisecond) and the collection does not change between the requests, then the pages at offsets
  \<open>0, limit, 2 * limit, ...\<close> up to the first without \<open>has_more\<close> list every matching event exactly once,
  newest first.
\<close>

theorem pagination_complete:
  assumes "mongo_contract D V" and "events_inv V s"
    and "inj_on doc_time (set (matching V s (events_filter et uid url from_ts to_ts)))"
    and "distinct (matching V s (events_filter et uid url from_ts to_ts))"
    and "\<And>k. k \<le> n \<Longrightarrow> store_docs V (st k) = store_docs V s"
    and "\<And>k. k \<le> n \<Longrightarrow> find_events D et uid url from_ts to_ts limit (k * limit) wt (st k) = (Inr (pg k, hm k, tt k), st' k)"
    and "\<not> hm n"
  shows "\<exists>ordered. concat (map pg [0..<Suc n]) = map hide_internal ordered \<and>
    mset ordered = mset (matching V s (events_filter et uid url from_ts to_ts)) \<and> distinct ordered \<and>
    sorted_wrt (\<lambda>d d'. doc_time d' \<le> doc_time d) ordered"
proof -
  let ?m = "matching V s (events_filter et uid url from_ts to_ts)"
  let ?o = "sort_key (\<lambda>d. - doc_time d) ?m"
  have dated: "\<forall>d \<in> set ?m. \<exists>t. dict_get d ''timestamp'' = Some (PDate t)"
    using assms(2) event_doc_gets(4) unfolding matching_def events_inv_def by fastforce
  have page: "pg k = map hide_internal (take limit (drop (k * limit) ?o)) \<and> (hm k \<longleftrightarrow> k * limit + limit < length ?o)"
    if "k \<le> n" for k
  proof (rule find_events_window [OF assms(1) assms(6) [OF that]])
    fix ordered
    assume o: "mset ordered = mset (matching V (st k) (events_filter et uid url from_ts to_ts))" "sorted_wrt newest_first ordered"
      "pg k = map hide_internal (take limit (drop (k * limit) ordered))" "hm k \<longleftrightarrow> k * limit + limit < length ordered"
    have "matching V (st k) (events_filter et uid url from_ts to_ts) = ?m" by (simp add: matching_def assms(5) [OF that])
    with newest_first_unique [OF o(2) _ assms(3) dated] o(1) have "ordered = ?o" by simp
    with o(3,4) show ?thesis by simp
  qed
  have "length ?o \<le> Suc n * limit" using page [of n] assms(7) by simp
  then have "take (Suc n * limit) ?o = ?o" by simp
  moreover have "concat (map pg [0..<Suc n]) = concat (map (\<lambda>k. map hide_internal (take limit (drop (k * limit) ?o))) [0..<Suc n])"
    using page by (intro arg_cong [where f = concat] map_cong) auto
  moreover have "\<dots> = map hide_internal (concat (map (\<lambda>k. take limit (drop (k * limit) ?o)) [0..<Suc n]))"
    by (simp add: map_concat comp_def)
  ultimately have "concat (map pg [0..<Suc n]) = map hide_internal ?o" by (simp only: pages_concat)
  moreover have "sorted_wrt (\<lambda>d d'. doc_time d' \<le> doc_time d) ?o"
    using sorted_sort_key [of "\<lambda>d. - doc_time d" ?m] by (simp add: sorted_map)
  ultimately show ?thesis using assms(4) by (intro exI [of _ ?o]) simp
qed

theorem pagination_complete_witness:
  "\<exists>ordered. [hide_internal (bson_doc (to_doc (sample_event ''a'')))] = map hide_internal ordered \<and>
     mset ordered = {#bson_doc (to_doc (sample_event ''a''))#}"
proof -
  let ?w = "mem_written ''a''" and ?d = "bson_doc (to_doc (sample_event ''a''))"
  have m: "matching mem_view ?w (events_filter None None None None None) = [?d]"
    by (simp add: matching_def mem_written_docs events_filter_def opt_filter_def timestamp_clause_def mongo_matches_def)
  have "\<exists>ordered. concat (map (\<lambda>k. [hide_internal ?d]) [0..<Suc 0]) = map hide_internal ordered \<and>
      mset ordered = mset (matching mem_view ?w (events_filter None None None None None)) \<and> distinct ordered \<and>
      sorted_wrt (\<lambda>d d'. doc_time d' \<le> doc_time d) ordered"
    by (rule pagination_complete [where st = "\<lambda>_. ?w" and st' = "\<lambda>_. ?w" and hm = "\<lambda>_. False" and limit = 10 and wt = False
          and tt = "\<lambda>_. None", OF mem_contract mem_written_events_inv])
      (simp_all only: m mult_0 le_zero_eq, simp_all add: mem_page)
  then obtain ordered where a: "concat (map (\<lambda>k. [hide_internal ?d]) [0..<Suc 0]) = map hide_internal ordered"
    and b: "mset ordered = mset (matching mem_view ?w (events_filter None None None None None))" by blast
  from b have "mset ordered = {#?d#}" unfolding m by (simp only: mset.simps)
  moreover have "map hide_internal ordered = [hide_internal ?d]" unfolding a [symmetric] by simp
  ultimately show ?thesis by (intro exI [of _ ordered] conjI) (erule sym)
qed

text \<open>
  A server may order documents with equal sort keys differently from one query to the next; this driver
  does, for queries that skip.
\<close>

definition tie_find :: "ns \<Rightarrow> find_query \<Rightarrow> (mem, pydict list) io" where
  "tie_find ns q = guarded (\<lambda>f w. (Inr (map (project_out (fq_projection q)) (take (fq_limit q) (drop (fq_skip q)
     (sort_key (mem_key (fq_sort q)) ((if fq_skip q = 0 then id else rev) (filter (mongo_matches (fq_filter q)) (mm_docs w ns))))))), w))"

definition tie_driver :: "mem mongo_driver" where
  "tie_driver = (mem_driver True)\<lparr>md_find := tie_find\<rparr>"

lemma tie_find_contract: "find_contract tie_driver mem_view"
  unfolding find_contract_def
proof (intro allI impI)
  fix ns q w ds w'
  assume "md_find tie_driver ns q w = (Inr ds, w')"
  then have "tie_find ns q w = (Inr ds, w')" by (simp add: tie_driver_def)
  then have "ds = map (project_out (fq_projection q)) (take (fq_limit q) (drop (fq_skip q)
     (sort_key (mem_key (fq_sort q)) ((if fq_skip q = 0 then id else rev) (filter (mongo_matches (fq_filter q)) (mm_docs w ns))))))"
    unfolding tie_find_def by (rule guarded_cases) auto
  then show "\<exists>s. mset s = mset (filter (mongo_matches (fq_filter q)) (mem_view w ns)) \<and>
      sorted_wrt (sort_le (fq_sort q)) s \<and>
      ds = map (project_out (fq_projection q)) (take (fq_limit q) (drop (fq_skip q) s))"
    by (intro exI [of _ "sort_key (mem_key (fq_sort q)) ((if fq_skip q = 0 then id else rev) (filter (mongo_matches (fq_filter q)) (mem_view w ns)))"])
      (simp add: mem_view_def mem_key_sorted)
qed

lemma tie_contract: "mongo_contract tie_driver mem_view"
proof -
  have kept: "view_kept mem_view (tie_find ns q)" for ns q
    unfolding tie_find_def by (rule guarded_view_kept) simp
  have "insert_contract tie_driver mem_view" "find_one_contract tie_driver mem_view" "count_contract tie_driver mem_view"
    "aggregate_contract tie_driver mem_view" "update_many_contract tie_driver mem_view" "upsert_contract tie_driver mem_view"
    "delete_contract tie_driver mem_view"
    using mongo_contractD(1,3-8) [OF mem_contract [of True]]
    by (simp_all add: tie_driver_def insert_contract_def find_one_contract_def count_contract_def aggregate_contract_def
        update_many_contract_def upsert_contract_def delete_contract_def)
  with tie_find_contract kept mongo_contractD(10-16) [OF mem_contract [of True]] show ?thesis
    unfolding mongo_contract_def by (simp add: tie_driver_def)
qed

definition two_written :: "mem mongo_store" where
  "two_written = (mem_store [])\<lparr>ms_client := Some (mem_new []\<lparr>mm_docs := (\<lambda>_. [])((''db'', COLLECTION) :=
     [bson_doc (to_doc (sample_event ''a'')), bson_doc (to_doc (sample_event ''b''))])\<rparr>)\<rparr>"

lemma two_written_docs: "store_docs mem_view two_written c =
   (if c = COLLECTION then [bson_doc (to_doc (sample_event ''a'')), bson_doc (to_doc (sample_event ''b''))] else [])"
  by (simp add: store_docs_def two_written_def mem_store_def mem_view_def mem_new_def)

lemma two_written_inv: "events_inv mem_view two_written"
  by (auto simp: events_inv_def store_inv_def two_written_docs doc_id_bson_doc intro: mem_written_event_doc)

lemma sample_key: "mem_key (''timestamp'', -1) (bson_doc (to_doc (sample_event i))) = -5000"
  by (simp add: mem_key_def bson_doc_gets to_doc_gets sample_event_def sample_create_def bson_date_def utc_datetime_def)

lemma tie_page:
  "find_events tie_driver None None None None None 1 k False two_written =
    (Inr (map hide_internal (take 1 (take 2 (drop k ((if k = 0 then id else rev) (store_docs mem_view two_written COLLECTION))))),
       k = 0, None), two_written)" if "k \<le> 1"
  using that
  by (cases k) (simp_all add: find_events_def Let_def io_bind_def tie_driver_def tie_find_def with_collection_def on_client_def
      two_written_def mem_store_def store_docs_def mem_view_def events_filter_def opt_filter_def timestamp_clause_def
      mongo_matches_def hide_internal_def sample_key)

text \<open>
  C25: pages overlap when timestamps tie. The sort key is \<open>timestamp\<close> alone, so a server that keeps to its
  documentation may order two events of the same millisecond differently for two requests: two pages of
  size one then show the same event twice, \<open>has_more\<close> ends the listing, and the other event is on no page.
\<close>

theorem pagination_ties_lose_event:
  "\<exists>(D :: mem mongo_driver) V s p. mongo_contract D V \<and> events_inv V s \<and>
     find_events D None None None None None 1 0 False s = (Inr (p, True, None), s) \<and>
     find_events D None None None None None 1 1 False s = (Inr (p, False, None), s) \<and>
     stored_ids V s COLLECTION = {''a'', ''b''} \<and> \<not> (\<exists>d \<in> set p. dict_get d ''event_id'' = Some (PStr ''b''))"
proof -
  let ?p = "[hide_internal (bson_doc (to_doc (sample_event ''a'')))]"
  have "stored_ids mem_view two_written COLLECTION = {''a'', ''b''}"
    by (auto simp: stored_ids_def two_written_docs doc_id_bson_doc)
  moreover have "\<not> (\<exists>d \<in> set ?p. dict_get d ''event_id'' = Some (PStr ''b''))"
    by (simp add: hide_internal_def dict_get_project_out bson_doc_gets to_doc_gets)
  ultimately show ?thesis
    using tie_contract two_written_inv tie_page [of 0] tie_page [of 1]
    by (intro exI [of _ tie_driver] exI [of _ mem_view] exI [of _ two_written] exI [of _ ?p])
      (simp add: two_written_docs)
qed

end
