(* ===== verification/Mongo_Stats.thy ===== *)
theory Mongo_Stats
  imports Mongo_Queries
begin

text \<open>
  The aggregations of \<open>app/storage/mongo.py\<close>: counts per event type, with and without a time bucket, the
  recent-window summary and the precomputed rollup.
\<close>

section \<open>Counting\<close>

text \<open>The reference: for each value of \<open>f\<close> that occurs, how often it does.\<close>

definition tally :: "('a \<Rightarrow> 'k) \<Rightarrow> 'a list \<Rightarrow> ('k \<times> nat) list" where
  "tally f xs = map (\<lambda>k. (k, length (filter (\<lambda>x. f x = k) xs))) (remdups (map f xs))"

lemma tally_keys [simp]: "map fst (tally f xs) = remdups (map f xs)"
  by (simp add: tally_def comp_def)

lemma tally_set: "set (tally f xs) = {(k, n). n = length (filter (\<lambda>x. f x = k) xs) \<and> 0 < n}"
  by (auto simp: tally_def filter_empty_conv)

lemma length_filter_count: "length (filter (\<lambda>x. f x = k) xs) = count_list (map f xs) k"
  by (induction xs) auto

lemma tally_total: "sum_list (map snd (tally f xs)) = length xs"
proof -
  have "sum_list (map snd (tally f xs)) = (\<Sum>k\<leftarrow>remdups (map f xs). count_list (map f xs) k)"
    by (simp add: tally_def comp_def length_filter_count)
  also have "\<dots> = sum (count_list (map f xs)) (set (map f xs))"
    by (metis distinct_remdups set_remdups sum.distinct_set_conv_list)
  also have "\<dots> = length xs" by (subst sum_count_set) simp_all
  finally show ?thesis .
qed

text \<open>The order of the count rows: most frequent first, then by name.\<close>

definition by_count :: "string \<times> nat \<Rightarrow> int \<times> string" where
  "by_count = (\<lambda>(t, n). (- int n, t))"

definition count_row :: "string \<times> nat \<Rightarrow> pydict" where
  "count_row = (\<lambda>(t, n). [(''count'', PInt (int n)), (''event_type'', PStr t)])"

text \<open>\<open>tcs\<close> is the table of counts of the events' types, in that order.\<close>

definition counts_table :: "string list \<Rightarrow> (string \<times> nat) list \<Rightarrow> bool" where
  "counts_table types tcs \<longleftrightarrow> distinct (map fst tcs) \<and>
     set tcs = {(t, n). n = count_list types t \<and> 0 < n} \<and> sorted (map by_count tcs) \<and> sum_list (map snd tcs) = length types"

lemma counts_table_tally: "counts_table (map f ds) (sort_key by_count (tally f ds))"
proof -
  have mset: "mset (sort_key by_count (tally f ds)) = mset (tally f ds)" by simp
  have "distinct (map fst (sort_key by_count (tally f ds)))"
    using mset by (metis distinct_remdups mset_eq_imp_distinct_iff mset_map tally_keys)
  moreover have "sum_list (map snd (sort_key by_count (tally f ds))) = length ds"
    by (metis mset mset_map sum_mset_sum_list tally_total)
  ultimately show ?thesis by (simp add: counts_table_def tally_set length_filter_count)
qed

lemma sum_counts_rows: "sum_counts (map count_row tcs) = Inr (int (sum_list (map snd tcs)))"
  by (induction tcs) (auto simp: count_row_def)

section \<open>The pipelines, evaluated\<close>

lemma eval_event_type: "dict_get d ''event_type'' = Some v \<Longrightarrow> eval_expr d (PStr ''$event_type'') = v"
  by (simp add: field_expr_def)

lemma remdups_map_inj: "inj g \<Longrightarrow> remdups (map g xs) = map g (remdups xs)"
  by (induction xs) (auto simp: inj_image_mem_iff)

lemma group_count_tally:
  assumes "\<forall>d \<in> set ds. eval_expr d e = g (key d)" and "inj g"
  shows "group_count e ds = map (\<lambda>(k, n). [(''_id'', g k), (''count'', PInt (int n))]) (tally key ds)"
proof -
  have ev: "map (\<lambda>d. eval_expr d e) ds = map g (map key ds)"
    using assms(1) by simp
  have cnt: "length (filter (\<lambda>d. eval_expr d e = g k) ds) = length (filter (\<lambda>d. key d = k) ds)" for k
    using assms by (intro arg_cong [where f = length] filter_cong) (auto dest: injD)
  show ?thesis unfolding group_count_def ev remdups_map_inj [OF assms(2)]
    by (simp add: tally_def cnt comp_def)
qed

lemma group_by_type:
  assumes "\<forall>d \<in> set ds. dict_get d ''event_type'' = Some (PStr (ty d))"
  shows "group_count (PStr ''$event_type'') ds =
    map (\<lambda>(t, n). [(''_id'', PStr t), (''count'', PInt (int n))]) (tally ty ds)"
  by (rule group_count_tally) (use assms eval_event_type in \<open>auto simp: inj_def\<close>)

lemma sort_key_map: "sort_key k (map g xs) = map g (sort_key (\<lambda>x. k (g x)) xs)"
proof (induction xs)
  case (Cons x xs)
  have "insort_key k (g x) (map g ys) = map g (insort_key (\<lambda>x. k (g x)) x ys)" for ys by (induction ys) auto
  with Cons show ?case by simp
qed simp

lemma sort_rows_by_count:
  "sort_key (sort_keys [(''count'', PInt (-1)), (''_id'', PInt 1)])
     (map (\<lambda>(t, n). [(''_id'', PStr t), (''count'', PInt (int n))]) tcs) =
   map (\<lambda>(t, n). [(''_id'', PStr t), (''count'', PInt (int n))]) (sort_key by_count tcs)"
proof -
  let ?row = "\<lambda>(t, n). [(''_id'', PStr t), (''count'', PInt (int n))]"
  let ?k = "\<lambda>c. [(fst (by_count c), []), (0, snd (by_count c))] :: (int \<times> string) list"
  have key: "sort_keys [(''count'', PInt (-1)), (''_id'', PInt 1)] (?row c) = ?k c" for c
    by (cases c) (simp add: sort_keys_def by_count_def)
  have le: "?k c \<le> ?k c' \<longleftrightarrow> by_count c \<le> by_count c'" for c c'
    by (cases c; cases c') (auto simp: by_count_def less_eq_prod_def list_le_def list_less_def)
  have "sort_key ?k tcs = sort_key by_count tcs" for tcs
  proof (induction tcs)
    case (Cons c tcs)
    have "insort_key ?k c xs = insort_key by_count c xs" for xs
      by (induction xs) (simp_all only: insort_key.simps le)
    with Cons show ?case by simp
  qed simp
  moreover have "sort_key (sort_keys [(''count'', PInt (-1)), (''_id'', PInt 1)]) (map ?row tcs) =
      map ?row (sort_key (\<lambda>c. sort_keys [(''count'', PInt (-1)), (''_id'', PInt 1)] (?row c)) tcs)"
    by (rule sort_key_map)
  ultimately show ?thesis by (simp only: key)
qed

text \<open>The type of an event document, and the documents of a time range.\<close>

definition doc_type :: "pydict \<Rightarrow> string" where
  "doc_type d = (case dict_get d ''event_type'' of Some (PStr t) \<Rightarrow> t | _ \<Rightarrow> [])"

definition range_docs :: "'m mongo_view \<Rightarrow> 'm mongo_store \<Rightarrow> datetime option \<Rightarrow> datetime option \<Rightarrow> pydict list" where
  "range_docs V s from_ts to_ts = matching V s (case timestamp_clause from_ts to_ts of None \<Rightarrow> [] | Some c \<Rightarrow> [(''timestamp'', PDict c)])"

lemma event_doc_type: "event_doc e b d \<Longrightarrow> dict_get d ''event_type'' = Some (PStr (doc_type d)) \<and> doc_type d = event_type e"
  by (simp add: doc_type_def event_doc_gets)

lemma range_docs_typed:
  assumes "events_inv V s"
  shows "\<forall>d \<in> set (range_docs V s from_ts to_ts). dict_get d ''event_type'' = Some (PStr (doc_type d))"
  using assms event_doc_type unfolding range_docs_def matching_def events_inv_def by fastforce

text \<open>The types of the selected events, for an abstract reading of the result.\<close>

lemma range_docs_eq:
  assumes "events_inv V s"
  shows "range_docs V s from_ts to_ts = filter (\<lambda>d. \<exists>e b. event_doc e b d \<and> in_range from_ts to_ts (timestamp e)) (store_docs V s COLLECTION)"
  unfolding range_docs_def matching_def
proof (rule filter_cong [OF refl])
  fix d
  assume "d \<in> set (store_docs V s COLLECTION)"
  with assms obtain e b where e: "event_doc e b d" by (auto simp: events_inv_def)
  have "timestamp e' = timestamp e \<or> bson_date (timestamp e') = bson_date (timestamp e)" if "event_doc e' b' d" for e' b'
    using event_doc_gets(4) [OF e] event_doc_gets(4) [OF that] by simp
  then have "in_range from_ts to_ts (timestamp e') \<longleftrightarrow> in_range from_ts to_ts (timestamp e)" if "event_doc e' b' d" for e' b'
    using that unfolding in_range_def by metis
  with e timestamp_clause_matches [OF event_doc_gets(4) [OF e]]
  show "mongo_matches (case timestamp_clause from_ts to_ts of None \<Rightarrow> [] | Some c \<Rightarrow> [(''timestamp'', PDict c)]) d \<longleftrightarrow>
      (\<exists>e b. event_doc e b d \<and> in_range from_ts to_ts (timestamp e))" by blast
qed

lemma run_counts_pipeline:
  assumes "\<forall>d \<in> set (filter (mongo_matches filt) ds). dict_get d ''event_type'' = Some (PStr (doc_type d))"
  shows "run_pipeline
      ([[(''$match'', PDict filt)],
        [(''$group'', PDict [(''_id'', PStr ''$event_type''), (''count'', PDict [(''$sum'', PInt 1)])])],
        [(''$sort'', PDict [(''count'', PInt (-1)), (''_id'', PInt 1)])],
        [(''$project'', PDict [(''_id'', PInt 0), (''event_type'', PStr ''$_id''), (''count'', PInt 1)])]]) ds =
    map count_row (sort_key by_count (tally doc_type (filter (mongo_matches filt) ds)))"
proof -
  have row: "project_row [(''_id'', PInt 0), (''event_type'', PStr ''$_id''), (''count'', PInt 1)]
      ((\<lambda>(t, n). [(''_id'', PStr t), (''count'', PInt (int n))]) c) = count_row c" for c
    by (cases c) (simp add: project_row_def count_row_def field_expr_def)
  show ?thesis
    by (simp del: eval_expr.simps add: run_pipeline_def group_by_type [OF assms] sort_rows_by_count comp_def row)
qed

lemma mongo_matches_Nil [simp]: "mongo_matches [] = (\<lambda>_. True)"
  by (simp add: mongo_matches_def fun_eq_iff)

lemma run_counts_pipeline_all:
  assumes "\<forall>d \<in> set ds. dict_get d ''event_type'' = Some (PStr (doc_type d))"
  shows "run_pipeline
      [[(''$group'', PDict [(''_id'', PStr ''$event_type''), (''count'', PDict [(''$sum'', PInt 1)])])],
        [(''$sort'', PDict [(''count'', PInt (-1)), (''_id'', PInt 1)])],
        [(''$project'', PDict [(''_id'', PInt 0), (''event_type'', PStr ''$_id''), (''count'', PInt 1)])]] ds =
    map count_row (sort_key by_count (tally doc_type ds))"
  using run_counts_pipeline [of "[]" ds] assms by (simp add: run_pipeline_def)

text \<open>An aggregation through the store.\<close>

lemma aggregate_result:
  assumes "mongo_contract D V" and "with_collection COLLECTION (\<lambda>ns. md_aggregate D ns stages) s = (Inr rows, s')"
    and "pipeline_covered stages (store_docs V s COLLECTION)"
  shows "rows = run_pipeline stages (store_docs V s COLLECTION)" and "store_docs V s' = store_docs V s"
proof -
  show "store_docs V s' = store_docs V s"
    by (rule with_collection_kept [OF _ assms(2)]) (rule mongo_contractD(12) [OF assms(1)])
  from assms(2) show "rows = run_pipeline stages (store_docs V s COLLECTION)"
  proof (cases rule: with_collection_cases)
    case (call m m')
    with mongo_contractD(5) [OF assms(1)] assms(3) show ?thesis by (simp add: aggregate_contract_def store_docs_def)
  qed simp
qed

text \<open>Both pipelines are covered, on collections that hold event documents.\<close>

definition range_stage :: "datetime option \<Rightarrow> datetime option \<Rightarrow> pydict list" where
  "range_stage from_ts to_ts = (case timestamp_clause from_ts to_ts of None \<Rightarrow> []
     | Some c \<Rightarrow> [[(''$match'', PDict [(''timestamp'', PDict c)])]])"

lemma range_stage_covered:
  "range_stage from_ts to_ts = [] \<or> (\<exists>filt. range_stage from_ts to_ts = [[(''$match'', PDict filt)]] \<and> filter_covered filt)"
  by (auto simp: range_stage_def timestamp_clause_def filter_covered_def Let_def split: option.splits)

lemma run_range_stage: "run_pipeline (range_stage from_ts to_ts) (store_docs V s COLLECTION) = range_docs V s from_ts to_ts"
  by (auto simp: range_stage_def range_docs_def run_pipeline_def matching_def filter_empty_conv split: option.splits)

lemma pipeline_coveredI:
  assumes "stages = range_stage from_ts to_ts @
       [[(''$group'', PDict [(''_id'', e), (''count'', PDict [(''$sum'', PInt 1)])])], [(''$sort'', PDict srt)], [(''$project'', PDict prj)]]"
    and "group_covered e (range_docs V s from_ts to_ts)" and "sort_covered e srt" and "project_covered e prj"
  shows "pipeline_covered stages (store_docs V s COLLECTION)"
  unfolding pipeline_covered_def
  by (intro exI [of _ "range_stage from_ts to_ts"] exI [of _ e] exI [of _ srt] exI [of _ prj])
    (use assms range_stage_covered in \<open>simp only: run_range_stage simp_thms\<close>)

lemma counts_pipeline_covered:
  assumes "events_inv V s" and "interval = None \<or> interval = Some []"
  shows "pipeline_covered (counts_pipeline from_ts to_ts interval) (store_docs V s COLLECTION)"
proof (rule pipeline_coveredI)
  show "counts_pipeline from_ts to_ts interval = range_stage from_ts to_ts @
      [[(''$group'', PDict [(''_id'', PStr ''$event_type''), (''count'', PDict [(''$sum'', PInt 1)])])],
       [(''$sort'', PDict [(''count'', PInt (-1)), (''_id'', PInt 1)])],
       [(''$project'', PDict [(''_id'', PInt 0), (''event_type'', PStr ''$_id''), (''count'', PInt 1)])]]"
    using assms(2) by (auto simp: counts_pipeline_def range_stage_def)
  show "group_covered (PStr ''$event_type'') (range_docs V s from_ts to_ts)"
    using range_docs_typed [OF assms(1)] by (simp add: list_all_iff plain_name_def)
qed (simp_all add: sort_covered_def project_covered_def plain_name_def)

lemma event_doc_timestamp:
  assumes "events_inv V s" and "d \<in> set (range_docs V s from_ts to_ts)"
  shows "\<exists>t. dict_get d ''timestamp'' = Some (PDate t)"
proof -
  from assms obtain e b where "event_doc e b d" by (auto simp: range_docs_def matching_def events_inv_def)
  from event_doc_gets(4) [OF this] show ?thesis by simp
qed

lemma bucket_pipeline_covered:
  assumes "events_inv V s" and "u \<in> set TRUNC_UNITS"
  shows "pipeline_covered (counts_pipeline from_ts to_ts (Some u)) (store_docs V s COLLECTION)"
proof (rule pipeline_coveredI)
  let ?e = "PDict [(''event_type'', PStr ''$event_type''),
      (''bucket'', PDict [(''$dateTrunc'', PDict [(''date'', PStr ''$timestamp''), (''unit'', PStr u)])])]"
  from assms(2) obtain v us where u: "u = v # us" by (auto simp: TRUNC_UNITS_def)
  show "counts_pipeline from_ts to_ts (Some u) = range_stage from_ts to_ts @
      [[(''$group'', PDict [(''_id'', ?e), (''count'', PDict [(''$sum'', PInt 1)])])],
       [(''$sort'', PDict [(''_id.bucket'', PInt 1), (''_id.event_type'', PInt 1)])],
       [(''$project'', PDict [(''_id'', PInt 0), (''event_type'', PStr ''$_id.event_type''),
          (''bucket'', PStr ''$_id.bucket''), (''count'', PInt 1)])]]"
    by (simp add: counts_pipeline_def range_stage_def u)
  have "list_all (string_field (PStr ''$event_type'')) (range_docs V s from_ts to_ts)"
    using range_docs_typed [OF assms(1)] by (simp add: list_all_iff plain_name_def)
  moreover have "list_all (bucket_field (PDict [(''$dateTrunc'', PDict [(''date'', PStr ''$timestamp''), (''unit'', PStr u)])]))
      (range_docs V s from_ts to_ts)"
    using assms(2) event_doc_timestamp [OF assms(1), of _ from_ts to_ts] by (fastforce simp: list_all_iff plain_name_def)
  ultimately show "group_covered ?e (range_docs V s from_ts to_ts)"
    by (simp add: plain_name_def)
qed (simp_all add: sort_covered_def project_covered_def plain_name_def)

lemma aggregate_counts_rows:
  assumes "mongo_contract D V" and inv: "events_inv V s" and "interval = None \<or> interval = Some []"
    and "aggregate_counts D from_ts to_ts interval s = (Inr rows, s')"
  shows "rows = map count_row (sort_key by_count (tally doc_type (range_docs V s from_ts to_ts)))"
    and "store_docs V s' = store_docs V s"
proof -
  note agg = aggregate_result [OF assms(1) assms(4) [unfolded aggregate_counts_def] counts_pipeline_covered [OF inv assms(3)]]
  show "store_docs V s' = store_docs V s" by (fact agg)
  note typed = range_docs_typed [OF inv, of from_ts to_ts, unfolded range_docs_def matching_def]
  show "rows = map count_row (sort_key by_count (tally doc_type (range_docs V s from_ts to_ts)))"
  proof (cases "timestamp_clause from_ts to_ts")
    case None
    with agg(1) assms(3) typed run_counts_pipeline_all [of "store_docs V s COLLECTION"] show ?thesis
      by (auto simp: counts_pipeline_def range_docs_def matching_def)
  next
    case (Some c)
    with agg(1) assms(3) typed run_counts_pipeline [of "[(''timestamp'', PDict c)]" "store_docs V s COLLECTION"] show ?thesis
      by (auto simp: counts_pipeline_def range_docs_def matching_def)
  qed
qed

text \<open>
  C32: \<open>aggregate_counts\<close> without an interval answers with the table of counts: one row for each type
  that occurs among the stored events of the (inclusive) range and no other, with the number of its events,
  most frequent first and alphabetically among equals; the counts add up to the number of events in range.
\<close>

theorem aggregate_counts_table:
  assumes "mongo_contract D V" and "events_inv V s" and "interval = None \<or> interval = Some []"
    and "aggregate_counts D from_ts to_ts interval s = (Inr rows, s')"
  shows "\<exists>tcs. rows = map count_row tcs \<and> store_docs V s' = store_docs V s \<and>
    counts_table (map doc_type (filter (\<lambda>d. \<exists>e b. event_doc e b d \<and> in_range from_ts to_ts (timestamp e)) (store_docs V s COLLECTION))) tcs"
  using aggregate_counts_rows [OF assms] counts_table_tally [of doc_type "range_docs V s from_ts to_ts"]
  unfolding range_docs_eq [OF assms(2)] by blast

lemma mem_aggregate_sample:
  "aggregate_counts (mem_driver b) None None None (mem_written i) = (Inr [count_row (''view'', 1)], mem_written i)"
proof -
  have "\<exists>r. aggregate_counts (mem_driver b) None None None (mem_written i) = (Inr r, mem_written i)"
    by (simp add: aggregate_counts_def mem_written_call mem_driver_def mem_aggregate_def mem_written_same)
  then obtain r where r: "aggregate_counts (mem_driver b) None None None (mem_written i) = (Inr r, mem_written i)" by blast
  from aggregate_counts_rows(1) [OF mem_contract mem_written_events_inv _ r] show ?thesis
    by (simp add: r range_docs_def matching_def mem_written_docs timestamp_clause_def tally_def doc_type_def bson_doc_gets
        to_doc_gets sample_event_def sample_create_def)
qed

theorem aggregate_counts_table_witness:
  "\<exists>tcs. [count_row (''view'', 1)] = map count_row tcs \<and>
     counts_table (map doc_type (filter (\<lambda>d. \<exists>e b. event_doc e b d \<and> in_range None None (timestamp e)) (store_docs mem_view (mem_written ''a'') COLLECTION))) tcs"
  using aggregate_counts_table [OF mem_contract mem_written_events_inv _ mem_aggregate_sample] by simp

section \<open>Time buckets\<close>

definition doc_bucket :: "string \<Rightarrow> pydict \<Rightarrow> datetime" where
  "doc_bucket u d = (case dict_get d ''timestamp'' of Some (PDate t) \<Rightarrow> date_trunc u t | _ \<Rightarrow> utc_datetime 0)"

definition bucket_row :: "(string \<times> datetime) \<times> nat \<Rightarrow> pydict" where
  "bucket_row = (\<lambda>((t, b), n). [(''count'', PInt (int n)), (''event_type'', PStr t), (''bucket'', PDate b)])"

definition by_bucket :: "(string \<times> datetime) \<times> nat \<Rightarrow> int \<times> string" where
  "by_bucket = (\<lambda>((t, b), n). (dt_micros b, t))"

abbreviation bucket_id :: "string \<times> datetime \<Rightarrow> pyval" where
  "bucket_id \<equiv> (\<lambda>(t, b). PDict [(''event_type'', PStr t), (''bucket'', PDate b)])"

lemma sort_rows_by_bucket:
  "sort_key (sort_keys [(''_id.bucket'', PInt 1), (''_id.event_type'', PInt 1)])
     (map (\<lambda>(k, n). [(''_id'', bucket_id k), (''count'', PInt (int n))]) tcs) =
   map (\<lambda>(k, n). [(''_id'', bucket_id k), (''count'', PInt (int n))]) (sort_key by_bucket tcs)"
proof -
  let ?row = "\<lambda>(k, n). [(''_id'', bucket_id k), (''count'', PInt (int n))]"
  let ?k = "\<lambda>c. [(fst (by_bucket c), []), (0, snd (by_bucket c))] :: (int \<times> string) list"
  have key: "sort_keys [(''_id.bucket'', PInt 1), (''_id.event_type'', PInt 1)] (?row c) = ?k c" for c
    by (cases c) (auto simp: sort_keys_def by_bucket_def)
  have le: "?k c \<le> ?k c' \<longleftrightarrow> by_bucket c \<le> by_bucket c'" for c c'
    by (auto simp: less_eq_prod_def list_le_def list_less_def)
  have "sort_key ?k tcs = sort_key by_bucket tcs" for tcs
  proof (induction tcs)
    case (Cons c tcs)
    have "insort_key ?k c xs = insort_key by_bucket c xs" for xs
      by (induction xs) (simp_all only: insort_key.simps le)
    with Cons show ?case by simp
  qed simp
  then show ?thesis by (simp only: sort_key_map key)
qed

lemma aggregate_bucket_rows:
  assumes "mongo_contract D V" and inv: "events_inv V s" and "u \<in> set TRUNC_UNITS"
    and "aggregate_counts D from_ts to_ts (Some u) s = (Inr rows, s')"
  shows "rows = map bucket_row (sort_key by_bucket (tally (\<lambda>d. (doc_type d, doc_bucket u d)) (range_docs V s from_ts to_ts)))"
    and "store_docs V s' = store_docs V s"
proof -
  note agg = aggregate_result [OF assms(1) assms(4) [unfolded aggregate_counts_def] bucket_pipeline_covered [OF inv assms(3)]]
  show "store_docs V s' = store_docs V s" by (fact agg)
  let ?ds = "range_docs V s from_ts to_ts"
  let ?e = "PDict [(''event_type'', PStr ''$event_type''),
     (''bucket'', PDict [(''$dateTrunc'', PDict [(''date'', PStr ''$timestamp''), (''unit'', PStr u)])])]"
  have ev: "\<forall>d \<in> set ?ds. eval_expr d ?e = bucket_id (doc_type d, doc_bucket u d)"
  proof
    fix d
    assume d: "d \<in> set ?ds"
    with inv obtain e b where "event_doc e b d" by (auto simp: range_docs_def matching_def events_inv_def)
    with event_doc_gets(4) range_docs_typed [OF inv] d
    have "dict_get d ''timestamp'' = Some (PDate (bson_date (timestamp e)))" "dict_get d ''event_type'' = Some (PStr (doc_type d))"
      by blast+
    then show "eval_expr d ?e = bucket_id (doc_type d, doc_bucket u d)"
      by (simp add: field_expr_def trunc_expr_def doc_bucket_def)
  qed
  have grp: "group_count ?e ?ds = map (\<lambda>(k, n). [(''_id'', bucket_id k), (''count'', PInt (int n))])
      (tally (\<lambda>d. (doc_type d, doc_bucket u d)) ?ds)"
    using ev by (intro group_count_tally [where g = bucket_id]) (auto simp: inj_def)
  have row: "project_row [(''_id'', PInt 0), (''event_type'', PStr ''$_id.event_type''), (''bucket'', PStr ''$_id.bucket''), (''count'', PInt 1)]
      ((\<lambda>(k, n). [(''_id'', bucket_id k), (''count'', PInt (int n))]) c) = bucket_row c" for c
    by (cases c) (auto simp: project_row_def bucket_row_def field_expr_def)
  obtain v us where u: "u = v # us" using assms(3) by (auto simp: TRUNC_UNITS_def)
  have "rows = run_pipeline (counts_pipeline from_ts to_ts (Some u)) (store_docs V s COLLECTION)" by (fact agg(1))
  also have "\<dots> = map (project_row [(''_id'', PInt 0), (''event_type'', PStr ''$_id.event_type''), (''bucket'', PStr ''$_id.bucket''), (''count'', PInt 1)])
     (sort_key (sort_keys [(''_id.bucket'', PInt 1), (''_id.event_type'', PInt 1)]) (group_count ?e ?ds))"
    by (cases "timestamp_clause from_ts to_ts") (simp_all add: counts_pipeline_def u run_pipeline_def range_docs_def matching_def)
  finally show "rows = map bucket_row (sort_key by_bucket (tally (\<lambda>d. (doc_type d, doc_bucket u d)) ?ds))"
    by (simp only: grp sort_rows_by_bucket map_map comp_def row)
qed


lemma tally_sorted_set: "set (sort_key k (tally f xs)) = {(v, n). n = count_list (map f xs) v \<and> 0 < n}"
  by (simp add: tally_set length_filter_count)

lemma distinct_keys_sort: "distinct (map fst (sort_key k (tally f xs)))"
proof -
  have "mset (map fst (sort_key k (tally f xs))) = mset (map fst (tally f xs))" by (simp only: mset_map mset_sort)
  then show ?thesis by (metis distinct_remdups mset_eq_imp_distinct_iff tally_keys)
qed

lemma total_sort: "sum_list (map snd (sort_key k (tally f xs))) = length xs"
proof -
  have "mset (map snd (sort_key k (tally f xs))) = mset (map snd (tally f xs))" by (simp only: mset_map mset_sort)
  then show ?thesis by (metis sum_mset_sum_list tally_total)
qed

text \<open>
  C33: with one of the intervals minute, hour, day and week, the rows are indexed by event type and time bucket: one row per pair that occurs,
  ordered by bucket and then by type, with the number of its events; every event of the range is counted in
  exactly one bucket, so the counts add up to the same total as without an interval.
\<close>

theorem aggregate_counts_buckets:
  assumes "mongo_contract D V" and "events_inv V s" and "u \<in> {''minute'', ''hour'', ''day'', ''week''}"
    and "aggregate_counts D from_ts to_ts (Some u) s = (Inr rows, s')"
  shows "\<exists>tcs. rows = map bucket_row tcs \<and> distinct (map fst tcs) \<and>
    set tcs = {(k, n). n = count_list (map (\<lambda>d. (doc_type d, doc_bucket u d)) (range_docs V s from_ts to_ts)) k \<and> 0 < n} \<and>
    sorted (map by_bucket tcs) \<and> sum_list (map snd tcs) = length (range_docs V s from_ts to_ts) \<and>
    store_docs V s' = store_docs V s"
  by (intro exI [of _ "sort_key by_bucket (tally (\<lambda>d. (doc_type d, doc_bucket u d)) (range_docs V s from_ts to_ts))"] conjI
      aggregate_bucket_rows [OF assms(1,2) _ assms(4)] tally_sorted_set distinct_keys_sort total_sort sorted_sort_key)
    (use assms(3) in \<open>auto simp: TRUNC_UNITS_def\<close>)

theorem aggregate_counts_buckets_witness:
  "\<exists>rows. aggregate_counts (mem_driver True) None None (Some ''hour'') (mem_written ''a'') = (Inr rows, mem_written ''a'') \<and>
     length rows = 1"
proof -
  have "\<exists>r. aggregate_counts (mem_driver True) None None (Some ''hour'') (mem_written ''a'') = (Inr r, mem_written ''a'')"
    by (simp add: aggregate_counts_def mem_written_call mem_driver_def mem_aggregate_def mem_written_same)
  then obtain rows where run: "aggregate_counts (mem_driver True) None None (Some ''hour'') (mem_written ''a'') = (Inr rows, mem_written ''a'')"
    by blast
  have m: "range_docs mem_view (mem_written ''a'') None None = [bson_doc (to_doc (sample_event ''a''))]"
    by (simp add: range_docs_def matching_def mem_written_docs timestamp_clause_def)
  obtain tcs where t: "rows = map bucket_row tcs" "distinct (map fst tcs)" "sum_list (map snd tcs) = 1"
    "set tcs = {(k, n). n = count_list (map (\<lambda>d. (doc_type d, doc_bucket ''hour'' d)) [bson_doc (to_doc (sample_event ''a''))]) k \<and> 0 < n}"
    using aggregate_counts_buckets [OF mem_contract mem_written_events_inv _ run] unfolding m by auto
  have "fst ` set tcs = {(doc_type (bson_doc (to_doc (sample_event ''a''))), doc_bucket ''hour'' (bson_doc (to_doc (sample_event ''a''))))}"
    unfolding t(4) by (auto simp: image_iff split: if_splits)
  then have "length tcs = 1" using t(2) by (metis card.empty card_insert_disjoint distinct_card empty_iff finite.emptyI length_map list.set_map One_nat_def)
  with run t(1) show ?thesis by simp
qed

section \<open>The recent window and the rollup\<close>

lemma recent_pipeline_counts: "recent_pipeline since = counts_pipeline (Some since) None None"
  by (simp add: recent_pipeline_def counts_pipeline_def timestamp_clause_def)

text \<open>
  C18: the summary behind \<open>/events/stats/realtime\<close>. It reports its own window, the table of counts of the
  events from \<open>now - window_seconds\<close> on, and as total the number of these events.
\<close>

theorem aggregate_recent_counts_summary:
  assumes "mongo_contract D V" and "events_inv V s"
    and "aggregate_recent_counts D now window s = (Inr summary, s')"
  shows "\<exists>tcs. summary = [(''window_seconds'', PInt window), (''since'', PStr (isoformat (dt_minus_seconds now window))),
       (''total'', PInt (int (length (range_docs V s (Some (dt_minus_seconds now window)) None)))),
       (''by_type'', PList (map PDict (map count_row tcs)))] \<and>
    counts_table (map doc_type (range_docs V s (Some (dt_minus_seconds now window)) None)) tcs \<and>
    store_docs V s' = store_docs V s"
proof -
  let ?since = "dt_minus_seconds now window"
  from assms(3) obtain rows where agg: "aggregate_counts D (Some ?since) None None s = (Inr rows, s')"
    and res: "(case sum_counts rows of Inl e \<Rightarrow> Inl e | Inr tot \<Rightarrow> Inr
         [(''window_seconds'', PInt window), (''since'', PStr (isoformat ?since)),
          (''total'', PInt tot), (''by_type'', PList (map PDict rows))]) = Inr summary"
    unfolding aggregate_recent_counts_def Let_def recent_pipeline_counts aggregate_counts_def
    by (elim io_bind_cases) (auto split: sum.splits)
  note rows = aggregate_counts_rows [OF assms(1,2) _ agg, simplified]
  note tab = counts_table_tally [of doc_type "range_docs V s (Some ?since) None"]
  from tab have "sum_list (map snd (sort_key by_count (tally doc_type (range_docs V s (Some ?since) None)))) =
      length (range_docs V s (Some ?since) None)" by (simp add: counts_table_def)
  with res tab rows show ?thesis
    by (intro exI [of _ "sort_key by_count (tally doc_type (range_docs V s (Some ?since) None))"])
      (simp add: sum_counts_rows)
qed

theorem aggregate_recent_counts_summary_witness:
  "\<exists>summary tcs. aggregate_recent_counts (mem_driver True) (utc_datetime 9000000) 60 (mem_written ''a'') = (Inr summary, mem_written ''a'') \<and>
     counts_table (map doc_type (range_docs mem_view (mem_written ''a'') (Some (dt_minus_seconds (utc_datetime 9000000) 60)) None)) tcs"
proof -
  have "\<exists>r. aggregate_counts (mem_driver True) (Some (dt_minus_seconds (utc_datetime 9000000) 60)) None None (mem_written ''a'') = (Inr r, mem_written ''a'')"
    by (simp add: aggregate_counts_def mem_written_call mem_driver_def mem_aggregate_def mem_written_same)
  then obtain rows where r: "aggregate_counts (mem_driver True) (Some (dt_minus_seconds (utc_datetime 9000000) 60)) None None (mem_written ''a'') = (Inr rows, mem_written ''a'')"
    by blast
  with aggregate_counts_rows(1) [OF mem_contract mem_written_events_inv _ r]
  have "\<exists>summary. aggregate_recent_counts (mem_driver True) (utc_datetime 9000000) 60 (mem_written ''a'') = (Inr summary, mem_written ''a'')"
    by (simp add: aggregate_recent_counts_def Let_def recent_pipeline_counts io_bind_Inr sum_counts_rows flip: aggregate_counts_def)
  then obtain summary where "aggregate_recent_counts (mem_driver True) (utc_datetime 9000000) 60 (mem_written ''a'') = (Inr summary, mem_written ''a'')"
    by blast
  with aggregate_recent_counts_summary [OF mem_contract mem_written_events_inv this] show ?thesis by blast
qed

text \<open>What an upsert by id leaves: one document with that id, carrying the new fields.\<close>

lemma upserted_result:
  assumes "upserted i sets old new" and "distinct (map doc_id old)" and "\<forall>d \<in> set old. \<exists>j. doc_id d = Some (PStr j)"
    and "dict_get sets ''_id'' = None"
  shows "distinct (map doc_id new)" and "\<forall>d \<in> set new. \<exists>j. doc_id d = Some (PStr j)"
    and "\<exists>d \<in> set new. doc_id d = Some (PStr i) \<and> (\<exists>d0. set_fields sets d0 d)"
    and "doc_id ` set old \<subseteq> doc_id ` set new"
proof -
  have match: "mongo_matches [(''_id'', PStr i)] d \<longleftrightarrow> doc_id d = Some (PStr i)" if "d \<in> set old" for d
    using that assms(3) by (auto simp: mongo_matches_def doc_id_def)
  have "distinct (map doc_id new) \<and> (\<forall>d \<in> set new. \<exists>j. doc_id d = Some (PStr j)) \<and>
    (\<exists>d \<in> set new. doc_id d = Some (PStr i) \<and> (\<exists>d0. set_fields sets d0 d)) \<and> doc_id ` set old \<subseteq> doc_id ` set new"
  proof (cases "\<exists>d \<in> set old. mongo_matches [(''_id'', PStr i)] d")
    case True
    with assms(1) obtain xs d d' ys where eq: "old = xs @ d # ys" "new = xs @ d' # ys"
      and m: "mongo_matches [(''_id'', PStr i)] d" and set: "set_fields sets d d'"
      unfolding upserted_def by auto
    from m match eq have "doc_id d = Some (PStr i)" by simp
    moreover have "doc_id d' = doc_id d" by (rule set_fields_doc_id [OF set assms(4)])
    ultimately show ?thesis using assms(2,3) set unfolding eq by auto
  next
    case False
    with assms(1) obtain d' where new: "new = old @ [d']" and set: "set_fields sets [(''_id'', PStr i)] d'"
      unfolding upserted_def by auto
    have "doc_id d' = Some (PStr i)" using set_fields_doc_id [OF set assms(4)] by (simp add: doc_id_def)
    moreover from this False match have "doc_id d' \<notin> doc_id ` set old" by (metis imageE)
    ultimately show ?thesis using assms(2,3) set unfolding new by auto
  qed
  then show "distinct (map doc_id new)" "\<forall>d \<in> set new. \<exists>j. doc_id d = Some (PStr j)"
    "\<exists>d \<in> set new. doc_id d = Some (PStr i) \<and> (\<exists>d0. set_fields sets d0 d)" "doc_id ` set old \<subseteq> doc_id ` set new" by blast+
qed

text \<open>One refresh: the aggregation, then the upsert.\<close>

definition rollup_doc :: "datetime \<Rightarrow> (string \<times> nat) list \<Rightarrow> pydict" where
  "rollup_doc now tcs = [(''counts'', PList (map PDict (map count_row tcs))),
     (''total'', PInt (int (sum_list (map snd tcs)))), (''computed_at'', PStr (isoformat now))]"

lemma refresh_cases:
  assumes "mongo_contract D V" and inv: "events_inv V s" and "refresh_event_type_rollup D now s = (r, s')"
  obtains (aggregation_failed) e where "r = Inl e" "aggregate_counts D None None None s = (Inl e, s')"
    | (upsert) tcs s1 r1 where "counts_table (map doc_type (store_docs V s COLLECTION)) tcs" "store_docs V s1 = store_docs V s"
      "with_collection ROLLUPS (\<lambda>ns. md_update_one D ns [(''_id'', PStr ROLLUP_ID)] [(''$set'', PDict (rollup_doc now tcs))] True) s1 = (r1, s')"
      "r = (case r1 of Inl e \<Rightarrow> Inl e | Inr _ \<Rightarrow> Inr (rollup_doc now tcs))"
  using assms(3) unfolding refresh_event_type_rollup_def
proof (cases rule: io_bind_cases)
  case (raised e)
  then show thesis by (intro aggregation_failed)
next
  case (returned rows s1)
  note rows = aggregate_counts_rows [OF assms(1) inv _ returned(1), simplified]
  have all: "range_docs V s None None = store_docs V s COLLECTION"
    by (simp add: range_docs_def matching_def timestamp_clause_def)
  let ?tcs = "sort_key by_count (tally doc_type (store_docs V s COLLECTION))"
  from returned(2) obtain r1 where
    "with_collection ROLLUPS (\<lambda>ns. md_update_one D ns [(''_id'', PStr ROLLUP_ID)] [(''$set'', PDict (rollup_doc now ?tcs))] True) s1 = (r1, s')"
    "r = (case r1 of Inl e \<Rightarrow> Inl e | Inr _ \<Rightarrow> Inr (rollup_doc now ?tcs))"
    unfolding rows(1) all sum_counts_rows by (auto simp: Let_def rollup_doc_def elim!: io_bind_cases)
  then show thesis using rows(2) counts_table_tally by (intro upsert)
qed

lemma rollup_upsert_keeps:
  assumes "mongo_contract D V" and inv: "store_inv V s" and "dict_get doc ''_id'' = None"
    and "with_collection ROLLUPS (\<lambda>ns. md_update_one D ns [(''_id'', PStr ROLLUP_ID)] [(''$set'', PDict doc)] True) s = (r, s')"
  shows "store_inv V s'" and "c \<noteq> ROLLUPS \<Longrightarrow> store_docs V s' c = store_docs V s c"
proof -
  have "store_inv V s' \<and> (\<forall>c. c \<noteq> ROLLUPS \<longrightarrow> store_docs V s' c = store_docs V s c)"
    using assms(4)
  proof (cases rule: with_collection_cases)
    case (call m m')
    note up = upsert_contractD [OF mongo_contractD(7) [OF assms(1)] call(2)]
    have docs: "store_docs V s c = V m (ms_db_name s, c)" "store_docs V s' c = V m' (ms_db_name s, c)" for c
      using call by (simp_all add: store_docs_def)
    have other: "store_docs V s' c = store_docs V s c" if "c \<noteq> ROLLUPS" for c
      using up(1) that by (simp add: docs)
    have roll: "distinct (map doc_id (store_docs V s ROLLUPS))" "\<forall>d \<in> set (store_docs V s ROLLUPS). \<exists>j. doc_id d = Some (PStr j)"
      using inv by (simp_all add: store_inv_def)
    with up(2) upserted_result(1,2) [OF _ roll assms(3)]
    have "distinct (map doc_id (store_docs V s' ROLLUPS)) \<and> (\<forall>d \<in> set (store_docs V s' ROLLUPS). \<exists>j. doc_id d = Some (PStr j))"
      unfolding docs by (elim disjE) simp_all
    with inv other show ?thesis unfolding store_inv_def by metis
  qed (use inv in simp)
  then show "store_inv V s'" "c \<noteq> ROLLUPS \<Longrightarrow> store_docs V s' c = store_docs V s c" by blast+
qed

text \<open>Whatever the events look like, a refresh leaves every other collection alone.\<close>

lemma refresh_keeps_others:
  assumes "mongo_contract D V" and inv: "store_inv V s" and "refresh_event_type_rollup D now s = (r, s')"
  shows "store_inv V s'" and "c \<noteq> ROLLUPS \<Longrightarrow> store_docs V s' c = store_docs V s c"
proof -
  have aggregated: "store_docs V s1 = store_docs V s" if "aggregate_counts D None None None s = (x, s1)" for x s1
    using that unfolding aggregate_counts_def by (intro with_collection_kept [OF mongo_contractD(12) [OF assms(1)]])
  then have inv1: "store_inv V s1" if "aggregate_counts D None None None s = (x, s1)" for x s1
    using that inv by (simp add: store_inv_def)
  have "store_inv V s' \<and> (\<forall>c. c \<noteq> ROLLUPS \<longrightarrow> store_docs V s' c = store_docs V s c)"
    using assms(3) unfolding refresh_event_type_rollup_def
  proof (cases rule: io_bind_cases)
    case (raised e)
    with aggregated [of "Inl e" s'] inv1 [of "Inl e" s'] show ?thesis by simp
  next
    case (returned rows s1)
    note a = aggregated [OF returned(1)] inv1 [OF returned(1)]
    show ?thesis
    proof (cases "sum_counts rows")
      case (Inl e)
      with returned(2) a show ?thesis by (simp add: io_raise_def)
    next
      case (Inr tot)
      let ?doc = "[(''counts'', PList (map PDict rows)), (''total'', PInt tot), (''computed_at'', PStr (isoformat now))]"
      from returned(2) Inr obtain r1 where
        "with_collection ROLLUPS (\<lambda>ns. md_update_one D ns [(''_id'', PStr ROLLUP_ID)] [(''$set'', PDict ?doc)] True) s1 = (r1, s')"
        by (auto simp: Let_def elim!: io_bind_cases)
      from rollup_upsert_keeps [OF assms(1) a(2) _ this] a(1) show ?thesis by simp
    qed
  qed
  then show "store_inv V s'" "c \<noteq> ROLLUPS \<Longrightarrow> store_docs V s' c = store_docs V s c" by blast+
qed

lemma refresh_keeps:
  assumes "mongo_contract D V" and inv: "events_inv V s" and "refresh_event_type_rollup D now s = (r, s')"
  shows "events_inv V s'" and "c \<noteq> ROLLUPS \<Longrightarrow> store_docs V s' c = store_docs V s c"
  using refresh_keeps_others [OF assms(1) _ assms(3)] inv by (simp_all add: events_inv_def)

text \<open>
  C34: the rollup round trip. When \<open>refresh_event_type_rollup\<close> returns, what it returns is the table of
  counts of all stored events, their number and the time of the computation, and every later
  \<open>get_event_type_rollup\<close>, until the rollups change again, answers with these three fields.
\<close>

theorem rollup_roundtrip:
  assumes "mongo_contract D V" and "events_inv V s" and "refresh_event_type_rollup D now s = (Inr doc, s1)"
    and "store_docs V s2 ROLLUPS = store_docs V s1 ROLLUPS" and "get_event_type_rollup D s2 = (Inr x, s3)"
  shows "\<exists>tcs d. doc = rollup_doc now tcs \<and> counts_table (map doc_type (store_docs V s COLLECTION)) tcs \<and>
    sum_list (map snd tcs) = length (store_docs V s COLLECTION) \<and>
    x = Some d \<and> (\<forall>k \<in> {''counts'', ''total'', ''computed_at''}. dict_get d k = dict_get doc k) \<and>
    dict_get d ''_id'' = None"
  using assms(1-3)
proof (cases rule: refresh_cases)
  case (upsert tcs s0 r1)
  from upsert(4) have r1: "r1 = Inr ()" and doc: "doc = rollup_doc now tcs" by (auto split: sum.splits)
  have roll: "distinct (map doc_id (store_docs V s0 ROLLUPS))" "\<forall>d \<in> set (store_docs V s0 ROLLUPS). \<exists>j. doc_id d = Some (PStr j)"
    using assms(2) by (simp_all add: upsert(2) events_inv_def store_inv_def)
  have noid: "dict_get (rollup_doc now tcs) ''_id'' = None" by (simp add: rollup_doc_def)
  from upsert(3) have "upserted ROLLUP_ID (rollup_doc now tcs) (store_docs V s0 ROLLUPS) (store_docs V s1 ROLLUPS)"
  proof (cases rule: with_collection_cases)
    case (call m m')
    with upsert_contractD(2) [OF mongo_contractD(7) [OF assms(1)] call(2)] r1 show ?thesis by (simp add: store_docs_def)
  qed (use r1 in simp)
  note res = upserted_result [OF this roll noid]
  from res(3) obtain d d0 where d: "d \<in> set (store_docs V s1 ROLLUPS)" "doc_id d = Some (PStr ROLLUP_ID)"
    "set_fields (rollup_doc now tcs) d0 d" by blast
  from assms(5) have "\<exists>d' \<in> set (store_docs V s1 ROLLUPS). doc_id d' = Some (PStr ROLLUP_ID) \<and> x = Some (project_out [(''_id'', PInt 0)] d')"
    unfolding get_event_type_rollup_def
  proof (cases rule: with_collection_cases)
    case (call m m')
    have docs: "V m (ms_db_name s2, ROLLUPS) = store_docs V s1 ROLLUPS" using call(1) assms(4) by (simp add: store_docs_def)
    have match: "mongo_matches [(''_id'', PStr ROLLUP_ID)] d \<longleftrightarrow> doc_id d = Some (PStr ROLLUP_ID)"
      if "d \<in> set (store_docs V s1 ROLLUPS)" for d
      using that res(2) by (auto simp: mongo_matches_def doc_id_def)
    have "case x of None \<Rightarrow> filter (mongo_matches [(''_id'', PStr ROLLUP_ID)]) (store_docs V s1 ROLLUPS) = []
      | Some y \<Rightarrow> \<exists>d0 \<in> set (store_docs V s1 ROLLUPS). mongo_matches [(''_id'', PStr ROLLUP_ID)] d0 \<and> y = project_out [(''_id'', PInt 0)] d0"
      using mongo_contractD(3) [OF assms(1), unfolded find_one_contract_def, THEN spec, THEN spec, THEN spec, THEN spec, THEN spec, THEN spec,
        THEN mp, OF call(2)] unfolding docs by (simp add: filter_covered_def)
    with match d(1,2) show ?thesis by (cases x) (auto simp: filter_empty_conv)
  qed simp
  then obtain d' where d': "d' \<in> set (store_docs V s1 ROLLUPS)" "doc_id d' = Some (PStr ROLLUP_ID)" "x = Some (project_out [(''_id'', PInt 0)] d')"
    by blast
  have "d' = d" using res(1) d d' by (metis distinct_map inj_onD)
  moreover have "dict_get (project_out [(''_id'', PInt 0)] d) k = dict_get doc k" if "k \<in> {''counts'', ''total'', ''computed_at''}" for k
    using d(3) that by (auto simp: set_fields_def dict_get_project_out doc rollup_doc_def comp_def count_row_def split_beta)
  ultimately show ?thesis using d'(3) doc upsert(1)
    by (intro exI [of _ tcs] exI [of _ "project_out [(''_id'', PInt 0)] d"])
      (simp add: counts_table_def dict_get_project_out)
qed simp

lemma mem_refresh_runs:
  "\<exists>s1 x s2. refresh_event_type_rollup (mem_driver True) now (mem_written i) = (Inr (rollup_doc now [(''view'', 1)]), s1) \<and>
     get_event_type_rollup (mem_driver True) s1 = (Inr x, s2)"
proof -
  have "\<exists>s1. with_collection ROLLUPS (\<lambda>ns. md_update_one (mem_driver True) ns [(''_id'', PStr ROLLUP_ID)] [(''$set'', PDict (rollup_doc now [(''view'', 1)]))] True)
      (mem_written i) = (Inr (), s1) \<and> (\<exists>m. ms_client s1 = Some m \<and> mm_faults m = [])"
    by (simp add: mem_written_call mem_driver_def mem_update_one_def mem_new_def guarded_def next_fault_def)
  then obtain s1 m where up: "with_collection ROLLUPS (\<lambda>ns. md_update_one (mem_driver True) ns [(''_id'', PStr ROLLUP_ID)] [(''$set'', PDict (rollup_doc now [(''view'', 1)]))] True)
      (mem_written i) = (Inr (), s1)" "ms_client s1 = Some m" "mm_faults m = []" by blast
  have "sum_counts [count_row (''view'', 1)] = Inr 1" by (simp add: count_row_def)
  with up(1) have "refresh_event_type_rollup (mem_driver True) now (mem_written i) = (Inr (rollup_doc now [(''view'', 1)]), s1)"
    unfolding refresh_event_type_rollup_def
    by (subst io_bind_Inr [where m = "aggregate_counts (mem_driver True) None None None", OF mem_aggregate_sample])
      (simp add: Let_def rollup_doc_def io_bind_def)
  moreover have "\<exists>x s2. get_event_type_rollup (mem_driver True) s1 = (Inr x, s2)"
    using up(2,3) by (simp add: get_event_type_rollup_def with_collection_def on_client_def mem_driver_def mem_find_one_def guarded_def next_fault_def)
  ultimately show ?thesis by blast
qed

theorem rollup_roundtrip_witness:
  "\<exists>s1 d s2. refresh_event_type_rollup (mem_driver True) (utc_datetime 0) (mem_written ''a'') = (Inr (rollup_doc (utc_datetime 0) [(''view'', 1)]), s1) \<and>
     get_event_type_rollup (mem_driver True) s1 = (Inr (Some d), s2) \<and> dict_get d ''total'' = Some (PInt 1)"
proof -
  obtain s1 x s2 where run: "refresh_event_type_rollup (mem_driver True) (utc_datetime 0) (mem_written ''a'') = (Inr (rollup_doc (utc_datetime 0) [(''view'', 1)]), s1)"
    "get_event_type_rollup (mem_driver True) s1 = (Inr x, s2)" using mem_refresh_runs by blast
  from rollup_roundtrip [OF mem_contract mem_written_events_inv run(1) refl run(2)]
  obtain d where "x = Some d" "\<forall>k \<in> {''counts'', ''total'', ''computed_at''}. dict_get d k = dict_get (rollup_doc (utc_datetime 0) [(''view'', 1)]) k"
    by blast
  with run show ?thesis by (intro exI [of _ s1] exI [of _ d] exI [of _ s2]) (simp add: rollup_doc_def)
qed

end
