(* ===== verification/Pipeline.thy ===== *)
theory Pipeline
  imports Worker_Pool Ingestion Mongo_Stats "HOL-Library.Multiset"
begin

text \<open>
  The ingest pipeline as a whole: requests, the consumers of the worker pool and the other users of the
  store, interleaved at their \<open>await\<close>s. A step of a consumer runs from one \<open>await\<close> to the next; the call it
  awaited takes effect in the step that resumes it. The state is what \<open>main.lifespan\<close> wires up; \<open>pl_accepted\<close>
  is a ghost, the ids of the events that were answered with 202.
\<close>

section \<open>State\<close>

text \<open>
  Where a consumer is: waiting for an event, awaiting \<open>bulk_write\<close> (the attempt is the second argument), in
  the backoff before an attempt, awaiting the dead-letter sink with its snapshot of the entries, or gone.
\<close>

datatype task =
    Idle
  | Writing "event_document list" nat
  | Sleeping "event_document list" nat
  | Pushing "event_document list" "dlq_entry list"
  | Finished
  | Died exn

fun in_flight :: "task \<Rightarrow> event_document list" where
  "in_flight (Writing b _) = b"
| "in_flight (Sleeping b _) = b"
| "in_flight (Pushing b _) = b"
| "in_flight _ = []"

record 's pipeline =
  pl_service :: ingestion_service
  pl_pool :: worker_pool
  pl_dlq :: dlq
  pl_store :: 's
  pl_tasks :: "task list"
  pl_accepted :: "string set"

abbreviation pl_queue :: "'s pipeline \<Rightarrow> event_document event_queue" where
  "pl_queue st \<equiv> is_queue (pl_service st)"

definition set_queue :: "event_document event_queue \<Rightarrow> 's pipeline \<Rightarrow> 's pipeline" where
  "set_queue q st = st\<lparr>pl_service := (pl_service st)\<lparr>is_queue := q\<rparr>\<rparr>"

definition set_task :: "nat \<Rightarrow> task \<Rightarrow> 's pipeline \<Rightarrow> 's pipeline" where
  "set_task i t st = st\<lparr>pl_tasks := (pl_tasks st)[i := t]\<rparr>"

text \<open>\<open>WorkerPool.start\<close>: every consumer begins by waiting.\<close>

definition start_pool :: "nat \<Rightarrow> 's pipeline \<Rightarrow> 's pipeline" where
  "start_pool concurrency st = st\<lparr>pl_tasks := replicate concurrency Idle\<rparr>"

section \<open>Steps of a consumer\<close>

text \<open>The \<open>finally\<close> block of \<open>_consume\<close>: one \<open>task_done()\<close> per event; then the consumer goes on, or dies of what was raised.\<close>

definition acknowledge :: "nat \<Rightarrow> event_document list \<Rightarrow> task \<Rightarrow> 's pipeline \<Rightarrow> 's pipeline" where
  "acknowledge i b t st = (case tasks_done b (pl_queue st) of
       (Inl e, q) \<Rightarrow> set_task i (Died e) (set_queue q st)
     | (Inr _, q) \<Rightarrow> set_task i t (set_queue q st))"

text \<open>From \<open>queue.get()\<close> to the first \<open>bulk_write\<close>; with no attempts (\<open>max_retries < 0\<close>) the batch is done at once.\<close>

definition begin_batch :: "nat \<Rightarrow> event_document list \<Rightarrow> 's pipeline \<Rightarrow> 's pipeline" where
  "begin_batch i b st =
     (if attempt_range (pl_pool st) = []
      then acknowledge i b Idle (st\<lparr>pl_pool := note_success (length b) (pl_pool st)\<rparr>)
      else set_task i (Writing b 0) st)"

text \<open>What an idle consumer does: take a batch, or leave when the wait timed out and the pool is stopped.\<close>

definition take_step :: "nat \<Rightarrow> 's pipeline \<Rightarrow> 's pipeline option" where
  "take_step i st = (case get (pl_queue st) of
       None \<Rightarrow> if wp_stop_event (pl_pool st) then Some (set_task i Finished st) else None
     | Some (first, q1) \<Rightarrow> (case gather (wp_batch_size (pl_pool st)) [first] q1 of
          (batch, q2) \<Rightarrow> Some (begin_batch i batch (set_queue q2 st))))"

definition write_step ::
  "(event_document list \<Rightarrow> ('s, unit) io) \<Rightarrow> (exn \<Rightarrow> string) \<Rightarrow> (nat \<Rightarrow> datetime) \<Rightarrow> rat \<Rightarrow> nat \<Rightarrow> event_document list \<Rightarrow> nat \<Rightarrow>
   's pipeline \<Rightarrow> 's pipeline" where
  "write_step wr exn_str clock f i b a st = (case wr b (pl_store st) of
       (Inr _, s) \<Rightarrow> acknowledge i b Idle (st\<lparr>pl_store := s, pl_pool := note_success (length b) (pl_pool st)\<rparr>)
     | (Inl e, s) \<Rightarrow>
         let st = st\<lparr>pl_store := s\<rparr> in
         if \<not> is_Exception e then acknowledge i b (Died e) st
         else if int a = wp_max_retries (pl_pool st)
         then (case push_begin clock b (exn_str e) (pl_dlq st) of (q, pending) \<Rightarrow> set_task i (Pushing b pending) (st\<lparr>pl_dlq := q\<rparr>))
         else if 1024 \<le> a
         then acknowledge i b (Died OverflowErr) (st\<lparr>pl_pool := (pl_pool st)\<lparr>wp_retries := Suc (wp_retries (pl_pool st))\<rparr>\<rparr>)
         else set_task i (Sleeping b (Suc a)) (st\<lparr>pl_pool := note_retry f a (pl_pool st)\<rparr>))"

definition push_step ::
  "(pydict list \<Rightarrow> ('s, unit) io) \<Rightarrow> nat \<Rightarrow> event_document list \<Rightarrow> dlq_entry list \<Rightarrow> 's pipeline \<Rightarrow> 's pipeline" where
  "push_step persist i b pending st = (case persist (map entry_to_doc pending) (pl_store st) of
       (r, s) \<Rightarrow> (case push_end r pending (pl_dlq st) of
          (r', q) \<Rightarrow> acknowledge i b (case r' of Inl e \<Rightarrow> Died e | Inr _ \<Rightarrow> Idle) (st\<lparr>pl_dlq := q, pl_store := s\<rparr>)))"

inductive worker_step ::
  "(event_document list \<Rightarrow> ('s, unit) io) \<Rightarrow> (pydict list \<Rightarrow> ('s, unit) io) \<Rightarrow> (exn \<Rightarrow> string) \<Rightarrow> 's pipeline \<Rightarrow> 's pipeline \<Rightarrow> bool"
  for wr persist exn_str where
  taking: "i < length (pl_tasks st) \<Longrightarrow> pl_tasks st ! i = Idle \<Longrightarrow> take_step i st = Some st' \<Longrightarrow>
    worker_step wr persist exn_str st st'"
| writing: "i < length (pl_tasks st) \<Longrightarrow> pl_tasks st ! i = Writing b a \<Longrightarrow>
    worker_step wr persist exn_str st (write_step wr exn_str clock f i b a st)"
| waking: "i < length (pl_tasks st) \<Longrightarrow> pl_tasks st ! i = Sleeping b a \<Longrightarrow>
    worker_step wr persist exn_str st (set_task i (Writing b a) st)"
| pushing: "i < length (pl_tasks st) \<Longrightarrow> pl_tasks st ! i = Pushing b pending \<Longrightarrow>
    worker_step wr persist exn_str st (push_step persist i b pending st)"

section \<open>Steps of the environment\<close>

text \<open>
  A request (\<open>IngestionService.ingest\<close>, on a body FastAPI has validated), the two signals of the shutdown in \<open>lifespan\<close>'s order, and whatever
  else uses the store (\<open>others\<close>: the ES indexer, the rollup, replays).
\<close>

inductive env_step :: "('s \<Rightarrow> 's \<Rightarrow> bool) \<Rightarrow> 's pipeline \<Rightarrow> 's pipeline \<Rightarrow> bool" for others where
  accepted: "ingest entropy now ev k (pl_service st) = (Inr doc, svc) \<Longrightarrow> event_ok ev \<Longrightarrow>
    env_step others st (st\<lparr>pl_service := svc, pl_accepted := insert (event_id doc) (pl_accepted st)\<rparr>)"
| rejected: "ingest entropy now ev k (pl_service st) = (Inl e, svc) \<Longrightarrow> env_step others st (st\<lparr>pl_service := svc\<rparr>)"
| stopping: "env_step others st (st\<lparr>pl_service := stop_accepting (pl_service st)\<rparr>)"
| signalled: "\<not> is_accepting (pl_service st) \<Longrightarrow> env_step others st (st\<lparr>pl_pool := (pl_pool st)\<lparr>wp_stop_event := True\<rparr>\<rparr>)"
| other_user: "others (pl_store st) s \<Longrightarrow> env_step others st (st\<lparr>pl_store := s\<rparr>)"

text \<open>
  After the drain timeout \<open>WorkerPool.stop\<close> cancels the consumers: \<open>CancelledError\<close> surfaces at the \<open>await\<close>, a
  waiting consumer returns, any other runs its \<open>finally\<close> block. A cancelled call may have taken effect.
\<close>

fun cancelled_call ::
  "(event_document list \<Rightarrow> ('s, unit) io) \<Rightarrow> (pydict list \<Rightarrow> ('s, unit) io) \<Rightarrow> task \<Rightarrow> 's \<Rightarrow> 's" where
  "cancelled_call wr persist (Writing b _) s = snd (wr b s)"
| "cancelled_call wr persist (Pushing _ pending) s = snd (persist (map entry_to_doc pending) s)"
| "cancelled_call wr persist _ s = s"

inductive cancel_step ::
  "(event_document list \<Rightarrow> ('s, unit) io) \<Rightarrow> (pydict list \<Rightarrow> ('s, unit) io) \<Rightarrow> 's pipeline \<Rightarrow> 's pipeline \<Rightarrow> bool"
  for wr persist where
  idle_cancelled: "i < length (pl_tasks st) \<Longrightarrow> pl_tasks st ! i = Idle \<Longrightarrow> cancel_step wr persist st (set_task i Finished st)"
| busy_cancelled: "i < length (pl_tasks st) \<Longrightarrow> in_flight (pl_tasks st ! i) = b \<Longrightarrow> b \<noteq> [] \<Longrightarrow>
    s \<in> {pl_store st, cancelled_call wr persist (pl_tasks st ! i) (pl_store st)} \<Longrightarrow>
    cancel_step wr persist st (acknowledge i b (Died CancelledErr) (st\<lparr>pl_store := s\<rparr>))"

definition pipeline_step ::
  "(event_document list \<Rightarrow> ('s, unit) io) \<Rightarrow> (pydict list \<Rightarrow> ('s, unit) io) \<Rightarrow> (exn \<Rightarrow> string) \<Rightarrow> ('s \<Rightarrow> 's \<Rightarrow> bool) \<Rightarrow>
   's pipeline \<Rightarrow> 's pipeline \<Rightarrow> bool" where
  "pipeline_step wr persist exn_str others st st' \<longleftrightarrow> worker_step wr persist exn_str st st' \<or> env_step others st st'"

inductive_simps env_step_iff: "env_step others st st'"

section \<open>Accounting\<close>

lemma set_task_fields [simp]:
  "pl_service (set_task i t st) = pl_service st" "pl_pool (set_task i t st) = pl_pool st" "pl_dlq (set_task i t st) = pl_dlq st"
  "pl_store (set_task i t st) = pl_store st" "pl_accepted (set_task i t st) = pl_accepted st"
  "pl_tasks (set_task i t st) = (pl_tasks st)[i := t]"
  by (simp_all add: set_task_def)

lemma set_queue_fields [simp]:
  "pl_service (set_queue q st) = (pl_service st)\<lparr>is_queue := q\<rparr>" "pl_pool (set_queue q st) = pl_pool st"
  "pl_dlq (set_queue q st) = pl_dlq st" "pl_store (set_queue q st) = pl_store st" "pl_accepted (set_queue q st) = pl_accepted st"
  "pl_tasks (set_queue q st) = pl_tasks st"
  by (simp_all add: set_queue_def)

text \<open>The number of events the consumers hold, and the queue's counter with \<open>n\<close> more of them in hand.\<close>

definition busy :: "task list \<Rightarrow> nat" where
  "busy ts = sum_list (map (\<lambda>t. length (in_flight t)) ts)"

definition counted :: "nat \<Rightarrow> 's pipeline \<Rightarrow> bool" where
  "counted n st \<longleftrightarrow> q_unfinished (pl_queue st) = length (q_items (pl_queue st)) + busy (pl_tasks st) + n"

definition bounded :: "'s pipeline \<Rightarrow> bool" where
  "bounded st \<longleftrightarrow> (0 < q_maxsize (pl_queue st) \<longrightarrow> int (length (q_items (pl_queue st))) \<le> q_maxsize (pl_queue st))"

lemma busy_update:
  "i < length ts \<Longrightarrow> busy (ts[i := t]) + length (in_flight (ts ! i)) = busy ts + length (in_flight t)"
  unfolding busy_def by (rule sum_list_update_add)

lemma busy_ge: "i < length ts \<Longrightarrow> length (in_flight (ts ! i)) \<le> busy ts"
  using busy_update [of i ts Idle] by simp

text \<open>An acknowledgement whose events are counted does not raise.\<close>

lemma acknowledge_eq:
  assumes "length b \<le> q_unfinished (pl_queue st)"
  shows "acknowledge i b t st = set_task i t (set_queue ((pl_queue st)\<lparr>q_unfinished := q_unfinished (pl_queue st) - length b\<rparr>) st)"
  using assms by (simp add: acknowledge_def tasks_done_eq)

lemma acknowledge_held:
  assumes "i < length (pl_tasks st)" and "in_flight (pl_tasks st ! i) = b" and "counted 0 st"
  shows "acknowledge i b t st = set_task i t (set_queue ((pl_queue st)\<lparr>q_unfinished := q_unfinished (pl_queue st) - length b\<rparr>) st)"
    and "in_flight t = [] \<Longrightarrow> counted 0 (acknowledge i b t st)"
proof -
  have le: "length b \<le> busy (pl_tasks st)" using busy_ge [OF assms(1)] assms(2) by simp
  with assms(3) have "length b \<le> q_unfinished (pl_queue st)" by (simp add: counted_def)
  then show eq: "acknowledge i b t st = set_task i t (set_queue ((pl_queue st)\<lparr>q_unfinished := q_unfinished (pl_queue st) - length b\<rparr>) st)"
    by (rule acknowledge_eq)
  show "counted 0 (acknowledge i b t st)" if "in_flight t = []"
    using assms le that busy_update [OF assms(1), of t] unfolding eq by (simp add: counted_def)
qed

lemma set_task_counted:
  "i < length (pl_tasks st) \<Longrightarrow> in_flight (pl_tasks st ! i) = in_flight t \<Longrightarrow> counted 0 st \<Longrightarrow> counted 0 (set_task i t st)"
  using busy_update [of i "pl_tasks st" t] by (simp add: counted_def)

lemma take_step_cases:
  assumes "take_step i st = Some st'"
  obtains (leave) "q_items (pl_queue st) = []" "wp_stop_event (pl_pool st)" "st' = set_task i Finished st"
    | (batch) b rest where "b \<noteq> []" "q_items (pl_queue st) = b @ rest"
      "st' = begin_batch i b (set_queue ((pl_queue st)\<lparr>q_items := rest\<rparr>) st)"
proof (cases "q_items (pl_queue st)")
  case Nil
  with assms show thesis by (intro leave) (auto simp: take_step_def get_def get_nowait_def split: if_splits)
next
  case (Cons x xs)
  let ?b = "next_batch (wp_batch_size (pl_pool st)) (q_items (pl_queue st))"
  have "?b \<noteq> []" "q_items (pl_queue st) = ?b @ drop (length ?b) (q_items (pl_queue st))"
    using Cons by (simp_all add: next_batch_Cons min_def)
  moreover have "st' = begin_batch i ?b (set_queue ((pl_queue st)\<lparr>q_items := drop (length ?b) (q_items (pl_queue st))\<rparr>) st)"
    using assms by (simp add: take_step_def get_Some [OF Cons] gather_next_batch [OF Cons])
  ultimately show thesis by (rule batch)
qed

lemma begin_batch_cases:
  assumes "counted (length b) st" and "i < length (pl_tasks st)" and "pl_tasks st ! i = Idle"
  obtains (skipped) "attempt_range (pl_pool st) = []"
      "begin_batch i b st = set_task i Idle (set_queue ((pl_queue st)\<lparr>q_unfinished := q_unfinished (pl_queue st) - length b\<rparr>)
        (st\<lparr>pl_pool := note_success (length b) (pl_pool st)\<rparr>))"
    | (started) "attempt_range (pl_pool st) \<noteq> []" "begin_batch i b st = set_task i (Writing b 0) st"
proof (cases "attempt_range (pl_pool st) = []")
  case True
  have "length b \<le> q_unfinished (pl_queue (st\<lparr>pl_pool := note_success (length b) (pl_pool st)\<rparr>))"
    using assms(1) by (simp add: counted_def)
  from acknowledge_eq [OF this] True show thesis by (intro skipped) (simp_all add: begin_batch_def)
qed (auto simp: begin_batch_def intro: started)

lemma begin_batch_counted:
  assumes "counted (length b) st" and "i < length (pl_tasks st)" and "pl_tasks st ! i = Idle"
  shows "counted 0 (begin_batch i b st)" and "bounded (begin_batch i b st) = bounded st"
  using assms
proof (atomize (full), cases rule: begin_batch_cases)
  case skipped
  show "counted 0 (begin_batch i b st) \<and> bounded (begin_batch i b st) = bounded st"
    unfolding skipped(2) using assms busy_update [OF assms(2), of Idle] by (simp add: counted_def bounded_def)
next
  case started
  show "counted 0 (begin_batch i b st) \<and> bounded (begin_batch i b st) = bounded st"
    unfolding started(2) using assms busy_update [OF assms(2), of "Writing b 0"] by (simp add: counted_def bounded_def)
qed

lemma counted_store [simp]:
  "counted n (st\<lparr>pl_store := s\<rparr>) = counted n st" "counted n (st\<lparr>pl_pool := p\<rparr>) = counted n st"
  "counted n (st\<lparr>pl_dlq := q\<rparr>) = counted n st" "bounded (st\<lparr>pl_store := s\<rparr>) = bounded st"
  "bounded (st\<lparr>pl_pool := p\<rparr>) = bounded st" "bounded (st\<lparr>pl_dlq := q\<rparr>) = bounded st"
  "bounded (set_task i t st) = bounded st"
  by (simp_all add: counted_def bounded_def)

lemma acknowledge_bounded [simp]: "bounded (acknowledge i b t st) = bounded st"
proof -
  have "q_items (snd (tasks_done b q)) = q_items q \<and> q_maxsize (snd (tasks_done b q)) = q_maxsize q" for q :: "event_document event_queue"
    by (induction b arbitrary: q) (auto simp: task_done_def)
  from this [of "pl_queue st"] show ?thesis
    by (cases "tasks_done b (pl_queue st)") (simp add: acknowledge_def bounded_def split: sum.split)
qed

definition sound :: "'s pipeline \<Rightarrow> bool" where
  "sound st \<longleftrightarrow> counted 0 st \<and> bounded st"

text \<open>\<open>join()\<close> may return exactly when nothing is queued or in a consumer's hands.\<close>

lemma accounting_join: "sound st \<Longrightarrow> join_ready (pl_queue st) \<longleftrightarrow> q_items (pl_queue st) = [] \<and> (\<forall>t \<in> set (pl_tasks st). in_flight t = [])"
  by (auto simp: sound_def counted_def join_ready_def busy_def)

lemma worker_step_sound:
  assumes "worker_step wr persist exn_str st st'" and "sound st"
  shows "sound st'"
  using assms
proof (induction rule: worker_step.induct)
  case (taking i st st')
  from taking(3) show ?case
  proof (cases rule: take_step_cases)
    case leave
    with taking show ?thesis by (simp add: sound_def set_task_counted)
  next
    case (batch b rest)
    let ?st = "set_queue ((pl_queue st)\<lparr>q_items := rest\<rparr>) st"
    have "counted (length b) ?st" "bounded ?st" using taking batch by (auto simp: sound_def counted_def bounded_def)
    with begin_batch_counted [of b ?st i] taking batch show ?thesis by (simp add: sound_def)
  qed
next
  case (writing i st b a clock f)
  let ?st = "\<lambda>s p. st\<lparr>pl_store := s, pl_pool := p\<rparr>"
  have ack: "counted 0 (acknowledge i b t (st\<lparr>pl_store := s, pl_pool := p\<rparr>))" if "in_flight t = []" for s p t
    using writing that by (intro acknowledge_held(2)) (simp_all add: sound_def)
  have ack': "counted 0 (acknowledge i b t (st\<lparr>pl_store := s\<rparr>))" if "in_flight t = []" for s t
    using writing that by (intro acknowledge_held(2)) (simp_all add: sound_def)
  have task: "counted 0 (set_task i t (st\<lparr>pl_store := s, pl_dlq := q\<rparr>))" "counted 0 (set_task i t (st\<lparr>pl_store := s, pl_pool := p\<rparr>))"
    if "in_flight t = b" for s p q t
    using writing that by (auto simp: sound_def intro!: set_task_counted)
  from writing ack ack' task show ?case
    by (auto simp: write_step_def sound_def Let_def split: prod.split sum.split)
next
  case (waking i st b a)
  then show ?case by (simp add: sound_def set_task_counted)
next
  case (pushing i st b pending)
  have "counted 0 (acknowledge i b t (st\<lparr>pl_dlq := q, pl_store := s\<rparr>))" if "in_flight t = []" for s q t
    using pushing that by (intro acknowledge_held(2)) (simp_all add: sound_def)
  with pushing show ?case by (auto simp: push_step_def sound_def split: prod.split sum.split)
qed

lemma env_step_sound: "env_step others st st' \<Longrightarrow> sound st \<Longrightarrow> sound st'"
  by (induction rule: env_step.induct)
    (auto simp: sound_def counted_def bounded_def ingest_def put_nowait_def full_def qsize_def stop_accepting_def Let_def split: if_splits)

lemma cancel_step_sound: "cancel_step wr persist st st' \<Longrightarrow> sound st \<Longrightarrow> sound st'"
proof (induction rule: cancel_step.induct)
  case (busy_cancelled i st b s)
  then have "counted 0 (acknowledge i b (Died CancelledErr) (st\<lparr>pl_store := s\<rparr>))"
    by (intro acknowledge_held(2)) (simp_all add: sound_def)
  with busy_cancelled show ?case by (simp add: sound_def)
qed (simp add: sound_def set_task_counted)

section \<open>The ledger: an abstract specification\<close>

text \<open>
  What the pipeline promises, without queue, consumers or retries: an accepted event is open until it is
  settled, and what is settled stays settled.
\<close>

record ledger =
  lg_accepted :: "string set"
  lg_open :: "string multiset"
  lg_settled :: "string set"

inductive ledger_step :: "ledger \<Rightarrow> ledger \<Rightarrow> bool" where
  accept: "ledger_step l (l\<lparr>lg_accepted := insert i (lg_accepted l), lg_open := add_mset i (lg_open l)\<rparr>)"
| settle: "B \<subseteq># lg_open l \<Longrightarrow> lg_settled l \<union> set_mset B \<subseteq> S \<Longrightarrow> ledger_step l (l\<lparr>lg_open := lg_open l - B, lg_settled := S\<rparr>)"

definition ledger_inv :: "ledger \<Rightarrow> bool" where
  "ledger_inv l \<longleftrightarrow> lg_accepted l \<subseteq> set_mset (lg_open l) \<union> lg_settled l"

lemma ledger_step_inv: "ledger_step l l' \<Longrightarrow> ledger_inv l \<Longrightarrow> ledger_inv l'"
proof (induction rule: ledger_step.induct)
  case (settle B l S)
  have "set_mset (lg_open l) \<subseteq> set_mset (lg_open l - B) \<union> set_mset B"
    using settle(1) by (metis order_refl set_mset_union subset_mset.diff_add)
  with settle show ?case by (auto simp: ledger_inv_def)
qed (auto simp: ledger_inv_def)

lemma ledger_steps_inv: "ledger_step\<^sup>*\<^sup>* l l' \<Longrightarrow> ledger_inv l \<Longrightarrow> ledger_inv l'"
  by (induction rule: rtranclp_induct) (auto intro: ledger_step_inv)

lemma ledger_settleI:
  assumes "lg_accepted l' = lg_accepted l" and "lg_open l = B + lg_open l'" and "lg_settled l \<union> set_mset B \<subseteq> lg_settled l'"
  shows "ledger_step l l'"
proof -
  have "l' = l\<lparr>lg_open := lg_open l - B, lg_settled := lg_settled l'\<rparr>" using assms by (cases l') simp
  moreover have "ledger_step l (l\<lparr>lg_open := lg_open l - B, lg_settled := lg_settled l'\<rparr>)"
    using assms by (intro settle) simp_all
  ultimately show ?thesis by simp
qed

lemma ledger_stutterI: "lg_accepted l' = lg_accepted l \<Longrightarrow> lg_open l' = lg_open l \<Longrightarrow> lg_settled l \<subseteq> lg_settled l' \<Longrightarrow> ledger_step l l'"
  by (rule ledger_settleI [where B = "{#}"]) simp_all

text \<open>Ledgers in the order of their promises: nothing accepted is forgotten, and nothing settled comes undone.\<close>

instantiation ledger_ext :: (type) preorder
begin

definition less_eq_ledger_ext :: "'a ledger_scheme \<Rightarrow> 'a ledger_scheme \<Rightarrow> bool" where
  "less_eq_ledger_ext l l' \<longleftrightarrow> lg_accepted l \<subseteq> lg_accepted l' \<and> lg_settled l \<subseteq> lg_settled l'"

definition less_ledger_ext :: "'a ledger_scheme \<Rightarrow> 'a ledger_scheme \<Rightarrow> bool" where
  "less_ledger_ext l l' \<longleftrightarrow> l \<le> l' \<and> \<not> l' \<le> l"

instance
  by standard (auto simp: less_eq_ledger_ext_def less_ledger_ext_def)

end

lemma ledger_step_le: "ledger_step l l' \<Longrightarrow> l \<le> l'"
  by (induction rule: ledger_step.induct) (auto simp: less_eq_ledger_ext_def)

lemma ledger_steps_le: "ledger_step\<^sup>*\<^sup>* l l' \<Longrightarrow> l \<le> l'"
  by (induction rule: rtranclp_induct) (auto intro: order_trans ledger_step_le)

text \<open>The abstraction: open are the events in the queue and in the consumers' hands.\<close>

definition id_mset :: "event_document list \<Rightarrow> string multiset" where
  "id_mset es = mset (map event_id es)"

definition flights :: "task list \<Rightarrow> string multiset" where
  "flights ts = id_mset (concat (map in_flight ts))"

definition ledger_of :: "string set \<Rightarrow> 's pipeline \<Rightarrow> ledger" where
  "ledger_of settled st = \<lparr>lg_accepted = pl_accepted st,
     lg_open = id_mset (q_items (pl_queue st)) + flights (pl_tasks st), lg_settled = settled\<rparr>"

lemma id_mset_simps [simp]: "id_mset [] = {#}" "id_mset (xs @ ys) = id_mset xs + id_mset ys"
  by (simp_all add: id_mset_def)

lemma set_id_mset [simp]: "set_mset (id_mset es) = event_ids_of es"
  by (simp add: id_mset_def event_ids_of_def)

lemma flights_update:
  "i < length ts \<Longrightarrow> flights (ts[i := t]) + id_mset (in_flight (ts ! i)) = flights ts + id_mset (in_flight t)"
proof (induction ts arbitrary: i)
  case (Cons x ts)
  show ?case
  proof (cases i)
    case (Suc j)
    with Cons have "flights (ts[j := t]) + id_mset (in_flight (ts ! j)) = flights ts + id_mset (in_flight t)" by simp
    with Suc show ?thesis by (simp add: flights_def ac_simps)
  qed (simp add: flights_def ac_simps)
qed simp

lemma flights_same: "i < length ts \<Longrightarrow> in_flight (ts ! i) = in_flight t \<Longrightarrow> flights (ts[i := t]) = flights ts"
  using flights_update [of i ts t] by simp

lemma flights_put: "i < length ts \<Longrightarrow> in_flight (ts ! i) = [] \<Longrightarrow> flights (ts[i := t]) = flights ts + id_mset (in_flight t)"
  using flights_update [of i ts t] by simp

lemma flights_drop: "i < length ts \<Longrightarrow> in_flight t = [] \<Longrightarrow> flights ts = id_mset (in_flight (ts ! i)) + flights (ts[i := t])"
  using flights_update [of i ts t] by (simp add: ac_simps)

section \<open>What the simulation needs\<close>

text \<open>At most one consumer is awaiting the dead-letter sink.\<close>

definition one_push :: "'s pipeline \<Rightarrow> bool" where
  "one_push st \<longleftrightarrow> (\<forall>i < length (pl_tasks st). \<forall>j < length (pl_tasks st). \<forall>b p b' p'.
     pl_tasks st ! i = Pushing b p \<longrightarrow> pl_tasks st ! j = Pushing b' p' \<longrightarrow> i = j)"

text \<open>A snapshot holds the buffered entries and those of the consumer's batch.\<close>

definition snapshots :: "dlq \<Rightarrow> task list \<Rightarrow> bool" where
  "snapshots q ts \<longleftrightarrow> (\<forall>b p. Pushing b p \<in> set ts \<longrightarrow> entry_id ` set p = buffered_ids q \<union> event_ids_of b)"

text \<open>The pool retries at most \<open>n\<close> times, and no consumer is past its last attempt.\<close>

definition attempts_ok :: "nat \<Rightarrow> worker_pool \<Rightarrow> task list \<Rightarrow> bool" where
  "attempts_ok n p ts \<longleftrightarrow> wp_max_retries p = int n \<and> (\<forall>b a. Writing b a \<in> set ts \<or> Sleeping b a \<in> set ts \<longrightarrow> a \<le> n)"

lemma attempts_ok_update:
  assumes "attempts_ok n p ts" and "wp_max_retries p' = int n" and "\<And>b a. t = Writing b a \<or> t = Sleeping b a \<Longrightarrow> a \<le> n"
  shows "attempts_ok n p' (ts[i := t])"
  using assms set_update_subset_insert [of ts i t] unfolding attempts_ok_def by blast

lemma snapshots_update:
  assumes "snapshots q ts" and "buffered_ids q' = buffered_ids q"
    and "\<And>b p. t = Pushing b p \<Longrightarrow> entry_id ` set p = buffered_ids q \<union> event_ids_of b"
  shows "snapshots q' (ts[i := t])"
  using assms set_update_subset_insert [of ts i t] unfolding snapshots_def by blast

lemma one_push_gone:
  assumes "one_push st" and "i < length (pl_tasks st)" and "pl_tasks st ! i = Pushing b p" and "\<And>b p. t \<noteq> Pushing b p"
  shows "snapshots q ((pl_tasks st)[i := t])"
proof -
  have "Pushing b' p' \<notin> set ((pl_tasks st)[i := t])" for b' p'
  proof
    assume "Pushing b' p' \<in> set ((pl_tasks st)[i := t])"
    then obtain j where j: "j < length (pl_tasks st)" "(pl_tasks st)[i := t] ! j = Pushing b' p'" by (auto simp: in_set_conv_nth)
    with assms(2,4) have ne: "j \<noteq> i" by auto
    with j have "pl_tasks st ! j = Pushing b' p'" by simp
    with assms(1-3) j ne show False unfolding one_push_def by metis
  qed
  then show ?thesis by (simp add: snapshots_def)
qed

section \<open>The refinement\<close>

context event_store
begin

definition settled_ids :: "'c \<Rightarrow> 's pipeline \<Rightarrow> string set" where
  "settled_ids c st = held c (pl_dlq st) (pl_store st)"

definition well :: "'c \<Rightarrow> nat \<Rightarrow> 's pipeline \<Rightarrow> bool" where
  "well c n st \<longleftrightarrow> inv c (pl_store st) \<and> sound st \<and> snapshots (pl_dlq st) (pl_tasks st) \<and> attempts_ok n (pl_pool st) (pl_tasks st)"

abbreviation abs_of :: "'c \<Rightarrow> 's pipeline \<Rightarrow> ledger" where
  "abs_of c st \<equiv> ledger_of (settled_ids c st) st"

lemma held_kept: "stored c s \<subseteq> stored c s' \<Longrightarrow> ids c s \<subseteq> ids c s' \<Longrightarrow> held c q s \<subseteq> held c q s'"
  by (auto simp: held_def known_def)

lemma entries_ids: "entry_id ` set (dq_unpersisted q @ dlq_entries clock b reason) = buffered_ids q \<union> event_ids_of b"
  by (simp add: image_Un buffered_ids_def)

lemma taking_simulates:
  assumes "well c n st" and "i < length (pl_tasks st)" and "pl_tasks st ! i = Idle" and "take_step i st = Some st'"
  shows "inv c (pl_store st') \<and> snapshots (pl_dlq st') (pl_tasks st') \<and> attempts_ok n (pl_pool st') (pl_tasks st') \<and>
    ledger_step (abs_of c st) (abs_of c st')"
  using assms(4)
proof (cases rule: take_step_cases)
  case leave
  with assms show ?thesis
    by (auto simp: well_def settled_ids_def ledger_of_def flights_same intro!: ledger_stutterI
        intro: snapshots_update attempts_ok_update dest: attempts_ok_def [THEN iffD1])
next
  case (batch b rest)
  from assms(1) have "attempt_range (pl_pool st) \<noteq> []" by (simp add: well_def attempts_ok_def attempt_range_def)
  with batch have st': "st' = set_task i (Writing b 0) (set_queue ((pl_queue st)\<lparr>q_items := rest\<rparr>) st)"
    by (simp add: begin_batch_def)
  have "ledger_step (abs_of c st) (abs_of c st')"
    using assms batch(2) unfolding st'
    by (intro ledger_stutterI) (simp_all add: ledger_of_def settled_ids_def flights_put ac_simps)
  with assms show ?thesis unfolding st'
    by (auto simp: well_def intro: snapshots_update attempts_ok_update dest: attempts_ok_def [THEN iffD1])
qed

text \<open>The three outcomes of a write and the outcome of a push, against a store that keeps its laws.\<close>

lemma write_step_cases:
  assumes good: "good c" and "counted 0 st" and att: "attempts_ok n (pl_pool st) (pl_tasks st)" and "n \<le> 1024"
    and i: "i < length (pl_tasks st)" "pl_tasks st ! i = Writing b a"
    and call: "wr c b (pl_store st) = (r, s)"
  obtains (stored) "r = Inr ()"
      "write_step (wr c) exn_str clock f i b a st =
        set_task i Idle (set_queue ((pl_queue st)\<lparr>q_unfinished := q_unfinished (pl_queue st) - length b\<rparr>)
          (st\<lparr>pl_store := s, pl_pool := note_success (length b) (pl_pool st)\<rparr>))"
    | (exhausted) e where "r = Inl e"
      "write_step (wr c) exn_str clock f i b a st =
        set_task i (Pushing b (dq_unpersisted (pl_dlq st) @ dlq_entries clock b (exn_str e)))
          (st\<lparr>pl_store := s, pl_dlq := (pl_dlq st)\<lparr>dq_recorded := dq_recorded (pl_dlq st) + length b\<rparr>\<rparr>)"
    | (retrying) e where "r = Inl e" "a < n"
      "write_step (wr c) exn_str clock f i b a st =
        set_task i (Sleeping b (Suc a)) (st\<lparr>pl_store := s, pl_pool := note_retry f a (pl_pool st)\<rparr>)"
proof (cases r)
  case (Inr u)
  then show thesis
    using acknowledge_held(1) [of i "st\<lparr>pl_store := s, pl_pool := note_success (length b) (pl_pool st)\<rparr>" b Idle] i assms(2) call
    by (intro stored) (simp_all add: write_step_def)
next
  case (Inl e)
  have exc: "is_Exception e" using wr_raises [OF good, of b _ e s] call Inl by blast
  have "Writing b a \<in> set (pl_tasks st)" using i by (metis nth_mem)
  with att have max: "wp_max_retries (pl_pool st) = int n" "a \<le> n" by (auto simp: attempts_ok_def)
  show thesis
  proof (cases "a = n")
    case True
    with Inl call exc max show thesis by (intro exhausted) (simp_all add: write_step_def push_begin_def Let_def)
  next
    case False
    with max assms(4) have "a < n" "\<not> 1024 \<le> a" by simp_all
    with Inl call exc max show thesis by (intro retrying) (simp_all add: write_step_def Let_def)
  qed
qed

lemma push_step_eq:
  assumes good: "good c" and "inv c (pl_store st)" and "counted 0 st"
    and i: "i < length (pl_tasks st)" "pl_tasks st ! i = Pushing b p"
    and call: "persist c (map entry_to_doc p) (pl_store st) = (r, s)"
  shows "push_step (persist c) i b p st =
    set_task i Idle (set_queue ((pl_queue st)\<lparr>q_unfinished := q_unfinished (pl_queue st) - length b\<rparr>)
      (st\<lparr>pl_dlq := (pl_dlq st)\<lparr>dq_unpersisted := if r = Inr () then [] else p\<rparr>, pl_store := s\<rparr>))"
proof -
  let ?q = "(pl_dlq st)\<lparr>dq_unpersisted := if r = Inr () then [] else p\<rparr>"
  have docs: "\<forall>d \<in> set (map entry_to_doc p). \<exists>i. doc_id d = Some (PStr i)" by auto
  have "is_Exception e" if "r = Inl e" for e using persist_raises [OF good assms(2) docs] call that by blast
  then have "push_end r p (pl_dlq st) = (Inr (), ?q)" by (cases r) (simp_all add: push_end_def)
  then show ?thesis
    using acknowledge_held(1) [of i "st\<lparr>pl_dlq := ?q, pl_store := s\<rparr>" b Idle] i assms(3) call by (simp add: push_step_def)
qed

lemma writing_simulates:
  assumes good: "good c" and well: "well c n st" and "n \<le> 1024" and i: "i < length (pl_tasks st)" "pl_tasks st ! i = Writing b a"
    and st': "st' = write_step (wr c) exn_str clock f i b a st"
  shows "inv c (pl_store st') \<and> snapshots (pl_dlq st') (pl_tasks st') \<and> attempts_ok n (pl_pool st') (pl_tasks st') \<and>
    ledger_step (abs_of c st) (abs_of c st')"
proof -
  obtain r s where call: "wr c b (pl_store st) = (r, s)" by (metis surj_pair)
  from well have w: "inv c (pl_store st)" "counted 0 st" "snapshots (pl_dlq st) (pl_tasks st)"
    "attempts_ok n (pl_pool st) (pl_tasks st)" "wp_max_retries (pl_pool st) = int n"
    by (simp_all add: well_def sound_def attempts_ok_def)
  note inv' = wr_inv [OF good w(1) call] and keeps = wr_keeps [OF good w(1) call]
  have grown: "held c q (pl_store st) \<subseteq> held c q s" for q using held_kept keeps by blast
  show ?thesis
  proof (cases rule: write_step_cases [OF good w(2,4) assms(3) i call, of exn_str clock f, case_names stored exhausted retrying])
    case stored
    have "event_ids_of b \<subseteq> stored c s" using wr_stores [OF good w(1), of b s] call stored(1) by simp
    then have "held c (pl_dlq st) (pl_store st) \<union> set_mset (id_mset b) \<subseteq> held c (pl_dlq st) s"
      using grown by (auto simp: held_def)
    then have "ledger_step (abs_of c st) (abs_of c st')"
      unfolding st' stored(2) using flights_drop [of i "pl_tasks st" Idle] i
      by (intro ledger_settleI [where B = "id_mset b"]) (simp_all add: ledger_of_def settled_ids_def)
    with inv' w show ?thesis unfolding st' stored(2) by (auto intro: snapshots_update attempts_ok_update)
  next
    case (exhausted e)
    have buf: "buffered_ids ((pl_dlq st)\<lparr>dq_recorded := m\<rparr>) = buffered_ids (pl_dlq st)" for m by (simp add: buffered_ids_def)
    have "ledger_step (abs_of c st) (abs_of c st')"
      unfolding st' exhausted(2) using i grown
      by (intro ledger_stutterI) (simp_all add: ledger_of_def settled_ids_def flights_same held_def known_def buf)
    moreover have "snapshots ((pl_dlq st)\<lparr>dq_recorded := dq_recorded (pl_dlq st) + length b\<rparr>)
        ((pl_tasks st)[i := Pushing b (dq_unpersisted (pl_dlq st) @ dlq_entries clock b (exn_str e))])"
      using w(3) buf by (rule snapshots_update) (metis entries_ids task.inject(3))
    moreover have "attempts_ok n (pl_pool st') (pl_tasks st')"
      using w(4,5) unfolding st' exhausted(2) by (auto intro: attempts_ok_update)
    ultimately show ?thesis using inv' by (simp add: st' exhausted(2))
  next
    case (retrying e)
    have "ledger_step (abs_of c st) (abs_of c st')"
      unfolding st' retrying(3) using i grown by (intro ledger_stutterI) (simp_all add: ledger_of_def settled_ids_def flights_same)
    with inv' w \<open>a < n\<close> show ?thesis unfolding st' retrying(3) by (auto intro: snapshots_update attempts_ok_update)
  qed
qed

lemma pushing_simulates:
  assumes good: "good c" and well: "well c n st" and one: "one_push st"
    and i: "i < length (pl_tasks st)" "pl_tasks st ! i = Pushing b p" and st': "st' = push_step (persist c) i b p st"
  shows "inv c (pl_store st') \<and> snapshots (pl_dlq st') (pl_tasks st') \<and> attempts_ok n (pl_pool st') (pl_tasks st') \<and>
    ledger_step (abs_of c st) (abs_of c st')"
proof -
  obtain r s where call: "persist c (map entry_to_doc p) (pl_store st) = (r, s)" by (metis surj_pair)
  from well have w: "inv c (pl_store st)" "counted 0 st" "attempts_ok n (pl_pool st) (pl_tasks st)"
    "wp_max_retries (pl_pool st) = int n" by (simp_all add: well_def sound_def attempts_ok_def)
  have docs: "\<forall>d \<in> set (map entry_to_doc p). \<exists>i. doc_id d = Some (PStr i)" by auto
  have p: "entry_id ` set p = buffered_ids (pl_dlq st) \<union> event_ids_of b"
    using well i by (metis well_def snapshots_def nth_mem)
  let ?q = "(pl_dlq st)\<lparr>dq_unpersisted := if r = Inr () then [] else p\<rparr>"
  note ack = push_step_eq [OF good w(1,2) i call, folded st']
  note keeps = persist_keeps [OF good w(1) docs call] persist_keeps_stored [OF good w(1) docs call]
  have rec: "entry_id en \<in> ids c s" if "r = Inr ()" "en \<in> set p" for en
    using persist_records [OF good w(1) docs call [unfolded that(1)], of "entry_to_doc en"] that(2) by simp
  have "buffered_ids (pl_dlq st) \<union> event_ids_of b \<subseteq> ids c s \<union> buffered_ids ?q"
    unfolding p [symmetric] using rec by (cases "r = Inr ()") (auto simp: buffered_ids_def image_subset_iff)
  with keeps have "held c (pl_dlq st) (pl_store st) \<union> set_mset (id_mset b) \<subseteq> held c ?q s"
    unfolding held_def known_def set_id_mset by blast
  then have "ledger_step (abs_of c st) (abs_of c st')"
    unfolding ack using flights_drop [of i "pl_tasks st" Idle] i
    by (intro ledger_settleI [where B = "id_mset b"]) (simp_all add: ledger_of_def settled_ids_def)
  moreover have "snapshots ?q ((pl_tasks st)[i := Idle])" using one i by (rule one_push_gone) simp
  ultimately show ?thesis
    using persist_inv [OF good w(1) docs call] w(3,4) unfolding ack by (auto intro: attempts_ok_update)
qed

lemma waking_simulates:
  assumes "well c n st" and i: "i < length (pl_tasks st)" "pl_tasks st ! i = Sleeping b a" and st': "st' = set_task i (Writing b a) st"
  shows "inv c (pl_store st') \<and> snapshots (pl_dlq st') (pl_tasks st') \<and> attempts_ok n (pl_pool st') (pl_tasks st') \<and>
    ledger_step (abs_of c st) (abs_of c st')"
proof -
  have "Sleeping b a \<in> set (pl_tasks st)" using i by (metis nth_mem)
  with assms(1) have "a \<le> n" "wp_max_retries (pl_pool st) = int n" by (auto simp: well_def attempts_ok_def)
  with assms show ?thesis
    by (auto simp: well_def ledger_of_def settled_ids_def flights_same intro: snapshots_update attempts_ok_update intro!: ledger_stutterI)
qed

lemma worker_step_simulates:
  assumes "good c" and "n \<le> 1024" and "well c n st" and "one_push st" and "worker_step (wr c) (persist c) exn_str st st'"
  shows "well c n st' \<and> ledger_step (abs_of c st) (abs_of c st')"
proof -
  have "sound st'" using assms(3,5) by (auto simp: well_def intro: worker_step_sound)
  moreover have "inv c (pl_store st') \<and> snapshots (pl_dlq st') (pl_tasks st') \<and> attempts_ok n (pl_pool st') (pl_tasks st') \<and>
    ledger_step (abs_of c st) (abs_of c st')"
    using assms(5,1-4)
    by (cases rule: worker_step.cases)
      (rule taking_simulates writing_simulates waking_simulates pushing_simulates; assumption)+
  ultimately show ?thesis by (simp add: well_def)
qed

end

section \<open>What an acknowledgement leaves alone\<close>

lemma acknowledge_service [simp]:
  "is_accepting (pl_service (acknowledge i b t st)) = is_accepting (pl_service st)" "pl_accepted (acknowledge i b t st) = pl_accepted st"
  "pl_store (acknowledge i b t st) = pl_store st" "pl_dlq (acknowledge i b t st) = pl_dlq st"
  by (simp_all add: acknowledge_def split: prod.split sum.split)

lemma begin_batch_service [simp]:
  "is_accepting (pl_service (begin_batch i b st)) = is_accepting (pl_service st)" "pl_accepted (begin_batch i b st) = pl_accepted st"
  by (simp_all add: begin_batch_def)

end
