(* ===== verification/Pipeline_Runs.thy ===== *)
theory Pipeline_Runs
  imports Pipeline
begin

text \<open>
  Runs of the pipeline: what holds after any interleaving of the steps of \<open>Pipeline\<close>. The store is shared with
  other users; the locale says what they must leave alone, and the Mongo store's other operations do.
\<close>

section \<open>The store and its other users\<close>

locale shared_store = event_store good inv ids persist stored wr
  for good :: "'c \<Rightarrow> bool" and inv :: "'c \<Rightarrow> 's \<Rightarrow> bool" and ids :: "'c \<Rightarrow> 's \<Rightarrow> string set"
    and persist :: "'c \<Rightarrow> pydict list \<Rightarrow> ('s, unit) io" and stored :: "'c \<Rightarrow> 's \<Rightarrow> string set"
    and wr :: "'c \<Rightarrow> event_document list \<Rightarrow> ('s, unit) io" +
  fixes others :: "'c \<Rightarrow> 's \<Rightarrow> 's \<Rightarrow> bool"
  assumes others_inv: "good c \<Longrightarrow> inv c s \<Longrightarrow> others c s s' \<Longrightarrow> inv c s'"
    and others_keep: "good c \<Longrightarrow> inv c s \<Longrightarrow> others c s s' \<Longrightarrow> stored c s \<subseteq> stored c s' \<and> ids c s \<subseteq> ids c s' \<union> stored c s'"

text \<open>A step in a state where no two pushes overlap.\<close>

definition orderly_step ::
  "(event_document list \<Rightarrow> ('s, unit) io) \<Rightarrow> (pydict list \<Rightarrow> ('s, unit) io) \<Rightarrow> (exn \<Rightarrow> string) \<Rightarrow> ('s \<Rightarrow> 's \<Rightarrow> bool) \<Rightarrow>
   's pipeline \<Rightarrow> 's pipeline \<Rightarrow> bool" where
  "orderly_step wr persist exn_str others st st' \<longleftrightarrow> one_push st \<and> pipeline_step wr persist exn_str others st st'"

context shared_store
begin

abbreviation run_step :: "(exn \<Rightarrow> string) \<Rightarrow> 'c \<Rightarrow> 's pipeline \<Rightarrow> 's pipeline \<Rightarrow> bool" where
  "run_step exn_str c \<equiv> orderly_step (wr c) (persist c) exn_str (others c)"

lemma stutter:
  assumes "pl_accepted st' = pl_accepted st" and "q_items (pl_queue st') = q_items (pl_queue st)" and "pl_tasks st' = pl_tasks st"
    and "pl_dlq st' = pl_dlq st" and "held c (pl_dlq st) (pl_store st) \<subseteq> held c (pl_dlq st) (pl_store st')"
  shows "ledger_step (abs_of c st) (abs_of c st')"
  using assms by (intro ledger_stutterI) (simp_all add: ledger_of_def settled_ids_def)

lemma env_step_simulates:
  assumes "good c" and "well c n st" and "env_step (others c) st st'"
  shows "well c n st' \<and> ledger_step (abs_of c st) (abs_of c st')"
proof -
  have "sound st'" using assms(2,3) by (auto simp: well_def intro: env_step_sound)
  from assms(3) show ?thesis
  proof (cases rule: env_step.cases)
    case (accepted entropy now ev k doc svc)
    note i = ingest_Inr [OF accepted(2)]
    have "abs_of c st' = (abs_of c st)\<lparr>lg_accepted := insert (event_id doc) (lg_accepted (abs_of c st)),
        lg_open := add_mset (event_id doc) (lg_open (abs_of c st))\<rparr>"
      using i(4) by (simp add: accepted(1) ledger_of_def settled_ids_def id_mset_def)
    then have "ledger_step (abs_of c st) (abs_of c st')" using accept by simp
    with \<open>sound st'\<close> assms(2) show ?thesis by (simp add: well_def accepted(1))
  next
    case (rejected entropy now ev k e svc)
    then have "q_items (is_queue svc) = q_items (pl_queue st)"
      by (auto simp: ingest_def put_nowait_def Let_def split: if_splits)
    with rejected \<open>sound st'\<close> assms(2) show ?thesis by (auto simp: well_def intro!: stutter)
  next
    case stopping
    with \<open>sound st'\<close> assms(2) show ?thesis by (auto simp: well_def stop_accepting_def intro!: stutter)
  next
    case signalled
    with \<open>sound st'\<close> assms(2) show ?thesis by (auto simp: well_def attempts_ok_def intro!: stutter)
  next
    case (other_user s)
    from assms(2) have "inv c (pl_store st)" by (simp add: well_def)
    note o = others_inv [OF assms(1) this other_user(2)] others_keep [OF assms(1) this other_user(2)]
    then have "held c (pl_dlq st) (pl_store st) \<subseteq> held c (pl_dlq st) s" by (auto simp: held_def known_def)
    with o(1) other_user \<open>sound st'\<close> assms(2) show ?thesis by (auto simp: well_def intro!: stutter)
  qed
qed

lemma run_step_simulates:
  assumes "good c" and "n \<le> 1024" and "well c n st" and "run_step exn_str c st st'"
  shows "well c n st' \<and> ledger_step (abs_of c st) (abs_of c st')"
  using assms(4) env_step_simulates [OF assms(1,3)] worker_step_simulates [OF assms(1-3)]
  unfolding orderly_step_def pipeline_step_def by (elim conjE disjE) blast+

lemma run_simulates:
  assumes "good c" and "n \<le> 1024" and "well c n st" and "(run_step exn_str c)\<^sup>*\<^sup>* st st'"
  shows "well c n st' \<and> ledger_step\<^sup>*\<^sup>* (abs_of c st) (abs_of c st')"
  using assms(4)
proof (induction rule: rtranclp_induct)
  case (step st1 st2)
  then have "well c n st1" by simp
  from run_step_simulates [OF assms(1,2) this step(2)] step(3) show ?case by (auto intro: rtranclp.rtrancl_into_rtrancl)
qed (simp add: assms(3))

lemma run_keeps_events:
  assumes "good c" and "n \<le> 1024" and "well c n st" and "pl_accepted st = {}" and "(run_step exn_str c)\<^sup>*\<^sup>* st st'"
  shows "pl_accepted st' \<subseteq> held c (pl_dlq st') (pl_store st') \<union> event_ids_of (q_items (pl_queue st') @ concat (map in_flight (pl_tasks st')))"
proof -
  have "ledger_step\<^sup>*\<^sup>* (abs_of c st) (abs_of c st')" using run_simulates [OF assms(1-3,5)] by simp
  moreover have "ledger_inv (abs_of c st)" using assms(4) by (simp add: ledger_inv_def ledger_of_def)
  ultimately have "ledger_inv (abs_of c st')" by (rule ledger_steps_inv)
  then show ?thesis by (auto simp: ledger_inv_def ledger_of_def settled_ids_def flights_def event_ids_of_def)
qed

end

end
