(* ===== verification/Pipeline_Drain.thy ===== *)
theory Pipeline_Drain
  imports Pipeline_Runs
begin

text \<open>
  The drain of \<open>WorkerPool.stop\<close>: left to themselves the consumers stop after finitely many steps, because
  each step uses up some of the work there is, and when they stop nothing is queued or in hand, so that
  \<open>queue.join()\<close> returns.
\<close>

section \<open>Every step uses up work\<close>

text \<open>How many steps a consumer has left with its batch when there are \<open>n\<close> retries; a queued event costs a whole batch.\<close>

fun weight :: "nat \<Rightarrow> task \<Rightarrow> nat" where
  "weight n Idle = 1"
| "weight n (Writing _ a) = 2 * (n - a) + 3"
| "weight n (Sleeping _ a) = 2 * (n - a) + 4"
| "weight n (Pushing _ _) = 2"
| "weight n _ = 0"

definition effort :: "nat \<Rightarrow> 's pipeline \<Rightarrow> nat" where
  "effort n st = length (q_items (pl_queue st)) * (2 * n + 3) + sum_list (map (weight n) (pl_tasks st))"

definition uses_up :: "nat \<Rightarrow> 's pipeline \<Rightarrow> 's pipeline \<Rightarrow> bool" where
  "uses_up n st st' \<longleftrightarrow> effort n st' < effort n st \<and> attempts_ok n (pl_pool st') (pl_tasks st')"

lemma effort_set_task:
  "i < length (pl_tasks st) \<Longrightarrow> effort n (set_task i t st) + weight n (pl_tasks st ! i) = effort n st + weight n t"
  using sum_list_update_add [of i "pl_tasks st" "weight n" t] by (simp add: effort_def)

lemma effort_fields [simp]:
  "effort n (st\<lparr>pl_store := s\<rparr>) = effort n st" "effort n (st\<lparr>pl_pool := p\<rparr>) = effort n st" "effort n (st\<lparr>pl_dlq := d\<rparr>) = effort n st"
  "q_items q = q_items (pl_queue st) \<Longrightarrow> effort n (set_queue q st) = effort n st"
  by (simp_all add: effort_def)

lemma tasks_done_items: "q_items (snd (tasks_done b q)) = q_items q"
  by (induction b arbitrary: q) (auto simp: task_done_def)

text \<open>An acknowledgement leaves the consumer where it was told to go, or dead.\<close>

lemma acknowledge_shape:
  obtains t' q where "acknowledge i b t st = set_task i t' (set_queue q st)" "t' = t \<or> (\<exists>e. t' = Died e)"
    "q_items q = q_items (pl_queue st)"
proof (cases "tasks_done b (pl_queue st)")
  case (Pair r q)
  then have "q_items q = q_items (pl_queue st)" using tasks_done_items [of b "pl_queue st"] by simp
  with Pair that show thesis by (cases r) (auto simp: acknowledge_def)
qed

lemma acknowledge_effort:
  assumes "i < length (pl_tasks st)" and "weight n t < weight n (pl_tasks st ! i)" and "attempts_ok n (pl_pool st) (pl_tasks st)"
    and "t = Idle \<or> (\<exists>e. t = Died e)"
  shows "uses_up n st (acknowledge i b t st)"
proof (rule acknowledge_shape [of i b t st])
  fix t' q
  assume ack: "acknowledge i b t st = set_task i t' (set_queue q st)" and t': "t' = t \<or> (\<exists>e. t' = Died e)"
    and "q_items q = q_items (pl_queue st)"
  then have "effort n (set_queue q st) = effort n st" by simp
  moreover have "weight n t' \<le> weight n t" using t' by auto
  ultimately have "effort n (acknowledge i b t st) < effort n st"
    using effort_set_task [of i "set_queue q st" n t'] assms(1,2) unfolding ack by simp
  moreover have "attempts_ok n (pl_pool st) ((pl_tasks st)[i := t'])"
    using assms(3) by (rule attempts_ok_update) (use assms(3,4) t' in \<open>auto simp: attempts_ok_def\<close>)
  ultimately show ?thesis by (simp add: ack uses_up_def)
qed

lemma set_task_effort:
  assumes "i < length (pl_tasks st)" and "weight n t < weight n (pl_tasks st ! i)" and "attempts_ok n (pl_pool st) (pl_tasks st)"
    and "\<And>b a. t = Writing b a \<or> t = Sleeping b a \<Longrightarrow> a \<le> n"
  shows "uses_up n st (set_task i t st)"
proof -
  have "attempts_ok n (pl_pool st) ((pl_tasks st)[i := t])"
    using assms(3) by (rule attempts_ok_update) (use assms(3,4) in \<open>auto simp: attempts_ok_def\<close>)
  with effort_set_task [OF assms(1), of n t] assms(2) show ?thesis by (simp add: uses_up_def)
qed

lemma worker_step_effort:
  assumes "worker_step wr persist exn_str st st'" and "attempts_ok n (pl_pool st) (pl_tasks st)"
  shows "uses_up n st st'"
  using assms
proof (induction rule: worker_step.induct)
  case (taking i st st')
  from taking(3) show ?case
  proof (cases rule: take_step_cases)
    case leave
    with taking set_task_effort [of i st n Finished] show ?thesis by simp
  next
    case (batch b rest)
    let ?st = "set_queue ((pl_queue st)\<lparr>q_items := rest\<rparr>) st"
    from taking(4) have "attempt_range (pl_pool st) \<noteq> []" by (simp add: attempts_ok_def attempt_range_def)
    with batch have st': "st' = set_task i (Writing b 0) ?st" by (simp add: begin_batch_def)
    from batch(1) obtain k where "length b = Suc k" by (cases b) auto
    with effort_set_task [of i ?st n "Writing b 0"] taking(1,2) batch(2) have "effort n st' < effort n st"
      by (simp add: st' effort_def add_mult_distrib)
    moreover have "attempts_ok n (pl_pool st) ((pl_tasks st)[i := Writing b 0])"
      using taking(4) by (rule attempts_ok_update) (use taking(4) in \<open>simp_all add: attempts_ok_def\<close>)
    ultimately show ?thesis by (simp add: st' uses_up_def)
  qed
next
  case (writing i st b a clock f)
  have "Writing b a \<in> set (pl_tasks st)" using writing by (metis nth_mem)
  with writing(3) have a: "a \<le> n" "wp_max_retries (pl_pool st) = int n" by (auto simp: attempts_ok_def)
  have ack: "uses_up n st (acknowledge i b t st1)"
    if "pl_tasks st1 = pl_tasks st" "effort n st1 = effort n st" "wp_max_retries (pl_pool st1) = int n" "t = Idle \<or> (\<exists>e. t = Died e)" for t st1
    using writing(1-3) that acknowledge_effort [of i st1 n t b] by (auto simp: attempts_ok_def uses_up_def)
  have task: "uses_up n st (set_task i t st1)"
    if "pl_tasks st1 = pl_tasks st" "effort n st1 = effort n st" "wp_max_retries (pl_pool st1) = int n"
      "weight n t < weight n (Writing b a)" "\<And>b a. t = Writing b a \<or> t = Sleeping b a \<Longrightarrow> a \<le> n" for t st1
    using writing(1-3) that set_task_effort [of i st1 n t] by (simp add: attempts_ok_def uses_up_def)
  obtain r s where call: "wr b (pl_store st) = (r, s)" by (metis surj_pair)
  show ?case
  proof (cases r)
    case (Inr u)
    with call show ?thesis unfolding write_step_def by (simp, intro ack) (simp_all add: a note_success_def)
  next
    case (Inl e)
    consider "\<not> is_Exception e" | "is_Exception e" "a = n" | "is_Exception e" "a < n" "1024 \<le> a" | "is_Exception e" "a < n" "a < 1024"
      using a(1) by linarith
    then show ?thesis
      by cases (use Inl call a in \<open>auto simp: write_step_def push_begin_def Let_def intro!: ack task\<close>)
  qed
next
  case (waking i st b a)
  then have "Sleeping b a \<in> set (pl_tasks st)" by (metis nth_mem)
  with waking show ?case by (intro set_task_effort) (auto simp: attempts_ok_def)
next
  case (pushing i st b pending)
  have "uses_up n st (acknowledge i b t (st\<lparr>pl_dlq := q, pl_store := s\<rparr>))" if "t = Idle \<or> (\<exists>e. t = Died e)" for s q t
    using pushing that acknowledge_effort [of i "st\<lparr>pl_dlq := q, pl_store := s\<rparr>" n t b] by (auto simp: uses_up_def)
  then show ?case by (auto simp: push_step_def split: prod.split sum.split)
qed

lemma worker_steps_bounded:
  assumes "(worker_step wr persist exn_str ^^ k) st st'" and "attempts_ok n (pl_pool st) (pl_tasks st)"
  shows "k + effort n st' \<le> effort n st"
proof -
  have "k + effort n st' \<le> effort n st \<and> attempts_ok n (pl_pool st') (pl_tasks st')"
    using assms
  proof (induction k arbitrary: st')
    case (Suc k)
    then obtain st1 where "(worker_step wr persist exn_str ^^ k) st st1" "worker_step wr persist exn_str st1 st'" by auto
    with Suc.IH [of st1] Suc.prems(2) worker_step_effort [of wr persist exn_str st1 st' n] show ?case
      by (auto simp: uses_up_def)
  qed simp
  then show ?thesis ..
qed

section \<open>Where the consumers stop\<close>

definition stuck ::
  "(event_document list \<Rightarrow> ('s, unit) io) \<Rightarrow> (pydict list \<Rightarrow> ('s, unit) io) \<Rightarrow> (exn \<Rightarrow> string) \<Rightarrow> 's pipeline \<Rightarrow> bool" where
  "stuck wr persist exn_str st \<longleftrightarrow> (\<nexists>st'. worker_step wr persist exn_str st st')"

lemma worker_stops:
  "attempts_ok n (pl_pool st) (pl_tasks st) \<Longrightarrow>
    \<exists>st'. (worker_step wr persist exn_str)\<^sup>*\<^sup>* st st' \<and> stuck wr persist exn_str st'"
proof (induction "effort n st" arbitrary: st rule: less_induct)
  case less
  show ?case
  proof (cases "stuck wr persist exn_str st")
    case False
    then obtain st1 where step: "worker_step wr persist exn_str st st1" by (auto simp: stuck_def)
    from worker_step_effort [OF this less.prems] less.hyps [of st1] obtain st' where
      "(worker_step wr persist exn_str)\<^sup>*\<^sup>* st1 st'" "stuck wr persist exn_str st'" by (auto simp: uses_up_def)
    with step show ?thesis by (blast intro: converse_rtranclp_into_rtranclp)
  qed blast
qed

text \<open>There are consumers, none of them died, and one has left only after the shutdown's signal and with the queue empty.\<close>

definition staffed :: "'s pipeline \<Rightarrow> bool" where
  "staffed st \<longleftrightarrow> pl_tasks st \<noteq> [] \<and> (\<forall>e. Died e \<notin> set (pl_tasks st)) \<and>
     (wp_stop_event (pl_pool st) \<longrightarrow> \<not> is_accepting (pl_service st)) \<and>
     (Finished \<in> set (pl_tasks st) \<longrightarrow> wp_stop_event (pl_pool st) \<and> q_items (pl_queue st) = [])"

lemma staffed_update:
  assumes "staffed st" and "pl_tasks st' = (pl_tasks st)[i := t]" and "\<And>e. t \<noteq> Died e" and "t \<noteq> Finished"
    and "wp_stop_event (pl_pool st') = wp_stop_event (pl_pool st)" and "is_accepting (pl_service st') = is_accepting (pl_service st)"
    and "q_items (pl_queue st) = [] \<Longrightarrow> q_items (pl_queue st') = []"
  shows "staffed st'"
  using assms set_update_subset_insert [of "pl_tasks st" i t] unfolding staffed_def by auto

lemma stuck_idle:
  assumes "stuck wr persist exn_str st" and "Idle \<in> set (pl_tasks st)"
  shows "q_items (pl_queue st) = []"
proof (rule ccontr)
  assume "q_items (pl_queue st) \<noteq> []"
  then obtain x xs where q: "q_items (pl_queue st) = x # xs" by (cases "q_items (pl_queue st)") auto
  from assms(2) obtain i where i: "i < length (pl_tasks st)" "pl_tasks st ! i = Idle" by (auto simp: in_set_conv_nth)
  have "take_step i st \<noteq> None" by (simp add: take_step_def get_Some [OF q] split: prod.split)
  with assms(1) i show False unfolding stuck_def by (metis worker_step.taking not_Some_eq)
qed

lemma stuck_drained:
  assumes "stuck wr persist exn_str st" and "staffed st" and "sound st"
  shows "q_items (pl_queue st) = [] \<and> join_ready (pl_queue st) \<and> set (pl_tasks st) \<subseteq> {Idle, Finished}"
proof -
  have tasks: "t \<in> {Idle, Finished}" if "t \<in> set (pl_tasks st)" for t
  proof -
    from assms(2) that have "t \<noteq> Died e" for e by (auto simp: staffed_def)
    moreover have "worker_step wr persist exn_str st st' \<Longrightarrow> False" for st' using assms(1) by (auto simp: stuck_def)
    ultimately show ?thesis using that
      by (cases t) (auto simp: in_set_conv_nth dest: worker_step.writing worker_step.waking worker_step.pushing)
  qed
  from assms(2) have "set (pl_tasks st) \<noteq> {}" by (simp add: staffed_def)
  then obtain t where "t \<in> set (pl_tasks st)" by (metis ex_in_conv)
  with tasks [OF this] have "Idle \<in> set (pl_tasks st) \<or> Finished \<in> set (pl_tasks st)" by auto
  with assms(2) stuck_idle [OF assms(1)] have items: "q_items (pl_queue st) = []" by (auto simp: staffed_def)
  have "busy (pl_tasks st) = 0" using tasks by (fastforce simp: busy_def)
  with items assms(3) tasks show ?thesis by (auto simp: sound_def counted_def join_ready_def)
qed

context event_store
begin

text \<open>What every run keeps, overlapping pushes or not.\<close>

definition running :: "'c \<Rightarrow> nat \<Rightarrow> 's pipeline \<Rightarrow> bool" where
  "running c n st \<longleftrightarrow> inv c (pl_store st) \<and> sound st \<and> attempts_ok n (pl_pool st) (pl_tasks st) \<and> staffed st"

lemma worker_step_staffed:
  assumes good: "good c" and "n \<le> 1024" and run: "running c n st" and "worker_step (wr c) (persist c) exn_str st st'"
  shows "inv c (pl_store st') \<and> staffed st'"
  using assms(4)
proof (cases rule: worker_step.cases)
  case (taking i)
  from taking(3) show ?thesis
  proof (cases rule: take_step_cases)
    case leave
    have "Died e \<notin> set ((pl_tasks st)[i := Finished])" for e
      using run set_update_subset_insert [of "pl_tasks st" i Finished] by (auto simp: running_def staffed_def)
    moreover have "(pl_tasks st)[i := Finished] \<noteq> []" using run by (simp add: running_def staffed_def)
    ultimately show ?thesis using run leave by (simp add: running_def staffed_def)
  next
    case (batch b rest)
    from run have "attempt_range (pl_pool st) \<noteq> []" by (simp add: running_def attempts_ok_def attempt_range_def)
    with batch have st': "st' = set_task i (Writing b 0) (set_queue ((pl_queue st)\<lparr>q_items := rest\<rparr>) st)"
      by (simp add: begin_batch_def)
    have "staffed st" "inv c (pl_store st)" using run by (simp_all add: running_def)
    then show ?thesis using batch(1,2) unfolding st'
      by (auto intro: staffed_update [where st = st and i = i and t = "Writing b 0"])
  qed
next
  case (writing i b a clock f)
  from run have r: "inv c (pl_store st)" "counted 0 st" "attempts_ok n (pl_pool st) (pl_tasks st)" "staffed st"
    by (simp_all add: running_def sound_def)
  obtain rs s where call: "wr c b (pl_store st) = (rs, s)" by (metis surj_pair)
  note eqs = write_step_cases [OF good r(2,3) assms(2) writing(2,3) call, of exn_str clock f, folded writing(1),
      case_names stored exhausted retrying]
  from wr_inv [OF good r(1) call] r(4) show ?thesis
    by (cases rule: eqs) (auto simp: note_retry_def note_success_def intro!: staffed_update [where st = st and i = i])
next
  case (waking i b a)
  have "staffed st" "inv c (pl_store st)" using run by (simp_all add: running_def)
  then show ?thesis unfolding waking(1) by (auto intro: staffed_update [where st = st and i = i and t = "Writing b a"])
next
  case (pushing i b p)
  from run have r: "inv c (pl_store st)" "counted 0 st" "staffed st" by (simp_all add: running_def sound_def)
  obtain rs s where call: "persist c (map entry_to_doc p) (pl_store st) = (rs, s)" by (metis surj_pair)
  have docs: "\<forall>d \<in> set (map entry_to_doc p). \<exists>i. doc_id d = Some (PStr i)" by auto
  from persist_inv [OF good r(1) docs call] r(3) show ?thesis
    unfolding pushing(1) push_step_eq [OF good r(1,2) pushing(2,3) call]
    by (auto intro!: staffed_update [where st = st and i = i])
qed

lemma worker_step_running:
  assumes "good c" and "n \<le> 1024" and "running c n st" and "worker_step (wr c) (persist c) exn_str st st'"
  shows "running c n st'"
  using worker_step_staffed [OF assms] worker_step_sound [OF assms(4)] worker_step_effort [OF assms(4), of n] assms(3)
  by (simp add: running_def uses_up_def)

lemma worker_run_drains:
  assumes "good c" and "n \<le> 1024" and "running c n st" and "(worker_step (wr c) (persist c) exn_str)\<^sup>*\<^sup>* st st'"
    and "stuck (wr c) (persist c) exn_str st'"
  shows "q_items (pl_queue st') = [] \<and> join_ready (pl_queue st') \<and> set (pl_tasks st') \<subseteq> {Idle, Finished}"
proof -
  from assms(4) have "running c n st'"
    by (induction rule: rtranclp_induct) (auto intro: assms(3) worker_step_running [OF assms(1,2)])
  then show ?thesis using stuck_drained [OF assms(5)] by (simp add: running_def)
qed

end

context shared_store
begin

lemma env_step_running:
  assumes "good c" and "running c n st" and "env_step (others c) st st'"
  shows "running c n st'"
proof -
  have "sound st'" using assms(2,3) by (auto simp: running_def intro: env_step_sound)
  moreover have "inv c (pl_store st') \<and> attempts_ok n (pl_pool st') (pl_tasks st') \<and> staffed st'"
    using assms(3)
  proof (cases rule: env_step.cases)
    case (accepted entropy now ev k doc svc)
    with ingest_Inr [OF accepted(2)] assms(2) show ?thesis by (auto simp: running_def staffed_def)
  next
    case (rejected entropy now ev k e svc)
    then have "q_items (is_queue svc) = q_items (pl_queue st) \<and> is_accepting svc = is_accepting (pl_service st)"
      by (auto simp: ingest_def put_nowait_def Let_def split: if_splits)
    with rejected assms(2) show ?thesis by (auto simp: running_def staffed_def)
  next
    case (other_user s)
    with assms(1,2) others_inv show ?thesis by (auto simp: running_def staffed_def)
  qed (use assms(2) in \<open>auto simp: running_def staffed_def attempts_ok_def stop_accepting_def\<close>)
  ultimately show ?thesis by (simp add: running_def)
qed

lemma run_running:
  assumes "good c" and "n \<le> 1024" and "running c n st" and "(pipeline_step (wr c) (persist c) exn_str (others c))\<^sup>*\<^sup>* st st'"
  shows "running c n st'"
  using assms(4)
proof (induction rule: rtranclp_induct)
  case (step st1 st2)
  then show ?case using worker_step_running [OF assms(1,2) step(3)] env_step_running [OF assms(1) step(3)]
    unfolding pipeline_step_def by blast
qed (rule assms(3))

end

end
