(* ===== verification/Pipeline_Mongo.thy ===== *)
theory Pipeline_Mongo
  imports Pipeline_Drain Schemas
begin

text \<open>
  The pipeline over the Mongo store: the interpretation of the shared-store interface on \<open>MongoStore\<close>'s
  operations, the state \<open>main.lifespan\<close> boots, and the properties of its runs.
\<close>

section \<open>The other users of Mongo\<close>

text \<open>
  What else the application does to the store while the pipeline runs: the ES indexer marks events, the rollup
  is refreshed, a replay writes an event and then deletes its dead letter, and everything reads. (The lemma
  \<open>redrive_users\<close> of \<open>Application\<close> derives a replay's steps, and that it deletes only what is stored, from \<open>redrive\<close>.)
\<close>

inductive mongo_user :: "'m mongo_ctx \<Rightarrow> 'm mongo_store \<Rightarrow> 'm mongo_store \<Rightarrow> bool" for c where
  marking: "mark_indexed (fst c) is s = (r, s') \<Longrightarrow> mongo_user c s s'"
| refreshing: "refresh_event_type_rollup (fst c) now s = (r, s') \<Longrightarrow> mongo_user c s s'"
| rewriting: "bulk_write (fst c) events s = (r, s') \<Longrightarrow> \<forall>e \<in> set events. event_ok e \<Longrightarrow> mongo_user c s s'"
| deleting: "i \<in> event_ids_stored c s \<Longrightarrow> delete_dead_letter (fst c) i s = (r, s') \<Longrightarrow> mongo_user c s s'"
| reading: "store_docs (snd c) s' = store_docs (snd c) s \<Longrightarrow> mongo_user c s s'"

lemma mongo_user_keeps:
  assumes "sink_good c" and "sink_inv c s" and "mongo_user c s s'"
  shows "sink_inv c s' \<and> event_ids_stored c s \<subseteq> event_ids_stored c s' \<and> dead_ids c s \<subseteq> dead_ids c s' \<union> event_ids_stored c s'"
proof -
  from assms(1,2) have ct: "mongo_contract (fst c) (snd c)" and inv: "store_inv (snd c) s"
    by (simp_all add: sink_good_def sink_inv_def)
  note defs = sink_inv_def event_ids_stored_def dead_ids_def
  from assms(3) show ?thesis
  proof (cases rule: mongo_user.cases)
    case (marking ids r)
    note same = mark_indexed_same_ids [OF ct inv marking]
    show ?thesis using same_idsD [OF same] inv by (simp add: defs)
  next
    case (refreshing now r)
    note k = refresh_keeps_others [OF ct inv refreshing]
    from k(2) [of COLLECTION] k(2) [of DEAD_LETTER] k(1) show ?thesis by (simp add: defs stored_ids_def)
  next
    case (rewriting events r)
    then have "mongo_write c events s = (r, s')" by (simp add: mongo_write_def)
    from mongo_events.wr_inv [OF assms(1,2) this] mongo_events.wr_keeps [OF assms(1,2) this] show ?thesis by blast
  next
    case (deleting i r)
    from delete_dead_letter_ids [OF ct inv deleting(2)] deleting(1) show ?thesis by (auto simp: defs)
  next
    case reading
    with inv show ?thesis by (simp add: defs stored_ids_def store_inv_def)
  qed
qed

interpretation mongo_pipeline: shared_store sink_good sink_inv dead_ids mongo_persist event_ids_stored mongo_write mongo_user
  by unfold_locales (use mongo_user_keeps in blast)+

section \<open>The booted pipeline\<close>

text \<open>The components as \<open>lifespan\<close> constructs them, and with the consumers started.\<close>

definition wired :: "settings \<Rightarrow> 's \<Rightarrow> 's pipeline" where
  "wired cfg s = \<lparr>pl_service = new_ingestion (new_queue (queue_max_size cfg)),
      pl_pool = new_worker_pool (worker_batch_size cfg) (max_retries cfg) (retry_base_delay_seconds cfg),
      pl_dlq = new_dlq, pl_store = s, pl_tasks = [], pl_accepted = {}\<rparr>"

definition boot :: "settings \<Rightarrow> 's \<Rightarrow> 's pipeline" where
  "boot cfg s = start_pool (nat (worker_concurrency cfg)) (wired cfg s)"

lemma boot_fields [simp]:
  "pl_service (boot cfg s) = new_ingestion (new_queue (queue_max_size cfg))"
  "pl_pool (boot cfg s) = new_worker_pool (worker_batch_size cfg) (max_retries cfg) (retry_base_delay_seconds cfg)"
  "pl_dlq (boot cfg s) = new_dlq" "pl_store (boot cfg s) = s" "pl_accepted (boot cfg s) = {}"
  "pl_tasks (boot cfg s) = replicate (nat (worker_concurrency cfg)) Idle"
  by (simp_all add: boot_def start_pool_def wired_def)

lemma boot_sound: "sound (boot cfg s)"
  by (simp add: sound_def counted_def bounded_def busy_def new_ingestion_def new_queue_def sum_list_replicate)

lemma boot_attempts [simp]: "attempts_ok n (new_worker_pool b (int n) d) (replicate k Idle)"
  by (auto simp: attempts_ok_def new_worker_pool_def)



lemma boot_well: "sink_inv c s \<Longrightarrow> max_retries cfg = int n \<Longrightarrow> mongo_events.well c n (boot cfg s)"
  unfolding mongo_events.well_def
  by (intro conjI boot_sound) (auto simp: snapshots_def)

section \<open>Properties\<close>

definition mongo_step :: "'m mongo_driver \<Rightarrow> 'm mongo_view \<Rightarrow> (exn \<Rightarrow> string) \<Rightarrow> 'm mongo_store pipeline \<Rightarrow> 'm mongo_store pipeline \<Rightarrow> bool" where
  "mongo_step D V exn_str = pipeline_step (bulk_write D) (persist_dead_letters D) exn_str (mongo_user (D, V))"

definition mongo_orderly :: "'m mongo_driver \<Rightarrow> 'm mongo_view \<Rightarrow> (exn \<Rightarrow> string) \<Rightarrow> 'm mongo_store pipeline \<Rightarrow> 'm mongo_store pipeline \<Rightarrow> bool" where
  "mongo_orderly D V exn_str = orderly_step (bulk_write D) (persist_dead_letters D) exn_str (mongo_user (D, V))"

definition mongo_worker :: "'m mongo_driver \<Rightarrow> (exn \<Rightarrow> string) \<Rightarrow> 'm mongo_store pipeline \<Rightarrow> 'm mongo_store pipeline \<Rightarrow> bool" where
  "mongo_worker D exn_str = worker_step (bulk_write D) (persist_dead_letters D) exn_str"

definition mongo_ledger :: "'m mongo_view \<Rightarrow> 'm mongo_store pipeline \<Rightarrow> ledger" where
  "mongo_ledger V st = ledger_of (stored_ids V (pl_store st) COLLECTION \<union> stored_ids V (pl_store st) DEAD_LETTER \<union> buffered_ids (pl_dlq st)) st"

lemma mongo_step_ctx:
  "mongo_step D V exn_str = pipeline_step (mongo_write (D, V)) (mongo_persist (D, V)) exn_str (mongo_user (D, V))"
  "mongo_orderly D V exn_str = orderly_step (mongo_write (D, V)) (mongo_persist (D, V)) exn_str (mongo_user (D, V))"
  "mongo_worker D exn_str = worker_step (mongo_write (D, V)) (mongo_persist (D, V)) exn_str"
  by (simp_all add: mongo_step_def mongo_orderly_def mongo_worker_def mongo_write_def [abs_def] mongo_persist_def)

lemma mongo_held: "mongo_events.held (D, V) q s = stored_ids V s COLLECTION \<union> stored_ids V s DEAD_LETTER \<union> buffered_ids q"
  by (simp add: mongo_events.held_def mongo_sink.known_def event_ids_stored_def dead_ids_def Un_assoc)

lemma mongo_ledger_ctx: "mongo_ledger V st = ledger_of (mongo_events.settled_ids (D, V) st) st"
  by (simp add: mongo_ledger_def mongo_events.settled_ids_def mongo_held)

text \<open>
  C1: no accepted event is lost. In every state the running pipeline can reach, by any interleaving of
  requests, consumers, retries and the other users of Mongo in which two dead-letter pushes do not overlap,
  every event that was answered with 202 is queued, in a consumer's hands, stored, recorded in the
  dead-letter collection or buffered by the DLQ.
\<close>

theorem no_accepted_event_lost:
  assumes "mongo_contract D V" and "only_duplicate_errors D" and "store_inv V s"
    and "max_retries cfg = int n" and "n \<le> 1024" and "(mongo_orderly D V exn_str)\<^sup>*\<^sup>* (boot cfg s) st"
  shows "pl_accepted st \<subseteq> event_ids_of (q_items (pl_queue st)) \<union> event_ids_of (concat (map in_flight (pl_tasks st))) \<union>
    stored_ids V (pl_store st) COLLECTION \<union> stored_ids V (pl_store st) DEAD_LETTER \<union> buffered_ids (pl_dlq st)"
proof -
  have good: "sink_good (D, V)" and inv: "sink_inv (D, V) s" using assms(1-3) by (simp_all add: sink_good_def sink_inv_def)
  from mongo_pipeline.run_keeps_events [OF good assms(5) boot_well [OF inv assms(4)] _ assms(6) [unfolded mongo_step_ctx]]
  show ?thesis by (auto simp: mongo_held)
qed

text \<open>
  C4: the queue's accounting, whatever the store, the sink and the other users do, overlapping pushes and
  cancelled consumers included: the unfinished count is the number of events queued or in a consumer's
  hands, the queue is within its capacity, and \<open>join()\<close> may return exactly when nothing is queued or in hand.
\<close>

theorem pipeline_accounting:
  assumes "(\<lambda>st st'. pipeline_step wr persist exn_str others st st' \<or> cancel_step wr persist st st')\<^sup>*\<^sup>* (boot cfg s) st"
  shows "q_unfinished (pl_queue st) = length (q_items (pl_queue st)) + length (concat (map in_flight (pl_tasks st))) \<and>
    (0 < q_maxsize (pl_queue st) \<longrightarrow> int (length (q_items (pl_queue st))) \<le> q_maxsize (pl_queue st)) \<and>
    (join_ready (pl_queue st) \<longleftrightarrow> q_items (pl_queue st) = [] \<and> (\<forall>t \<in> set (pl_tasks st). in_flight t = []))"
proof -
  from assms have "sound st"
  proof (induction rule: rtranclp_induct)
    case (step st1 st2)
    then show ?case using worker_step_sound env_step_sound cancel_step_sound unfolding pipeline_step_def by blast
  qed (rule boot_sound)
  moreover have "busy ts = length (concat (map in_flight ts))" for ts by (simp add: busy_def length_concat comp_def)
  ultimately show ?thesis using accounting_join by (simp add: sound_def counted_def bounded_def)
qed


text \<open>
  C3: the pipeline refines the ledger. The booted pipeline is the empty ledger over what the store already
  holds, and from every state an orderly run reaches, each further step accepts an event, settles open
  events or changes nothing the ledger shows. So along every further run what was accepted stays accepted, and an
  event that is stored, recorded as a dead letter or buffered stays one of the three (the order of ledgers).
\<close>

theorem pipeline_refines_ledger:
  assumes "mongo_contract D V" and "only_duplicate_errors D" and "store_inv V s"
    and "max_retries cfg = int n" and "n \<le> 1024" and "(mongo_orderly D V exn_str)\<^sup>*\<^sup>* (boot cfg s) st"
  shows "mongo_ledger V (boot cfg s) =
      \<lparr>lg_accepted = {}, lg_open = {#}, lg_settled = stored_ids V s COLLECTION \<union> stored_ids V s DEAD_LETTER\<rparr> \<and>
    ledger_step\<^sup>*\<^sup>* (mongo_ledger V (boot cfg s)) (mongo_ledger V st) \<and>
    (\<forall>st'. mongo_orderly D V exn_str st st' \<longrightarrow> ledger_step (mongo_ledger V st) (mongo_ledger V st')) \<and>
    (\<forall>st'. (mongo_orderly D V exn_str)\<^sup>*\<^sup>* st st' \<longrightarrow> mongo_ledger V st \<le> mongo_ledger V st')"
proof (intro conjI allI impI)
  have good: "sink_good (D, V)" and inv: "sink_inv (D, V) s" using assms(1-3) by (simp_all add: sink_good_def sink_inv_def)
  note run = mongo_pipeline.run_simulates [OF good assms(5) boot_well [OF inv assms(4)] assms(6) [unfolded mongo_step_ctx]]
  show "mongo_ledger V (boot cfg s) =
      \<lparr>lg_accepted = {}, lg_open = {#}, lg_settled = stored_ids V s COLLECTION \<union> stored_ids V s DEAD_LETTER\<rparr>"
    by (simp add: mongo_ledger_def ledger_of_def new_dlq_def buffered_ids_def new_ingestion_def new_queue_def flights_def map_replicate_const)
  show "ledger_step\<^sup>*\<^sup>* (mongo_ledger V (boot cfg s)) (mongo_ledger V st)"
    using run unfolding mongo_ledger_ctx [of V _ D] by blast
  show "ledger_step (mongo_ledger V st) (mongo_ledger V st')" if "mongo_orderly D V exn_str st st'" for st'
    using mongo_pipeline.run_step_simulates [OF good assms(5) run [THEN conjunct1] that [unfolded mongo_step_ctx]]
    unfolding mongo_ledger_ctx [of V _ D] by blast
  show "mongo_ledger V st \<le> mongo_ledger V st'" if "(mongo_orderly D V exn_str)\<^sup>*\<^sup>* st st'" for st'
    using mongo_pipeline.run_simulates [OF good assms(5) run [THEN conjunct1] that [unfolded mongo_step_ctx]]
    unfolding mongo_ledger_ctx [of V _ D] by (blast intro: ledger_steps_le)
qed

text \<open>With a single consumer no two pushes can overlap: then all of this holds of every run.\<close>

lemma acknowledge_tasks: "length (pl_tasks (acknowledge i b t st)) = length (pl_tasks st)"
  by (simp add: acknowledge_def split: prod.split sum.split)

lemma worker_step_tasks: "worker_step wr persist exn_str st st' \<Longrightarrow> length (pl_tasks st') = length (pl_tasks st)"
proof (induction rule: worker_step.induct)
  case (taking i st st')
  from taking(3) show ?case by (cases rule: take_step_cases) (auto simp: begin_batch_def acknowledge_tasks)
qed (auto simp: write_step_def push_step_def acknowledge_tasks Let_def split: prod.split sum.split)

lemma mongo_step_tasks: "mongo_step D V exn_str st st' \<Longrightarrow> length (pl_tasks st') = length (pl_tasks st)"
  unfolding mongo_step_def pipeline_step_def env_step_iff by (auto dest: worker_step_tasks)

lemma one_consumer_orderly:
  assumes "(mongo_step D V exn_str)\<^sup>*\<^sup>* (boot cfg s) st" and "worker_concurrency cfg = 1"
  shows "(mongo_orderly D V exn_str)\<^sup>*\<^sup>* (boot cfg s) st"
proof -
  have "(mongo_orderly D V exn_str)\<^sup>*\<^sup>* (boot cfg s) st \<and> length (pl_tasks st) = 1"
    using assms(1)
  proof (induction rule: rtranclp_induct)
    case (step st1 st2)
    then have "mongo_orderly D V exn_str st1 st2"
      by (simp add: mongo_orderly_def orderly_step_def mongo_step_def one_push_def)
    with step mongo_step_tasks [OF step(2)] show ?case by (auto intro: rtranclp.rtrancl_into_rtrancl)
  qed (simp add: assms(2))
  then show ?thesis by simp
qed

section \<open>A run\<close>

text \<open>One consumer, one request, accepted, taken and written.\<close>

definition one_worker :: settings where
  "one_worker = default_settings\<lparr>worker_concurrency := 1\<rparr>"

definition keyed_id :: string where
  "keyed_id = event_id_for (replicate 16 0) None"

definition run_accepted :: "mem mongo_store pipeline" where
  "run_accepted = (let st = boot one_worker (mem_store []) in
     st\<lparr>pl_service := snd (ingest (replicate 16 0) (utc_datetime 7000) sample_create None (pl_service st)), pl_accepted := {keyed_id}\<rparr>)"

definition run_taken :: "mem mongo_store pipeline" where
  "run_taken = set_task 0 (Writing [sample_event keyed_id] 0) (set_queue ((pl_queue run_accepted)\<lparr>q_items := []\<rparr>) run_accepted)"

definition run_stored :: "mem mongo_store pipeline" where
  "run_stored = write_step (bulk_write (mem_driver True)) (\<lambda>_. ''x'') (\<lambda>_. utc_datetime 0) 0 0 [sample_event keyed_id] 0 run_taken"

lemma one_worker_fields [simp]:
  "worker_concurrency one_worker = 1" "max_retries one_worker = 5" "queue_max_size one_worker = 10000"
  "worker_batch_size one_worker = 100" "retry_base_delay_seconds one_worker = 1 / 2"
  by (simp_all add: one_worker_def default_settings_def)

lemma boot_ingest:
  "ingest (replicate 16 0) (utc_datetime 7000) sample_create None (pl_service (boot one_worker s)) =
    (Inr (sample_event keyed_id), \<lparr>is_queue = \<lparr>q_items = [sample_event keyed_id], q_maxsize = 10000, q_unfinished = 1\<rparr>, is_accepting = True\<rparr>)"
  by (simp add: new_ingestion_def new_queue_def ingest_ok full_def qsize_def sample_event_def keyed_id_def)

lemma run_accepted_eq:
  "run_accepted = (boot one_worker (mem_store []))\<lparr>pl_service := \<lparr>is_queue = \<lparr>q_items = [sample_event keyed_id], q_maxsize = 10000,
      q_unfinished = 1\<rparr>, is_accepting = True\<rparr>, pl_accepted := {keyed_id}\<rparr>"
  unfolding run_accepted_def Let_def boot_ingest by simp

lemma run_taken_step: "take_step 0 run_accepted = Some run_taken"
  by (simp add: take_step_def run_taken_def run_accepted_eq get_def get_nowait_def gather_eq begin_batch_def attempt_range_def
      new_worker_pool_def)

lemma run_stored_eq:
  "run_stored = set_task 0 Idle (set_queue \<lparr>q_items = [], q_maxsize = 10000, q_unfinished = 0\<rparr>
     (run_taken\<lparr>pl_store := mem_written keyed_id, pl_pool := note_success 1 (pl_pool run_taken)\<rparr>))"
proof -
  have "pl_store run_taken = mem_store []" "pl_queue run_taken = \<lparr>q_items = [], q_maxsize = 10000, q_unfinished = 1\<rparr>"
    by (simp_all add: run_taken_def run_accepted_eq)
  then show ?thesis by (simp add: run_stored_def write_step_def mem_store_write acknowledge_eq)
qed

lemma single_task_one_push: "length (pl_tasks st) = 1 \<Longrightarrow> one_push st"
  by (simp add: one_push_def)

lemma run_steps:
  "mongo_orderly (mem_driver True) mem_view (\<lambda>_. ''x'') (boot one_worker (mem_store [])) run_accepted"
  "mongo_worker (mem_driver True) (\<lambda>_. ''x'') run_accepted run_taken"
  "mongo_worker (mem_driver True) (\<lambda>_. ''x'') run_taken run_stored"
proof -
  let ?b = "boot one_worker (mem_store [])"
  have "env_step (mongo_user (mem_driver True, mem_view)) ?b
     (?b\<lparr>pl_service := \<lparr>is_queue = \<lparr>q_items = [sample_event keyed_id], q_maxsize = 10000, q_unfinished = 1\<rparr>, is_accepting = True\<rparr>,
       pl_accepted := insert (event_id (sample_event keyed_id)) (pl_accepted ?b)\<rparr>)"
    by (rule env_step.accepted [OF boot_ingest]) (simp add: event_ok_def sample_create_def)
  then show "mongo_orderly (mem_driver True) mem_view (\<lambda>_. ''x'') ?b run_accepted"
    by (simp add: run_accepted_eq mongo_orderly_def orderly_step_def pipeline_step_def single_task_one_push)
  show "mongo_worker (mem_driver True) (\<lambda>_. ''x'') run_accepted run_taken"
    unfolding mongo_worker_def by (rule worker_step.taking [where i = 0]) (simp_all add: run_taken_step, simp_all add: run_accepted_eq)
  show "mongo_worker (mem_driver True) (\<lambda>_. ''x'') run_taken run_stored"
    unfolding mongo_worker_def run_stored_def
    by (rule worker_step.writing) (simp_all add: run_taken_def run_accepted_eq)
qed

lemma run_orderly: "(mongo_orderly (mem_driver True) mem_view (\<lambda>_. ''x''))\<^sup>*\<^sup>* (boot one_worker (mem_store [])) run_stored"
proof -
  have "one_push run_accepted" "one_push run_taken"
    by (simp_all add: single_task_one_push run_taken_def run_accepted_eq)
  with run_steps(2,3) have "mongo_orderly (mem_driver True) mem_view (\<lambda>_. ''x'') run_accepted run_taken"
    "mongo_orderly (mem_driver True) mem_view (\<lambda>_. ''x'') run_taken run_stored"
    by (simp_all add: mongo_orderly_def orderly_step_def pipeline_step_def mongo_worker_def)
  with run_steps(1) show ?thesis by (meson rtranclp.rtrancl_into_rtrancl rtranclp.rtrancl_refl)
qed

lemma run_step: "(mongo_step (mem_driver True) mem_view (\<lambda>_. ''x''))\<^sup>*\<^sup>* (boot one_worker (mem_store [])) run_stored"
  using run_orderly by (rule rtranclp_mono [THEN predicate2D, rotated])
    (auto simp: mongo_orderly_def mongo_step_def orderly_step_def)

lemma run_stored_fields:
  "pl_accepted run_stored = {keyed_id}" "q_items (pl_queue run_stored) = []" "pl_tasks run_stored = [Idle]"
  "pl_dlq run_stored = new_dlq" "pl_store run_stored = mem_written keyed_id"
  by (simp_all add: run_stored_eq run_taken_def run_accepted_eq)

theorem no_accepted_event_lost_witness:
  "pl_accepted run_stored = {keyed_id} \<and>
   {keyed_id} \<subseteq> stored_ids mem_view (mem_written keyed_id) COLLECTION \<union> stored_ids mem_view (mem_written keyed_id) DEAD_LETTER"
  using no_accepted_event_lost [OF mem_contract mem_only_duplicates mem_store_inv _ _ run_orderly, of 5]
  by (simp add: run_stored_fields event_ids_of_def buffered_ids_def new_dlq_def)

theorem pipeline_accounting_witness: "q_unfinished (pl_queue run_stored) = 0 \<and> join_ready (pl_queue run_stored)"
proof -
  let ?step = "pipeline_step (bulk_write (mem_driver True)) (persist_dead_letters (mem_driver True)) (\<lambda>_. ''x'') (mongo_user (mem_driver True, mem_view))"
  let ?cancel = "cancel_step (bulk_write (mem_driver True)) (persist_dead_letters (mem_driver True))"
  have "(\<lambda>st st'. ?step st st' \<or> ?cancel st st')\<^sup>*\<^sup>* (boot one_worker (mem_store [])) run_stored"
    using run_step unfolding mongo_step_def by (rule rtranclp_mono [THEN predicate2D, rotated]) blast
  from pipeline_accounting [OF this] show ?thesis by (simp add: run_stored_fields)
qed


theorem pipeline_refines_ledger_witness:
  "ledger_step\<^sup>*\<^sup>* \<lparr>lg_accepted = {}, lg_open = {#}, lg_settled = {}\<rparr> (mongo_ledger mem_view run_stored) \<and>
   lg_accepted (mongo_ledger mem_view run_stored) = {keyed_id}"
proof -
  have "stored_ids mem_view (mem_store []) c = {}" for c
    by (simp add: stored_ids_def store_docs_def mem_store_def mem_view_def mem_new_def)
  moreover have p: "max_retries one_worker = int 5" "(5 :: nat) \<le> 1024" by simp_all
  note r = pipeline_refines_ledger [OF mem_contract mem_only_duplicates mem_store_inv p run_orderly]
  moreover have "lg_accepted (mongo_ledger mem_view run_stored) = {keyed_id}"
    by (simp add: mongo_ledger_def ledger_of_def run_stored_fields)
  ultimately show ?thesis using r [THEN conjunct1] r [THEN conjunct2, THEN conjunct1] by simp
qed

end
