(* ===== verification/Redis_Contract.thy ===== *)
theory Redis_Contract
  imports Acheron_Prelude
begin

text \<open>
  The Redis client as \<open>app/cache/redis_cache.py\<close> uses it: a record of operations over an unknown state, and
  what Redis documents of them. A view \<open>V\<close> gives the stored entries (value and expiry time), \<open>tm\<close> the
  server's clock in seconds. Time passes between and during calls; an entry is never served at or after its
  expiry time. A call that raises may have been applied or not.
\<close>

record 'r redis_driver =
  rd_new :: "string \<Rightarrow> 'r"
  rd_ping :: "('r, bool) io"
  rd_aclose :: "('r, unit) io"
  rd_get :: "string \<Rightarrow> ('r, string option) io"
  rd_set :: "string \<Rightarrow> string \<Rightarrow> int \<Rightarrow> ('r, unit) io"
  rd_set_nx :: "string \<Rightarrow> string \<Rightarrow> int \<Rightarrow> ('r, bool) io"
  rd_incr :: "string \<Rightarrow> ('r, int) io"
  rd_expire :: "string \<Rightarrow> int \<Rightarrow> ('r, unit) io"

type_synonym redis_data = "string \<Rightarrow> (string \<times> int option) option"

text \<open>
  The entries \<open>K\<close> a call acts on: some of those stored before, without the expired ones. When \<open>keeps\<close> is set
  (the server evicts nothing), every entry whose expiry lies after the end of the call is among them.
\<close>

definition aged :: "bool \<Rightarrow> ('r \<Rightarrow> redis_data) \<Rightarrow> ('r \<Rightarrow> int) \<Rightarrow> 'r \<Rightarrow> redis_data \<Rightarrow> 'r \<Rightarrow> bool" where
  "aged keeps V tm w K w' \<longleftrightarrow> tm w \<le> tm w' \<and> K \<subseteq>\<^sub>m V w \<and> (\<forall>k v d. K k = Some (v, Some d) \<longrightarrow> tm w < d) \<and>
     (keeps \<longrightarrow> (\<forall>k v d. V w k = Some (v, d) \<longrightarrow> (\<forall>t. d = Some t \<longrightarrow> tm w' < t) \<longrightarrow> K k = Some (v, d)))"

text \<open>An expiry set during a call by \<open>EX ttl\<close>.\<close>

definition deadline :: "('r \<Rightarrow> int) \<Rightarrow> 'r \<Rightarrow> 'r \<Rightarrow> int \<Rightarrow> int \<Rightarrow> bool" where
  "deadline tm w w' ttl d \<longleftrightarrow> tm w + ttl \<le> d \<and> d \<le> tm w' + ttl"

text \<open>The integer a counter key holds, and its expiry: an absent key counts as 0.\<close>

definition counter :: "redis_data \<Rightarrow> string \<Rightarrow> int \<Rightarrow> int option \<Rightarrow> bool" where
  "counter K k m d \<longleftrightarrow> K k = Some (int_str m, d) \<or> K k = None \<and> m = 0 \<and> d = None"

definition get_contract :: "bool \<Rightarrow> 'r redis_driver \<Rightarrow> ('r \<Rightarrow> redis_data) \<Rightarrow> ('r \<Rightarrow> int) \<Rightarrow> bool" where
  "get_contract keeps R V tm \<longleftrightarrow> (\<forall>k w r w'. rd_get R k w = (r, w') \<longrightarrow>
     (\<exists>K. aged keeps V tm w K w' \<and> V w' = K \<and> (\<forall>v. r = Inr v \<longrightarrow> v = map_option fst (K k))))"

definition set_contract :: "bool \<Rightarrow> 'r redis_driver \<Rightarrow> ('r \<Rightarrow> redis_data) \<Rightarrow> ('r \<Rightarrow> int) \<Rightarrow> bool" where
  "set_contract keeps R V tm \<longleftrightarrow> (\<forall>k v ttl w r w'. rd_set R k v ttl w = (r, w') \<longrightarrow>
     (\<exists>K d. aged keeps V tm w K w' \<and> deadline tm w w' ttl d \<and>
       (V w' = K(k \<mapsto> (v, Some d)) \<or> V w' = K \<and> (\<exists>e. r = Inl e))))"

definition set_nx_contract :: "bool \<Rightarrow> 'r redis_driver \<Rightarrow> ('r \<Rightarrow> redis_data) \<Rightarrow> ('r \<Rightarrow> int) \<Rightarrow> bool" where
  "set_nx_contract keeps R V tm \<longleftrightarrow> (\<forall>k v ttl w r w'. rd_set_nx R k v ttl w = (r, w') \<longrightarrow>
     (\<exists>K d. aged keeps V tm w K w' \<and> deadline tm w w' ttl d \<and>
       (K k = None \<and> V w' = K(k \<mapsto> (v, Some d)) \<and> r \<noteq> Inr False \<or> V w' = K \<and> r \<noteq> Inr True \<and> (r = Inr False \<longrightarrow> K k \<noteq> None))))"

definition incr_contract :: "bool \<Rightarrow> 'r redis_driver \<Rightarrow> ('r \<Rightarrow> redis_data) \<Rightarrow> ('r \<Rightarrow> int) \<Rightarrow> bool" where
  "incr_contract keeps R V tm \<longleftrightarrow> (\<forall>k w r w'. rd_incr R k w = (r, w') \<longrightarrow>
     (\<exists>K. aged keeps V tm w K w' \<and>
       ((\<exists>m d. counter K k m d \<and> V w' = K(k \<mapsto> (int_str (m + 1), d)) \<and> (\<forall>n. r = Inr n \<longrightarrow> n = m + 1)) \<or>
        V w' = K \<and> (\<exists>e. r = Inl e))))"

definition expire_contract :: "bool \<Rightarrow> 'r redis_driver \<Rightarrow> ('r \<Rightarrow> redis_data) \<Rightarrow> ('r \<Rightarrow> int) \<Rightarrow> bool" where
  "expire_contract keeps R V tm \<longleftrightarrow> (\<forall>k ttl w r w'. rd_expire R k ttl w = (r, w') \<longrightarrow>
     (\<exists>K d. aged keeps V tm w K w' \<and> deadline tm w w' ttl d \<and>
       (V w' = (case K k of None \<Rightarrow> K | Some (v, _) \<Rightarrow> K(k \<mapsto> (v, Some d))) \<or> V w' = K \<and> (\<exists>e. r = Inl e))))"

text \<open>What a call raises is an \<open>Exception\<close>: the task is not being cancelled.\<close>

definition ordinary :: "('r, 'a) io \<Rightarrow> bool" where
  "ordinary f \<longleftrightarrow> (\<forall>w e w'. f w = (Inl e, w') \<longrightarrow> is_Exception e)"

definition redis_contract :: "bool \<Rightarrow> 'r redis_driver \<Rightarrow> ('r \<Rightarrow> redis_data) \<Rightarrow> ('r \<Rightarrow> int) \<Rightarrow> bool" where
  "redis_contract keeps R V tm \<longleftrightarrow> get_contract keeps R V tm \<and> set_contract keeps R V tm \<and> set_nx_contract keeps R V tm \<and>
     incr_contract keeps R V tm \<and> expire_contract keeps R V tm \<and>
     (\<forall>k v ttl. ordinary (rd_get R k) \<and> ordinary (rd_set R k v ttl) \<and> ordinary (rd_set_nx R k v ttl) \<and>
       ordinary (rd_incr R k) \<and> ordinary (rd_expire R k ttl))"

text \<open>A server that is up: every call returns, \<open>INCR\<close> at least on a counter.\<close>

definition answers :: "'r redis_driver \<Rightarrow> ('r \<Rightarrow> redis_data) \<Rightarrow> bool" where
  "answers R V \<longleftrightarrow> (\<forall>k w. \<exists>v w'. rd_get R k w = (Inr v, w')) \<and> (\<forall>k v ttl w. \<exists>w'. rd_set R k v ttl w = (Inr (), w')) \<and>
     (\<forall>k v ttl w. \<exists>b w'. rd_set_nx R k v ttl w = (Inr b, w')) \<and> (\<forall>k ttl w. \<exists>w'. rd_expire R k ttl w = (Inr (), w')) \<and>
     (\<forall>k w m d. counter (V w) k m d \<longrightarrow> (\<exists>n w'. rd_incr R k w = (Inr n, w')))"

section \<open>An in-memory Redis\<close>

text \<open>
  Entries with their expiry, a clock, and a script of what happens at the coming calls: how many seconds pass
  before the call, and whether it is lost before (1) or after (2) it was applied (never, unless \<open>faulty\<close>).
\<close>

record redis_mem =
  rm_data :: redis_data
  rm_clock :: int
  rm_script :: "(nat \<times> nat) list"

definition rm_new :: "int \<Rightarrow> (nat \<times> nat) list \<Rightarrow> redis_mem" where
  "rm_new t script = \<lparr>rm_data = (\<lambda>_. None), rm_clock = t, rm_script = script\<rparr>"

definition live :: "int \<Rightarrow> redis_data \<Rightarrow> redis_data" where
  "live t D k = (case D k of Some (v, Some d) \<Rightarrow> if d \<le> t then None else Some (v, Some d) | e \<Rightarrow> e)"

definition rm_call :: "bool \<Rightarrow> (int \<Rightarrow> redis_data \<Rightarrow> (exn + 'a) \<times> redis_data) \<Rightarrow> (redis_mem, 'a) io" where
  "rm_call faulty f m =
     (let (dt, fault) = (case rm_script m of [] \<Rightarrow> (0, 0) | (dt, x) # _ \<Rightarrow> (dt, if faulty then x else 0));
          t = rm_clock m + int dt; D = live t (rm_data m); m' = m\<lparr>rm_data := D, rm_clock := t, rm_script := tl (rm_script m)\<rparr>
      in if fault = 1 then (Inl (RedisErr ''connection lost''), m')
         else (case f t D of (r, D') \<Rightarrow> (if fault = 2 then Inl (RedisErr ''timeout'') else r, m'\<lparr>rm_data := D'\<rparr>)))"

definition int_of_str :: "string \<Rightarrow> int option" where
  "int_of_str s = (let n = (case s of [] \<Rightarrow> 0 | c # r \<Rightarrow> if c = CHR ''-'' then - int (digits_val r) else int (digits_val s)) in
     if int_str n = s then Some n else None)"

definition rm_driver :: "bool \<Rightarrow> redis_mem \<Rightarrow> redis_mem redis_driver" where
  "rm_driver faulty m0 = \<lparr>
     rd_new = (\<lambda>_. m0),
     rd_ping = rm_call faulty (\<lambda>t D. (Inr True, D)),
     rd_aclose = rm_call faulty (\<lambda>t D. (Inr (), D)),
     rd_get = (\<lambda>k. rm_call faulty (\<lambda>t D. (Inr (map_option fst (D k)), D))),
     rd_set = (\<lambda>k v ttl. rm_call faulty (\<lambda>t D. (Inr (), D(k \<mapsto> (v, Some (t + ttl)))))),
     rd_set_nx = (\<lambda>k v ttl. rm_call faulty (\<lambda>t D. if D k = None then (Inr True, D(k \<mapsto> (v, Some (t + ttl)))) else (Inr False, D))),
     rd_incr = (\<lambda>k. rm_call faulty (\<lambda>t D. case D k of
         None \<Rightarrow> (Inr 1, D(k \<mapsto> (int_str 1, None)))
       | Some (s, d) \<Rightarrow> (case int_of_str s of
             None \<Rightarrow> (Inl (RedisErr ''value is not an integer''), D)
           | Some n \<Rightarrow> (Inr (n + 1), D(k \<mapsto> (int_str (n + 1), d)))))),
     rd_expire = (\<lambda>k ttl. rm_call faulty (\<lambda>t D. (Inr (), case D k of None \<Rightarrow> D | Some (v, _) \<Rightarrow> D(k \<mapsto> (v, Some (t + ttl))))))\<rparr>"

lemma live_aged:
  "0 \<le> dt \<Longrightarrow> rm_clock w' = rm_clock w + dt \<Longrightarrow> aged True rm_data rm_clock w (live (rm_clock w + dt) (rm_data w)) w'"
  by (auto simp: aged_def live_def map_le_def dom_def split: option.splits prod.splits if_splits)

lemma rm_call_cases:
  assumes "rm_call faulty f w = (r, w')"
  obtains t D where "aged True rm_data rm_clock w D w'" "rm_clock w' = t" "rm_clock w \<le> t"
    "rm_data w' = D \<and> (\<exists>e. r = Inl e) \<or> rm_data w' = snd (f t D) \<and> (r = fst (f t D) \<or> (\<exists>e. r = Inl e))"
proof -
  obtain dt fault where x: "(case rm_script w of [] \<Rightarrow> (0, 0) | (dt, x) # _ \<Rightarrow> (dt, if faulty then x else 0)) = (dt, fault)" by (metis surj_pair)
  let ?t = "rm_clock w + int dt"
  have clock: "rm_clock w' = ?t"
    using assms x by (auto simp: rm_call_def Let_def split: if_splits prod.splits)
  moreover have "rm_data w' = live ?t (rm_data w) \<and> (\<exists>e. r = Inl e) \<or> rm_data w' = snd (f ?t (live ?t (rm_data w))) \<and>
      (r = fst (f ?t (live ?t (rm_data w))) \<or> (\<exists>e. r = Inl e))"
    using assms x by (auto simp: rm_call_def Let_def split: if_splits prod.splits)
  moreover from clock have "aged True rm_data rm_clock w (live ?t (rm_data w)) w'" by (intro live_aged) simp_all
  ultimately show thesis by (intro that [of "live ?t (rm_data w)" ?t]) simp_all
qed

lemma int_of_str_Some: "int_of_str s = Some n \<Longrightarrow> s = int_str n"
  by (auto simp: int_of_str_def Let_def split: if_splits)

lemma aged_deadline: "aged keeps V tm w K w' \<Longrightarrow> deadline tm w w' ttl (tm w' + ttl)"
  by (simp add: aged_def deadline_def)

lemma rm_call_ordinary: "(\<And>t D e D'. f t D = (Inl e, D') \<Longrightarrow> is_Exception e) \<Longrightarrow> ordinary (rm_call faulty f)"
  by (auto simp: ordinary_def rm_call_def Let_def is_Exception_def split: prod.splits if_splits)

lemma rm_call_sure:
  obtains t m' where "rm_call False f m = (fst (f t (live t (rm_data m))), m')"
proof -
  have "\<exists>t. fst (rm_call False f m) = fst (f t (live t (rm_data m)))"
    by (cases "rm_script m") (auto simp: rm_call_def Let_def split_def)
  then show thesis by (metis that prod.collapse)
qed

lemma rm_contract: "redis_contract True (rm_driver faulty m0) rm_data rm_clock"
  unfolding redis_contract_def
proof (intro conjI allI)
  show "get_contract True (rm_driver faulty m0) rm_data rm_clock"
    unfolding get_contract_def rm_driver_def by (auto elim!: rm_call_cases)
  show "set_contract True (rm_driver faulty m0) rm_data rm_clock"
    unfolding set_contract_def
  proof (intro allI impI)
    fix k v ttl w r w' assume "rd_set (rm_driver faulty m0) k v ttl w = (r, w')"
    then obtain D where "aged True rm_data rm_clock w D w'"
      "rm_data w' = D(k \<mapsto> (v, Some (rm_clock w' + ttl))) \<or> rm_data w' = D \<and> (\<exists>e. r = Inl e)"
      by (auto simp: rm_driver_def elim!: rm_call_cases)
    then show "\<exists>K d. aged True rm_data rm_clock w K w' \<and> deadline rm_clock w w' ttl d \<and>
       (rm_data w' = K(k \<mapsto> (v, Some d)) \<or> rm_data w' = K \<and> (\<exists>e. r = Inl e))"
      by (intro exI [of _ D] exI [of _ "rm_clock w' + ttl"]) (auto simp: aged_deadline)
  qed
  show "set_nx_contract True (rm_driver faulty m0) rm_data rm_clock"
    unfolding set_nx_contract_def
  proof (intro allI impI)
    fix k v ttl w r w' assume "rd_set_nx (rm_driver faulty m0) k v ttl w = (r, w')"
    then obtain D where "aged True rm_data rm_clock w D w'"
      "D k = None \<and> rm_data w' = D(k \<mapsto> (v, Some (rm_clock w' + ttl))) \<and> r \<noteq> Inr False \<or>
       rm_data w' = D \<and> r \<noteq> Inr True \<and> (r = Inr False \<longrightarrow> D k \<noteq> None)"
      by (auto simp: rm_driver_def elim!: rm_call_cases split: if_splits)
    then show "\<exists>K d. aged True rm_data rm_clock w K w' \<and> deadline rm_clock w w' ttl d \<and>
       (K k = None \<and> rm_data w' = K(k \<mapsto> (v, Some d)) \<and> r \<noteq> Inr False \<or>
        rm_data w' = K \<and> r \<noteq> Inr True \<and> (r = Inr False \<longrightarrow> K k \<noteq> None))"
      by (intro exI [of _ D] exI [of _ "rm_clock w' + ttl"]) (auto simp: aged_deadline)
  qed
  show "incr_contract True (rm_driver faulty m0) rm_data rm_clock"
    unfolding incr_contract_def rm_driver_def counter_def
    by (auto elim!: rm_call_cases split: option.splits prod.splits dest!: int_of_str_Some) fastforce+
  show "expire_contract True (rm_driver faulty m0) rm_data rm_clock"
    unfolding expire_contract_def
  proof (intro allI impI)
    fix k ttl w r w' assume "rd_expire (rm_driver faulty m0) k ttl w = (r, w')"
    then obtain D where "aged True rm_data rm_clock w D w'"
      "rm_data w' = (case D k of None \<Rightarrow> D | Some (v, _) \<Rightarrow> D(k \<mapsto> (v, Some (rm_clock w' + ttl)))) \<or> rm_data w' = D \<and> (\<exists>e. r = Inl e)"
      by (auto simp: rm_driver_def elim!: rm_call_cases)
    then show "\<exists>K d. aged True rm_data rm_clock w K w' \<and> deadline rm_clock w w' ttl d \<and>
       (rm_data w' = (case K k of None \<Rightarrow> K | Some (v, _) \<Rightarrow> K(k \<mapsto> (v, Some d))) \<or> rm_data w' = K \<and> (\<exists>e. r = Inl e))"
      by (intro exI [of _ D] exI [of _ "rm_clock w' + ttl"]) (auto simp: aged_deadline)
  qed
qed (auto simp: rm_driver_def intro!: rm_call_ordinary simp: is_Exception_def split: option.splits prod.splits if_splits)

lemma int_of_int_str [simp]: "int_of_str (int_str m) = Some m"
proof -
  have "hd (nat_str n) \<noteq> CHR ''-''" for n
    using nat_str_digits [of n] hd_in_set [OF nat_str_nonempty, of n] minus_not_digit by metis
  then have plain: "nat_str n = c # r \<Longrightarrow> c \<noteq> CHR ''-''" for n c r by (metis list.sel(1))
  show ?thesis
  proof (cases "m < 0")
    case True
    then show ?thesis by (simp add: int_of_str_def int_str_def)
  next
    case False
    obtain c r where n: "nat_str (nat m) = c # r" by (cases "nat_str (nat m)") auto
    have "digits_val (c # r) = nat m" using n digits_val_nat_str by metis
    with False plain [OF n] n show ?thesis by (simp add: int_of_str_def int_str_def)
  qed
qed

lemma live_counter: "counter D k m d \<Longrightarrow> \<exists>m d. counter (live t D) k m d"
  by (auto simp: counter_def live_def split: option.splits)

lemma rm_answers: "answers (rm_driver False m0) rm_data"
proof -
  have always: "\<exists>v w'. rm_call False f w = (Inr v, w')" if "\<And>t D. \<exists>v. fst (f t D) = Inr v"
    for f :: "int \<Rightarrow> redis_data \<Rightarrow> (exn + 'a) \<times> redis_data" and w
  proof -
    obtain t m' where "rm_call False f w = (fst (f t (live t (rm_data w))), m')" by (rule rm_call_sure)
    with that show ?thesis by metis
  qed
  have unit: "\<exists>w'. rm_call False f w = (Inr (), w')" if "\<And>t D. fst (f t D) = Inr ()"
    for f :: "int \<Rightarrow> redis_data \<Rightarrow> (exn + unit) \<times> redis_data" and w
    using always [of f w] that by (auto simp: unit_eq)
  have "\<exists>n w'. rd_incr (rm_driver False m0) k w = (Inr n, w')" if "counter (rm_data w) k m d" for k w m d
  proof -
    define f where "f = (\<lambda>(t :: int) D. case D k of
         None \<Rightarrow> (Inr 1 :: exn + int, D(k \<mapsto> (int_str 1, None :: int option)))
       | Some (s, d) \<Rightarrow> (case int_of_str s of
             None \<Rightarrow> (Inl (RedisErr ''value is not an integer''), D)
           | Some n \<Rightarrow> (Inr (n + 1), D(k \<mapsto> (int_str (n + 1), d)))))"
    obtain t m' where r: "rm_call False f w = (fst (f t (live t (rm_data w))), m')" by (rule rm_call_sure)
    obtain n e where "counter (live t (rm_data w)) k n e" using live_counter \<open>counter _ k m d\<close> by blast
    then have "\<exists>v. fst (f t (live t (rm_data w))) = Inr v" by (auto simp: counter_def f_def)
    with r have "\<exists>n w'. rm_call False f w = (Inr n, w')" by auto
    then show ?thesis by (simp add: rm_driver_def f_def)
  qed
  moreover have "\<exists>v w'. rd_get (rm_driver False m0) k w = (Inr v, w')" for k w
    by (simp add: rm_driver_def always)
  moreover have "\<exists>b w'. rd_set_nx (rm_driver False m0) k v ttl w = (Inr b, w')" for k v ttl w
    unfolding rm_driver_def by (simp, rule always) auto
  moreover have "\<exists>w'. rd_set (rm_driver False m0) k v ttl w = (Inr (), w')" for k v ttl w
    by (simp add: rm_driver_def unit)
  moreover have "\<exists>w'. rd_expire (rm_driver False m0) k ttl w = (Inr (), w')" for k ttl w
    by (simp add: rm_driver_def unit)
  ultimately show ?thesis by (simp add: answers_def)
qed

end
