(* ===== verification/Json.thy ===== *)
theory Json
  imports Hashing Py_Values "HOL-Library.List_Lexorder" "HOL-Library.Char_ord"
begin

text \<open>
  Python's \<open>json\<close> module as the code uses it: \<open>dumps\<close> with the default or the compact separators, with
  \<open>sort_keys\<close> and with \<open>default=str\<close>, and \<open>loads\<close>. It is a model of the library, not of code of the repository.
  Characters are code points below 256, and a four-digit escape above \<open>00FF\<close>, which Python reads, is refused here;
  a float is its \<open>repr\<close>, and \<open>loads\<close> keeps the lexeme it reads.
\<close>

section \<open>Printing\<close>

definition escape_char :: "char \<Rightarrow> string" where
  "escape_char c = (let n = (of_char c :: nat) in
     if c = CHR 0x22 then [CHR 0x5C, CHR 0x22]
     else if c = CHR 0x5C then [CHR 0x5C, CHR 0x5C]
     else if n = 10 then [CHR 0x5C, CHR ''n'']
     else if n = 13 then [CHR 0x5C, CHR ''r'']
     else if n = 9 then [CHR 0x5C, CHR ''t'']
     else if n = 12 then [CHR 0x5C, CHR ''f'']
     else if n = 8 then [CHR 0x5C, CHR ''b'']
     else if 32 \<le> n \<and> n \<le> 126 then [c]
     else [CHR 0x5C, CHR ''u'', CHR ''0'', CHR ''0'', hex_char (n div 16), hex_char (n mod 16)])"

definition quote :: "string \<Rightarrow> string" where
  "quote s = CHR 0x22 # concat (map escape_char s) @ [CHR 0x22]"

definition float_text :: "string \<Rightarrow> string" where
  "float_text r = (if r = ''nan'' then ''NaN'' else if r = ''inf'' then ''Infinity'' else if r = ''-inf'' then ''-Infinity'' else r)"

text \<open>\<open>isep\<close> and \<open>ksep\<close> are the item and the key separator.\<close>

fun dumps :: "string \<Rightarrow> string \<Rightarrow> pyval \<Rightarrow> string"
  and dump_items :: "string \<Rightarrow> string \<Rightarrow> pyval list \<Rightarrow> string"
  and dump_members :: "string \<Rightarrow> string \<Rightarrow> (string \<times> pyval) list \<Rightarrow> string" where
  "dumps isep ksep PNone = ''null''"
| "dumps isep ksep (PBool b) = (if b then ''true'' else ''false'')"
| "dumps isep ksep (PInt i) = int_str i"
| "dumps isep ksep (PFloat r) = float_text r"
| "dumps isep ksep (PStr s) = quote s"
| "dumps isep ksep (PDate d) = quote (isoformat_sep '' '' d)"
| "dumps isep ksep (PList []) = ''[]''"
| "dumps isep ksep (PList (v # vs)) = CHR ''['' # dumps isep ksep v @ dump_items isep ksep vs"
| "dumps isep ksep (PDict []) = ''{}''"
| "dumps isep ksep (PDict ((k, v) # d)) = CHR ''{'' # quote k @ ksep @ dumps isep ksep v @ dump_members isep ksep d"
| "dump_items isep ksep [] = '']''"
| "dump_items isep ksep (v # vs) = isep @ dumps isep ksep v @ dump_items isep ksep vs"
| "dump_members isep ksep [] = ''}''"
| "dump_members isep ksep ((k, v) # d) = isep @ quote k @ ksep @ dumps isep ksep v @ dump_members isep ksep d"

abbreviation json_dumps :: "pyval \<Rightarrow> string" where
  "json_dumps \<equiv> dumps '', '' '': ''"

text \<open>\<open>sort_keys=True\<close>: the members of every dict in the order of their keys.\<close>

fun sort_members :: "pyval \<Rightarrow> pyval" where
  "sort_members (PDict d) = PDict (sort_key fst (map (\<lambda>kv. (fst kv, sort_members (snd kv))) d))"
| "sort_members (PList vs) = PList (map sort_members vs)"
| "sort_members v = v"

definition canonical_json :: "pyval \<Rightarrow> string" where
  "canonical_json v = dumps '','' '':'' (sort_members v)"

section \<open>Reading\<close>

definition json_space :: "char \<Rightarrow> bool" where
  "json_space c \<longleftrightarrow> (of_char c :: nat) \<in> {9, 10, 13, 32}"

abbreviation skip_ws :: "string \<Rightarrow> string" where
  "skip_ws \<equiv> dropWhile json_space"

definition hex_value :: "char \<Rightarrow> nat option" where
  "hex_value c = (let n = (of_char c :: nat) in
     if 48 \<le> n \<and> n \<le> 57 then Some (n - 48)
     else if 97 \<le> n \<and> n \<le> 102 then Some (n - 87)
     else if 65 \<le> n \<and> n \<le> 70 then Some (n - 55) else None)"

definition simple_escape :: "char \<Rightarrow> char option" where
  "simple_escape c = (if c = CHR 0x22 \<or> c = CHR 0x5C \<or> c = CHR ''/'' then Some c
     else if c = CHR ''n'' then Some (char_of (10::nat)) else if c = CHR ''r'' then Some (char_of (13::nat))
     else if c = CHR ''t'' then Some (char_of (9::nat)) else if c = CHR ''f'' then Some (char_of (12::nat))
     else if c = CHR ''b'' then Some (char_of (8::nat)) else None)"

definition unicode_escape :: "char \<Rightarrow> char \<Rightarrow> char \<Rightarrow> char \<Rightarrow> char option" where
  "unicode_escape a b c d = (case (hex_value a, hex_value b, hex_value c, hex_value d) of
     (Some 0, Some 0, Some h, Some l) \<Rightarrow> Some (char_of (16 * h + l)) | _ \<Rightarrow> None)"

definition cons_fst :: "char \<Rightarrow> (string \<times> string) option \<Rightarrow> (string \<times> string) option" where
  "cons_fst c r = map_option (\<lambda>(t, s). (c # t, s)) r"

text \<open>The rest of a string literal after its opening quote.\<close>

fun parse_chars :: "string \<Rightarrow> (string \<times> string) option" where
  "parse_chars [] = None"
| "parse_chars (c # s) =
     (if c = CHR 0x22 then Some ([], s)
      else if c = CHR 0x5C then
        (case s of
           [] \<Rightarrow> None
         | e # s1 \<Rightarrow>
             if e = CHR ''u'' then (case s1 of
                 h1 # h2 # h3 # h4 # s2 \<Rightarrow> (case unicode_escape h1 h2 h3 h4 of None \<Rightarrow> None | Some x \<Rightarrow> cons_fst x (parse_chars s2))
               | _ \<Rightarrow> None)
             else (case simple_escape e of None \<Rightarrow> None | Some x \<Rightarrow> cons_fst x (parse_chars s1)))
      else if (of_char c :: nat) < 32 then None
      else cons_fst c (parse_chars s))"

definition number_char :: "char \<Rightarrow> bool" where
  "number_char c \<longleftrightarrow> digit_char c \<or> c \<in> {CHR ''+'', CHR ''-'', CHR ''.'', CHR ''e'', CHR ''E''}"

definition drop_minus :: "string \<Rightarrow> string" where
  "drop_minus s = (case s of c # r \<Rightarrow> if c = CHR ''-'' then r else s | [] \<Rightarrow> [])"

definition int_digits :: "string \<Rightarrow> bool" where
  "int_digits ds \<longleftrightarrow> ds \<noteq> [] \<and> list_all digit_char ds \<and> (hd ds = CHR ''0'' \<longrightarrow> length ds = 1)"

definition int_value :: "string \<Rightarrow> int" where
  "int_value lx = (if lx \<noteq> [] \<and> hd lx = CHR ''-'' then - int (digits_val (tl lx)) else int (digits_val lx))"

text \<open>After the integer part: a fraction, an exponent, or both.\<close>

definition exponent :: "string \<Rightarrow> bool" where
  "exponent s = (case s of e # r \<Rightarrow> (e = CHR ''e'' \<or> e = CHR ''E'') \<and>
       (let ds = (case r of c # r1 \<Rightarrow> if c = CHR ''+'' \<or> c = CHR ''-'' then r1 else r | [] \<Rightarrow> []) in ds \<noteq> [] \<and> list_all digit_char ds)
     | [] \<Rightarrow> False)"

definition float_tail :: "string \<Rightarrow> bool" where
  "float_tail s = (case s of c # r \<Rightarrow>
       if c = CHR ''.'' then takeWhile digit_char r \<noteq> [] \<and> (dropWhile digit_char r = [] \<or> exponent (dropWhile digit_char r))
       else exponent s
     | [] \<Rightarrow> False)"

definition float_lexeme :: "string \<Rightarrow> bool" where
  "float_lexeme lx \<longleftrightarrow> int_digits (takeWhile digit_char (drop_minus lx)) \<and> float_tail (dropWhile digit_char (drop_minus lx))"

definition parse_number :: "string \<Rightarrow> (pyval \<times> string) option" where
  "parse_number s = (let lx = takeWhile number_char s; rest = dropWhile number_char s in
     if int_digits (drop_minus lx) then Some (PInt (int_value lx), rest)
     else if float_lexeme lx then Some (PFloat lx, rest) else None)"

definition parse_literal :: "string \<Rightarrow> (pyval \<times> string) option" where
  "parse_literal s =
     (if take 4 s = ''null'' then Some (PNone, drop 4 s)
      else if take 4 s = ''true'' then Some (PBool True, drop 4 s)
      else if take 5 s = ''false'' then Some (PBool False, drop 5 s)
      else if take 3 s = ''NaN'' then Some (PFloat ''nan'', drop 3 s)
      else if take 8 s = ''Infinity'' then Some (PFloat ''inf'', drop 8 s)
      else if take 9 s = ''-Infinity'' then Some (PFloat ''-inf'', drop 9 s)
      else parse_number s)"

definition dict_of_pairs :: "(string \<times> pyval) list \<Rightarrow> pydict" where
  "dict_of_pairs ps = fold (\<lambda>(k, v). dict_set k v) ps []"

text \<open>Values, list items and dict members; the fuel bounds the nesting and the lengths.\<close>

fun parse_value :: "nat \<Rightarrow> string \<Rightarrow> (pyval \<times> string) option"
  and parse_items :: "nat \<Rightarrow> string \<Rightarrow> (pyval list \<times> string) option"
  and parse_members :: "nat \<Rightarrow> string \<Rightarrow> ((string \<times> pyval) list \<times> string) option" where
  "parse_value 0 s = None"
| "parse_value (Suc n) s =
     (case skip_ws s of
        [] \<Rightarrow> None
      | c # r \<Rightarrow>
          if c = CHR 0x22 then map_option (\<lambda>(t, r1). (PStr t, r1)) (parse_chars r)
          else if c = CHR ''['' then
            (if skip_ws r \<noteq> [] \<and> hd (skip_ws r) = CHR '']'' then Some (PList [], tl (skip_ws r))
             else map_option (\<lambda>(vs, r1). (PList vs, r1)) (parse_items n r))
          else if c = CHR ''{'' then
            (if skip_ws r \<noteq> [] \<and> hd (skip_ws r) = CHR ''}'' then Some (PDict [], tl (skip_ws r))
             else map_option (\<lambda>(ps, r1). (PDict (dict_of_pairs ps), r1)) (parse_members n r))
          else parse_literal (c # r))"
| "parse_items 0 s = None"
| "parse_items (Suc n) s =
     (case parse_value n s of
        None \<Rightarrow> None
      | Some (v, r) \<Rightarrow> (case skip_ws r of
            [] \<Rightarrow> None
          | c # r1 \<Rightarrow>
              if c = CHR '','' then map_option (\<lambda>(vs, r2). (v # vs, r2)) (parse_items n r1)
              else if c = CHR '']'' then Some ([v], r1) else None))"
| "parse_members 0 s = None"
| "parse_members (Suc n) s =
     (case skip_ws s of
        [] \<Rightarrow> None
      | q # r \<Rightarrow> if q \<noteq> CHR 0x22 then None else
          (case parse_chars r of
             None \<Rightarrow> None
           | Some (k, r1) \<Rightarrow> (case skip_ws r1 of
                 [] \<Rightarrow> None
               | c # r2 \<Rightarrow> if c \<noteq> CHR '':'' then None else
                   (case parse_value n r2 of
                      None \<Rightarrow> None
                    | Some (v, r3) \<Rightarrow> (case skip_ws r3 of
                          [] \<Rightarrow> None
                        | c1 # r4 \<Rightarrow>
                            if c1 = CHR '','' then map_option (\<lambda>(ps, r5). ((k, v) # ps, r5)) (parse_members n r4)
                            else if c1 = CHR ''}'' then Some ([(k, v)], r4) else None)))))"

definition json_loads :: "string \<Rightarrow> exn + pyval" where
  "json_loads s = (case parse_value (Suc (length s)) s of
     None \<Rightarrow> Inl ValueErr | Some (v, rest) \<Rightarrow> if skip_ws rest = [] then Inr v else Inl ValueErr)"

section \<open>Lemmas: strings\<close>

lemma hex_value_char [simp]: "k < 16 \<Longrightarrow> hex_value (hex_char k) = Some k"
proof -
  assume "k < 16"
  then have "k \<in> set [0..<16]" by simp
  then show ?thesis by (simp add: upt_rec) (elim disjE; simp add: hex_char_def hex_value_def)
qed

lemma unicode_escape_hex:
  "n < 256 \<Longrightarrow> unicode_escape CHR ''0'' CHR ''0'' (hex_char (n div 16)) (hex_char (n mod 16)) = Some (char_of n)"
proof -
  assume "n < 256"
  then have "n div 16 < 16" by simp
  then show ?thesis by (simp add: unicode_escape_def) (simp add: hex_value_def)
qed

lemma parse_chars_escape: "parse_chars (escape_char c @ t) = cons_fst c (parse_chars t)"
proof -
  let ?n = "of_char c :: nat"
  have eq: "c = char_of k" if "?n = k" for k :: nat using that [symmetric] by simp
  consider "c = CHR 0x22" | "c = CHR 0x5C" | "?n = 10" | "?n = 13" | "?n = 9" | "?n = 12" | "?n = 8"
    | (printable) "c \<noteq> CHR 0x22" "c \<noteq> CHR 0x5C" "32 \<le> ?n" "?n \<le> 126"
    | (coded) "c \<noteq> CHR 0x22" "c \<noteq> CHR 0x5C" "?n \<notin> {8, 9, 10, 12, 13}" "\<not> (32 \<le> ?n \<and> ?n \<le> 126)"
    by fastforce
  then show ?thesis
  proof cases
    case printable
    then show ?thesis by (simp add: escape_char_def)
  next
    case coded
    have "?n < 256" by simp
    then have "unicode_escape CHR ''0'' CHR ''0'' (hex_char (?n div 16)) (hex_char (?n mod 16)) = Some c"
      by (simp only: unicode_escape_hex) simp
    moreover have "escape_char c = [CHR 0x5C, CHR ''u'', CHR ''0'', CHR ''0'', hex_char (?n div 16), hex_char (?n mod 16)]"
      using coded by (auto simp: escape_char_def Let_def)
    ultimately show ?thesis by simp
  next
    case 3
    then have "c = char_of (10 :: nat)" by (rule eq)
    then show ?thesis by (simp add: escape_char_def simple_escape_def)
  next
    case 4
    then have "c = char_of (13 :: nat)" by (rule eq)
    then show ?thesis by (simp add: escape_char_def simple_escape_def)
  next
    case 5
    then have "c = char_of (9 :: nat)" by (rule eq)
    then show ?thesis by (simp add: escape_char_def simple_escape_def)
  next
    case 6
    then have "c = char_of (12 :: nat)" by (rule eq)
    then show ?thesis by (simp add: escape_char_def simple_escape_def)
  next
    case 7
    then have "c = char_of (8 :: nat)" by (rule eq)
    then show ?thesis by (simp add: escape_char_def simple_escape_def)
  qed (simp_all add: escape_char_def simple_escape_def)
qed

lemma parse_chars_quoted: "parse_chars (concat (map escape_char s) @ CHR 0x22 # rest) = Some (s, rest)"
  by (induction s) (simp_all add: parse_chars_escape cons_fst_def)

section \<open>Lemmas: numbers\<close>

lemma nat_str_int_digits: "int_digits (nat_str n)"
proof -
  have "hd (nat_str n) = CHR ''0'' \<Longrightarrow> length (nat_str n) = 1" for n
  proof (induction n rule: nat_str.induct)
    case (1 n)
    show ?case
    proof (cases "n < 10")
      case True
      then show ?thesis by (subst nat_str.simps) simp
    next
      case False
      with 1 have "length (nat_str (n div 10)) = 1"
        by (subst (asm) (2) nat_str.simps) (simp add: hd_append)
      then have "nat_str (n div 10) = [hd (nat_str (n div 10))]" by (cases "nat_str (n div 10)") auto
      moreover have "hd (nat_str (n div 10)) = CHR ''0''"
        using 1(2) False by (subst (asm) nat_str.simps) (simp add: hd_append)
      ultimately have "digits_val (nat_str (n div 10)) = digits_val ''0''" by simp
      with False show ?thesis by (simp add: digits_val_def [of "''0''"])
    qed
  qed
  then show ?thesis using nat_str_digits [of n] by (simp add: int_digits_def list_all_iff)
qed

lemma digit_number [simp]: "digit_char c \<Longrightarrow> number_char c"
  by (simp add: number_char_def)

lemma drop_minus_digits: "int_digits (takeWhile digit_char s) \<Longrightarrow> drop_minus s = s"
  by (cases s) (auto simp: drop_minus_def int_digits_def)

lemma drop_minus_nat_str [simp]: "drop_minus (nat_str n) = nat_str n"
  using nat_str_digits [of n] by (cases "nat_str n") (auto simp: drop_minus_def)

lemma int_str_number:
  "list_all number_char (int_str i)" "int_digits (drop_minus (int_str i))" "int_value (int_str i) = i"
proof -
  have minus: "number_char CHR ''-''" by (simp add: number_char_def)
  have "list_all number_char (nat_str n)" for n using nat_str_digits [of n] by (auto simp: list_all_iff)
  with minus show "list_all number_char (int_str i)" by (simp add: int_str_def)
  show "int_digits (drop_minus (int_str i))"
    by (simp add: int_str_def nat_str_int_digits) (simp add: drop_minus_def nat_str_int_digits)
  have "hd (nat_str n) \<noteq> CHR ''-''" for n
    using nat_str_digits [of n] hd_in_set [OF nat_str_nonempty, of n] minus_not_digit by metis
  then show "int_value (int_str i) = i" by (simp add: int_value_def int_str_def)
qed

lemma list_all_parts: "list_all P (takeWhile Q xs) \<Longrightarrow> list_all P (dropWhile Q xs) \<Longrightarrow> list_all P xs"
  by (metis list_all_append takeWhile_dropWhile_id)

lemma digits_number [simp]: "list_all number_char (takeWhile digit_char s)"
  by (auto simp: list_all_iff dest: set_takeWhileD)

lemma exponent_chars: "exponent s \<Longrightarrow> list_all number_char s"
  by (auto simp: exponent_def number_char_def list_all_iff Let_def split: list.splits if_splits)

lemma float_tail_chars: "float_tail s \<Longrightarrow> list_all number_char s"
proof -
  assume ft: "float_tail s"
  then obtain c r where s: "s = c # r" by (cases s) (auto simp: float_tail_def)
  show ?thesis
  proof (cases "c = CHR ''.''")
    case True
    with ft s have "dropWhile digit_char r = [] \<or> exponent (dropWhile digit_char r)" by (simp add: float_tail_def)
    then have "list_all number_char (dropWhile digit_char r)" by (elim disjE) (simp_all only: exponent_chars list.pred_inject)
    then have "list_all number_char r" by (rule list_all_parts [OF digits_number])
    with True s show ?thesis by (simp add: number_char_def)
  next
    case False
    with ft s have "exponent s" by (simp add: float_tail_def)
    then show ?thesis by (rule exponent_chars)
  qed
qed

lemma float_lexeme_number:
  assumes "float_lexeme r"
  shows "list_all number_char r" and "\<not> int_digits (drop_minus r)"
proof -
  let ?t = "drop_minus r"
  have tail: "float_tail (dropWhile digit_char ?t)" using assms by (simp add: float_lexeme_def)
  have "list_all number_char ?t" by (rule list_all_parts [OF digits_number float_tail_chars [OF tail]])
  then show "list_all number_char r" by (auto simp: drop_minus_def number_char_def split: list.splits if_splits)
  have "dropWhile digit_char ?t \<noteq> []" using tail by (cases "dropWhile digit_char ?t") (simp_all add: float_tail_def)
  then show "\<not> int_digits ?t" by (auto simp: int_digits_def list_all_iff)
qed

section \<open>Round trip\<close>

text \<open>What JSON carries: no datetimes, floats as Python prints them, dicts without repeated keys.\<close>

fun json_ok :: "pyval \<Rightarrow> bool" where
  "json_ok (PFloat r) \<longleftrightarrow> float_lexeme r \<or> r \<in> {''nan'', ''inf'', ''-inf''}"
| "json_ok (PDate d) \<longleftrightarrow> False"
| "json_ok (PList vs) \<longleftrightarrow> list_all json_ok vs"
| "json_ok (PDict d) \<longleftrightarrow> distinct (map fst d) \<and> list_all (\<lambda>kv. json_ok (snd kv)) d"
| "json_ok v \<longleftrightarrow> True"

fun fuel_for :: "pyval \<Rightarrow> nat" where
  "fuel_for (PList vs) = 1 + sum_list (map (\<lambda>v. 1 + fuel_for v) vs)"
| "fuel_for (PDict d) = 1 + sum_list (map (\<lambda>kv. 1 + fuel_for (snd kv)) d)"
| "fuel_for v = 1"

lemma fuel_for_pos [simp]: "0 < fuel_for v"
  by (cases v) simp_all

text \<open>What may follow a value: nothing that would continue a number.\<close>

definition stop :: "string \<Rightarrow> bool" where
  "stop rest \<longleftrightarrow> rest = [] \<or> \<not> number_char (hd rest)"

lemma takeWhile_stop: "list_all P xs \<Longrightarrow> rest = [] \<or> \<not> P (hd rest) \<Longrightarrow> takeWhile P (xs @ rest) = xs"
  by (induction xs) (auto simp: takeWhile_eq_Nil_iff)

lemma dropWhile_stop: "list_all P xs \<Longrightarrow> rest = [] \<or> \<not> P (hd rest) \<Longrightarrow> dropWhile P (xs @ rest) = rest"
  by (induction xs) (auto simp: dropWhile_eq_self_iff)

lemma parse_number_int: "stop rest \<Longrightarrow> parse_number (int_str i @ rest) = Some (PInt i, rest)"
  by (simp add: parse_number_def stop_def takeWhile_stop dropWhile_stop int_str_number)

lemma parse_number_float: "float_lexeme r \<Longrightarrow> stop rest \<Longrightarrow> parse_number (r @ rest) = Some (PFloat r, rest)"
  by (simp add: parse_number_def stop_def takeWhile_stop dropWhile_stop float_lexeme_number)

text \<open>A number starts with a digit, or with a minus sign and a digit.\<close>

definition number_start :: "string \<Rightarrow> bool" where
  "number_start s \<longleftrightarrow> (\<exists>c t. drop_minus s = c # t \<and> digit_char c)"

lemma number_start_int: "number_start (int_str i)"
proof -
  have "drop_minus (int_str i) \<noteq> [] \<and> digit_char (hd (drop_minus (int_str i)))"
    using int_str_number(2) [of i] by (auto simp: int_digits_def list_all_iff)
  then show ?thesis unfolding number_start_def by (cases "drop_minus (int_str i)") auto
qed

lemma number_start_float: "float_lexeme r \<Longrightarrow> number_start r"
  unfolding number_start_def by (cases "drop_minus r") (auto simp: float_lexeme_def int_digits_def split: if_splits)

lemma number_start_cases:
  assumes "number_start s"
  obtains (digit) c t where "s = c # t" "digit_char c" | (minus) c t where "s = CHR ''-'' # c # t" "digit_char c"
  using assms by (cases s) (auto simp: number_start_def drop_minus_def split: if_splits)

lemma minus_not_space [simp]: "\<not> json_space CHR ''-''"
  by (simp add: json_space_def)

lemma digit_not [simp]:
  "digit_char c \<Longrightarrow> c \<noteq> CHR ''-''"
  "digit_char c \<Longrightarrow> c \<noteq> CHR ''n''" "digit_char c \<Longrightarrow> c \<noteq> CHR ''t''" "digit_char c \<Longrightarrow> c \<noteq> CHR ''f''"
  "digit_char c \<Longrightarrow> c \<noteq> CHR ''N''" "digit_char c \<Longrightarrow> c \<noteq> CHR ''I''" "digit_char c \<Longrightarrow> c \<noteq> CHR 0x22"
  "digit_char c \<Longrightarrow> c \<noteq> CHR ''[''" "digit_char c \<Longrightarrow> c \<noteq> CHR ''{''" "digit_char c \<Longrightarrow> \<not> json_space c"
  by (auto simp: digit_char_def json_space_def)

lemma parse_literal_number: "number_start s \<Longrightarrow> parse_literal (s @ rest) = parse_number (s @ rest)"
  by (erule number_start_cases) (simp_all add: parse_literal_def)

lemma parse_value_number: "number_start s \<Longrightarrow> parse_value (Suc n) (s @ rest) = parse_number (s @ rest)"
  by (frule parse_literal_number [where rest = rest], erule number_start_cases) simp_all

lemma fold_dict_set: "distinct (map fst (acc @ ps)) \<Longrightarrow> fold (\<lambda>(k, v). dict_set k v) ps acc = acc @ ps"
proof (induction ps arbitrary: acc)
  case (Cons p ps)
  obtain k v where p: "p = (k, v)" by (cases p)
  have "k \<notin> set (map fst acc) \<Longrightarrow> dict_set k v acc = acc @ [(k, v)]" for acc :: pydict
    by (induction acc) auto
  with Cons p show ?case by auto
qed simp

lemma dict_of_pairs_id: "distinct (map fst ps) \<Longrightarrow> dict_of_pairs ps = ps"
  by (simp add: dict_of_pairs_def fold_dict_set)

definition blank :: "string \<Rightarrow> bool" where
  "blank sp \<longleftrightarrow> list_all json_space sp"

lemma skip_blank [simp]: "blank sp \<Longrightarrow> skip_ws (sp @ s) = skip_ws s"
  by (induction sp) (simp_all add: blank_def)

lemma parse_value_blank: "blank sp \<Longrightarrow> parse_value n (sp @ s) = parse_value n s"
  by (cases n) simp_all

lemma parse_items_blank: "blank sp \<Longrightarrow> parse_items n (sp @ s) = parse_items n s"
  by (cases n) (simp_all add: parse_value_blank)

lemma parse_members_blank: "blank sp \<Longrightarrow> parse_members n (sp @ s) = parse_members n s"
  by (cases n) simp_all

lemma punctuation [simp]:
  "\<not> json_space CHR '',''" "\<not> json_space CHR '':''" "\<not> json_space CHR '']''" "\<not> json_space CHR ''}''"
  "\<not> json_space CHR ''[''" "\<not> json_space CHR ''{''" "\<not> json_space CHR 0x22"
  "\<not> number_char CHR '',''" "\<not> number_char CHR '']''" "\<not> number_char CHR ''}''"
  by (simp_all add: json_space_def number_char_def digit_char_def)

lemma parse_value_literals [simp]:
  "parse_value (Suc n) (''null'' @ rest) = Some (PNone, rest)"
  "parse_value (Suc n) (''true'' @ rest) = Some (PBool True, rest)"
  "parse_value (Suc n) (''false'' @ rest) = Some (PBool False, rest)"
  "parse_value (Suc n) (''NaN'' @ rest) = Some (PFloat ''nan'', rest)"
  "parse_value (Suc n) (''Infinity'' @ rest) = Some (PFloat ''inf'', rest)"
  "parse_value (Suc n) (''-Infinity'' @ rest) = Some (PFloat ''-inf'', rest)"
  by (simp_all add: json_space_def parse_literal_def)

lemma parse_value_quote: "parse_value (Suc n) (quote s @ rest) = Some (PStr s, rest)"
  by (simp add: quote_def parse_chars_quoted)

lemma parse_value_int: "stop rest \<Longrightarrow> parse_value (Suc n) (int_str i @ rest) = Some (PInt i, rest)"
  by (simp only: parse_value_number number_start_int parse_number_int)

lemma not_number_start: "\<not> number_start ''nan''" "\<not> number_start ''inf''" "\<not> number_start ''-inf''"
  by (simp_all add: number_start_def drop_minus_def digit_char_def)

lemma parse_value_float: "json_ok (PFloat r) \<Longrightarrow> stop rest \<Longrightarrow> parse_value (Suc n) (float_text r @ rest) = Some (PFloat r, rest)"
proof -
  assume ok: "json_ok (PFloat r)" and st: "stop rest"
  have plain: "float_text r = r" if "float_lexeme r"
    using number_start_float [OF that] by (auto simp: float_text_def not_number_start)
  show ?thesis
  proof (cases "float_lexeme r")
    case True
    with st show ?thesis by (simp only: plain parse_value_number number_start_float parse_number_float)
  next
    case False
    with ok consider "r = ''nan''" | "r = ''inf''" | "r = ''-inf''" by auto
    then show ?thesis using parse_value_literals(4-6) [of n rest]
      by cases (simp_all add: float_text_def del: parse_value.simps parse_value_literals)
  qed
qed

definition opens_value :: "string \<Rightarrow> bool" where
  "opens_value s \<longleftrightarrow> s \<noteq> [] \<and> \<not> json_space (hd s) \<and> hd s \<noteq> CHR '']''"

lemma opens_number: "number_start s \<Longrightarrow> opens_value s"
  by (erule number_start_cases) (auto simp: opens_value_def digit_char_def json_space_def)

lemma dumps_opens: "json_ok v \<Longrightarrow> opens_value (dumps isep ksep v)"
proof (cases v)
  case (PInt i)
  then show ?thesis by (simp only: dumps.simps opens_number number_start_int)
next
  case (PFloat r)
  moreover assume "json_ok v"
  ultimately consider "float_lexeme r" "\<not> r \<in> {''nan'', ''inf'', ''-inf''}" | "r = ''nan''" | "r = ''inf''" | "r = ''-inf''" by auto
  then show ?thesis
    by cases (auto simp: PFloat float_text_def opens_number number_start_float, auto simp: opens_value_def json_space_def)
next
  case (PList vs)
  then show ?thesis by (cases vs) (simp_all add: opens_value_def)
next
  case (PDict d)
  then show ?thesis by (cases d) (auto simp: opens_value_def)
qed (simp_all add: opens_value_def quote_def json_space_def)

lemma skip_opens: "opens_value s \<Longrightarrow> skip_ws (s @ rest) = s @ rest \<and> s @ rest \<noteq> [] \<and> hd (s @ rest) \<noteq> CHR '']''"
  by (cases s) (auto simp: opens_value_def)

lemma dump_items_stop: "isep = CHR '','' # sp \<Longrightarrow> stop (dump_items isep ksep vs @ rest)"
  by (cases vs) (simp_all add: stop_def)

lemma dump_members_stop: "isep = CHR '','' # sp \<Longrightarrow> stop (dump_members isep ksep d @ rest)"
  by (cases d rule: list.exhaust) (auto simp: stop_def)

lemma parse_value_bracket:
  "skip_ws u = u \<Longrightarrow> u \<noteq> [] \<Longrightarrow> hd u \<noteq> CHR '']'' \<Longrightarrow>
    parse_value (Suc n) (CHR ''['' # u) = map_option (\<lambda>(vs, r1). (PList vs, r1)) (parse_items n u)"
  by simp

lemma parse_value_list:
  "opens_value s \<Longrightarrow> parse_value (Suc n) (CHR ''['' # s @ rest) = map_option (\<lambda>(vs, r1). (PList vs, r1)) (parse_items n (s @ rest))"
  using skip_opens [of s rest] by (intro parse_value_bracket) simp_all

lemma parse_value_dict:
  "parse_value (Suc n) (CHR ''{'' # quote k @ rest) =
     map_option (\<lambda>(ps, r1). (PDict (dict_of_pairs ps), r1)) (parse_members n (quote k @ rest))"
  by (simp add: quote_def)

lemma parse_members_quote:
  "ksep = CHR '':'' # ksp \<Longrightarrow> blank ksp \<Longrightarrow> parse_members (Suc n) (quote k @ ksep @ s) =
    (case parse_value n s of None \<Rightarrow> None
     | Some (v, r3) \<Rightarrow> (case skip_ws r3 of [] \<Rightarrow> None
        | c1 # r4 \<Rightarrow> if c1 = CHR '','' then map_option (\<lambda>(ps, r5). ((k, v) # ps, r5)) (parse_members n r4)
            else if c1 = CHR ''}'' then Some ([(k, v)], r4) else None))"
  by (simp add: quote_def parse_chars_quoted parse_value_blank)

text \<open>The two pairs of separators the code uses, and any other that JSON allows.\<close>

definition separators :: "string \<Rightarrow> string \<Rightarrow> bool" where
  "separators isep ksep \<longleftrightarrow> (\<exists>sp. isep = CHR '','' # sp \<and> blank sp) \<and> (\<exists>sp. ksep = CHR '':'' # sp \<and> blank sp)"

lemma separators_used [simp]: "separators '', '' '': ''" "separators '','' '':''"
  by (simp_all add: separators_def blank_def json_space_def)

lemma parse_value_scalar:
  assumes "json_ok v" and "stop rest" and "\<forall>vs. v \<noteq> PList vs" and "\<forall>d. v \<noteq> PDict d"
  shows "parse_value (Suc n) (dumps isep ksep v @ rest) = Some (v, rest)"
proof (cases v)
  case (PInt i)
  with assms show ?thesis by (simp only: dumps.simps parse_value_int)
next
  case (PFloat r)
  with assms show ?thesis by (simp only: dumps.simps parse_value_float)
next
  case (PStr s)
  then show ?thesis by (simp only: dumps.simps parse_value_quote)
next
  case (PBool b)
  then show ?thesis using parse_value_literals(2,3) [of n rest] by (simp only: dumps.simps split: if_split) simp
next
  case PNone
  then show ?thesis using parse_value_literals(1) [of n rest] by (simp only: dumps.simps)
qed (use assms in simp_all)

lemma parse_dumps:
  assumes sep: "separators isep ksep"
  shows "\<lbrakk>json_ok v; fuel_for v \<le> n; stop rest\<rbrakk> \<Longrightarrow> parse_value n (dumps isep ksep v @ rest) = Some (v, rest)"
    and "\<lbrakk>list_all json_ok (w # vs); sum_list (map (\<lambda>v. 1 + fuel_for v) (w # vs)) \<le> n\<rbrakk> \<Longrightarrow>
      parse_items n (dumps isep ksep w @ dump_items isep ksep vs @ rest) = Some (w # vs, rest)"
    and "\<lbrakk>list_all (\<lambda>kv. json_ok (snd kv)) ((k, u) # d); sum_list (map (\<lambda>kv. 1 + fuel_for (snd kv)) ((k, u) # d)) \<le> n\<rbrakk> \<Longrightarrow>
      parse_members n (quote k @ ksep @ dumps isep ksep u @ dump_members isep ksep d @ rest) = Some ((k, u) # d, rest)"
proof (induction n arbitrary: v w vs k u d rest)
  case 0
  { case 1 then show ?case by (metis fuel_for_pos le_0_eq less_irrefl) }
  { case 2 then show ?case by simp }
  { case 3 then show ?case by simp }
next
  case (Suc n)
  from sep obtain isp ksp where isep: "isep = CHR '','' # isp" "blank isp" and ksep: "ksep = CHR '':'' # ksp" "blank ksp"
    by (auto simp: separators_def)
  { case 1
    show ?case
    proof (cases v)
      case (PList vs)
      show ?thesis
      proof (cases vs)
        case (Cons w ws)
        have "opens_value (dumps isep ksep w)" using 1 PList Cons by (intro dumps_opens) simp
        moreover have "parse_items n (dumps isep ksep w @ dump_items isep ksep ws @ rest) = Some (w # ws, rest)"
          using 1 PList Cons by (intro Suc.IH(2)) simp_all
        ultimately show ?thesis by (simp only: PList Cons dumps.simps append_Cons append_assoc parse_value_list) simp
      qed (simp add: PList)
    next
      case (PDict d)
      show ?thesis
      proof (cases d)
        case (Cons ku ds)
        obtain k u where ku: "ku = (k, u)" by (cases ku)
        have "parse_members n (quote k @ ksep @ dumps isep ksep u @ dump_members isep ksep ds @ rest) = Some ((k, u) # ds, rest)"
          using 1 PDict Cons ku by (intro Suc.IH(3)) simp_all
        moreover have "dict_of_pairs ((k, u) # ds) = (k, u) # ds" using 1 PDict Cons ku by (intro dict_of_pairs_id) simp
        ultimately show ?thesis by (simp only: PDict Cons ku dumps.simps append_Cons append_assoc parse_value_dict) simp
      qed (simp add: PDict)
    qed (use 1 in \<open>intro parse_value_scalar; simp\<close>)+ }
  { case 2
    have "parse_value n (dumps isep ksep w @ dump_items isep ksep vs @ rest) = Some (w, dump_items isep ksep vs @ rest)"
      using 2 isep by (intro Suc.IH(1) dump_items_stop) simp_all
    then show ?case
    proof (cases vs)
      case (Cons w' ws)
      have "parse_items n (dumps isep ksep w' @ dump_items isep ksep ws @ rest) = Some (w' # ws, rest)"
        using 2 Cons by (intro Suc.IH(2)) simp_all
      with Cons isep show ?thesis
        using \<open>parse_value n _ = _\<close> by (simp add: parse_items_blank)
    qed simp }
  { case 3
    have "parse_value n (dumps isep ksep u @ dump_members isep ksep d @ rest) = Some (u, dump_members isep ksep d @ rest)"
      using 3 isep by (intro Suc.IH(1) dump_members_stop) simp_all
    then show ?case
    proof (cases d)
      case (Cons ku ds)
      obtain k' u' where ku: "ku = (k', u')" by (cases ku)
      have "parse_members n (quote k' @ ksep @ dumps isep ksep u' @ dump_members isep ksep ds @ rest) = Some ((k', u') # ds, rest)"
        using 3 Cons ku by (intro Suc.IH(3)) simp_all
      with Cons ku isep show ?thesis
        using \<open>parse_value n _ = _\<close> by (simp add: parse_members_quote [OF ksep] parse_members_blank del: parse_members.simps)
    qed (simp add: parse_members_quote [OF ksep] del: parse_members.simps) }
qed

lemma length_quote: "2 \<le> length (quote s)"
  by (simp add: quote_def)

lemma fuel_enough:
  assumes "separators isep ksep"
  shows "json_ok v \<Longrightarrow> fuel_for v \<le> length (dumps isep ksep v)"
proof (induction v)
  case (PFloat r)
  then show ?case using dumps_opens [of "PFloat r" isep ksep] by (cases "dumps isep ksep (PFloat r)") (simp_all add: opens_value_def)
next
  case (PInt i)
  then show ?case using dumps_opens [of "PInt i" isep ksep] by (cases "dumps isep ksep (PInt i)") (simp_all add: opens_value_def)
next
  case (PStr s)
  then show ?case using length_quote [of s] by simp
next
  case (PList vs)
  from assms have sep: "1 \<le> length isep" by (auto simp: separators_def)
  have "sum_list (map (\<lambda>v. 1 + fuel_for v) ws) + 1 \<le> length (dump_items isep ksep ws)" if "set ws \<subseteq> set vs" for ws
    using that
  proof (induction ws)
    case (Cons w ws)
    then have "fuel_for w \<le> length (dumps isep ksep w)" using PList by (simp add: list_all_iff)
    with Cons sep show ?case by simp
  qed simp
  moreover have "fuel_for w \<le> length (dumps isep ksep w)" if "w \<in> set vs" for w using that PList by (simp add: list_all_iff)
  ultimately show ?case by (cases vs) (simp, force)
next
  case (PDict d)
  from assms have sep: "1 \<le> length isep" by (auto simp: separators_def)
  have one: "fuel_for (snd kv) \<le> length (dumps isep ksep (snd kv))" if "kv \<in> set d" for kv
    using PDict.IH [of kv "snd kv"] that PDict.prems by (cases kv) (auto simp: list_all_iff)
  have "sum_list (map (\<lambda>kv. 1 + fuel_for (snd kv)) e) + 1 \<le> length (dump_members isep ksep e)" if "set e \<subseteq> set d" for e
    using that
  proof (induction e)
    case (Cons kv e)
    then have "fuel_for (snd kv) \<le> length (dumps isep ksep (snd kv))" by (intro one) simp
    with Cons sep show ?case by (cases kv) simp
  qed simp
  moreover from this [of "tl d"] have "sum_list (map (\<lambda>kv. 1 + fuel_for (snd kv)) (tl d)) + 1 \<le> length (dump_members isep ksep (tl d))"
    by (cases d) auto
  ultimately show ?case using one [of "hd d"] length_quote [of "fst (hd d)"]
    by (cases d rule: list.exhaust) (auto split: prod.splits)
qed (use dumps_opens in simp_all)

lemma loads_dumps:
  assumes "separators isep ksep" and "json_ok v"
  shows "json_loads (dumps isep ksep v) = Inr v"
proof -
  have "parse_value (Suc (length (dumps isep ksep v))) (dumps isep ksep v @ []) = Some (v, [])"
    using assms fuel_enough [OF assms] by (intro parse_dumps(1)) (simp_all add: stop_def)
  then show ?thesis by (simp add: json_loads_def)
qed

lemma dumps_inj:
  assumes "separators isep ksep" and "json_ok v" and "json_ok w"
  shows "dumps isep ksep v = dumps isep ksep w \<longleftrightarrow> v = w"
proof
  assume "dumps isep ksep v = dumps isep ksep w"
  then have "json_loads (dumps isep ksep v) = json_loads (dumps isep ksep w)" by simp
  then show "v = w" using assms by (simp add: loads_dumps)
qed simp

section \<open>Canonical form\<close>

text \<open>Python's \<open>==\<close> of two values read from JSON: the order of the members of a dict does not matter.\<close>

fun same_json :: "pyval \<Rightarrow> pyval \<Rightarrow> bool" where
  "same_json (PDict d) (PDict e) \<longleftrightarrow> fst ` set d = fst ` set e \<and>
     (\<forall>kv \<in> set d. \<forall>kw \<in> set e. fst kv = fst kw \<longrightarrow> same_json (snd kv) (snd kw))"
| "same_json (PList vs) (PList ws) \<longleftrightarrow> list_all2 same_json vs ws"
| "same_json v w \<longleftrightarrow> v = w"

lemma distinct_map_sort_key [simp]: "distinct (map f (sort_key g xs)) \<longleftrightarrow> distinct (map f xs)"
  by (simp add: distinct_map)

lemma sort_members_scalar [simp]:
  "sort_members w = PNone \<longleftrightarrow> w = PNone" "PNone = sort_members w \<longleftrightarrow> w = PNone"
  "sort_members w = PBool b \<longleftrightarrow> w = PBool b" "PBool b = sort_members w \<longleftrightarrow> w = PBool b"
  "sort_members w = PInt i \<longleftrightarrow> w = PInt i" "PInt i = sort_members w \<longleftrightarrow> w = PInt i"
  "sort_members w = PFloat r \<longleftrightarrow> w = PFloat r" "PFloat r = sort_members w \<longleftrightarrow> w = PFloat r"
  "sort_members w = PStr s \<longleftrightarrow> w = PStr s" "PStr s = sort_members w \<longleftrightarrow> w = PStr s"
  by (cases w; auto)+

lemma json_ok_sorted: "json_ok v \<Longrightarrow> json_ok (sort_members v)"
proof (induction v)
  case (PDict d)
  have "distinct (map fst (sort_key fst (map (\<lambda>kv. (fst kv, sort_members (snd kv))) d)))"
    using PDict.prems by (simp add: o_def)
  with PDict show ?case by (auto simp: list_all_iff)
qed (auto simp: list_all_iff)

lemma sort_key_fst_eq:
  assumes "distinct (map fst xs)" and "distinct (map fst ys)"
  shows "sort_key fst xs = sort_key fst ys \<longleftrightarrow> set xs = set ys"
proof
  assume "sort_key fst xs = sort_key fst ys"
  then have "set (sort_key fst xs) = set (sort_key fst ys)" by simp
  then show "set xs = set ys" by simp
next
  assume eq: "set xs = set ys"
  have "inj_on fst (set xs)" using assms(1) by (simp add: distinct_map)
  then show "sort_key fst xs = sort_key fst ys"
    using assms eq by (intro map_sorted_distinct_set_unique [of fst]) simp_all
qed

lemma image_pairs_eq:
  assumes "distinct (map fst d)" and "distinct (map fst e)"
  shows "(\<lambda>kv. (fst kv, f (snd kv))) ` set d = (\<lambda>kv. (fst kv, f (snd kv))) ` set e \<longleftrightarrow>
    fst ` set d = fst ` set e \<and> (\<forall>kv \<in> set d. \<forall>kw \<in> set e. fst kv = fst kw \<longrightarrow> f (snd kv) = f (snd kw))"
    (is "?F d = ?F e \<longleftrightarrow> ?R")
proof
  assume eq: "?F d = ?F e"
  have "fst ` ?F d = fst ` ?F e" using eq by simp
  moreover have "f (snd kv) = f (snd kw)" if "kv \<in> set d" "kw \<in> set e" "fst kv = fst kw" for kv kw
  proof -
    from that(1) eq have "(fst kv, f (snd kv)) \<in> ?F e" by auto
    then obtain kx where "kx \<in> set e" "fst kx = fst kv" "f (snd kx) = f (snd kv)" by auto
    moreover from this that assms(2) have "kx = kw" by (metis eq_key_imp_eq_value prod.collapse)
    ultimately show ?thesis by simp
  qed
  ultimately show ?R by (simp add: image_image)
next
  assume R: ?R
  show "?F d = ?F e"
  proof (intro equalityI subsetI)
    fix x assume "x \<in> ?F d"
    then obtain kv where kv: "kv \<in> set d" "x = (fst kv, f (snd kv))" by auto
    with R obtain kw where "kw \<in> set e" "fst kv = fst kw" by (metis imageE imageI)
    with R kv show "x \<in> ?F e" by (auto intro!: image_eqI [of _ _ kw])
  next
    fix x assume "x \<in> ?F e"
    then obtain kw where kw: "kw \<in> set e" "x = (fst kw, f (snd kw))" by auto
    with R obtain kv where "kv \<in> set d" "fst kv = fst kw" by (metis imageE imageI)
    with R kw show "x \<in> ?F d" by (auto intro!: image_eqI [of _ _ kv])
  qed
qed

lemma same_json_sorted: "json_ok v \<Longrightarrow> json_ok w \<Longrightarrow> same_json v w \<longleftrightarrow> sort_members v = sort_members w"
proof (induction v w rule: same_json.induct)
  case (1 d e)
  let ?f = "map (\<lambda>kv. (fst kv, sort_members (snd kv)))"
  have keys: "distinct (map fst d)" "distinct (map fst e)" using 1 by simp_all
  then have "sort_key fst (?f d) = sort_key fst (?f e) \<longleftrightarrow> set (?f d) = set (?f e)"
    by (intro sort_key_fst_eq) (simp_all add: o_def)
  also have "\<dots> \<longleftrightarrow> fst ` set d = fst ` set e \<and>
      (\<forall>kv \<in> set d. \<forall>kw \<in> set e. fst kv = fst kw \<longrightarrow> sort_members (snd kv) = sort_members (snd kw))"
    using image_pairs_eq [OF keys] by simp
  finally show ?case using 1 by (auto simp: list_all_iff)
next
  case (2 vs ws)
  then show ?case
    by (auto simp: list_all2_conv_all_nth list_eq_iff_nth_eq list_all_length)
qed auto

lemma canonical_json_eq:
  assumes "json_ok v" and "json_ok w"
  shows "canonical_json v = canonical_json w \<longleftrightarrow> same_json v w"
  using assms by (simp add: canonical_json_def dumps_inj json_ok_sorted same_json_sorted)

section \<open>Lemmas: bytes and digests\<close>

lemma hex_char_eq_iff: "m < 16 \<Longrightarrow> n < 16 \<Longrightarrow> hex_char m = hex_char n \<longleftrightarrow> m = n"
  by (metis hex_value_char option.inject)

lemma hex_byte_inj: "hex_byte b = hex_byte c \<longleftrightarrow> b = c"
proof
  assume eq: "hex_byte b = hex_byte c"
  have "unat x div 16 < 16" for x :: byte proof -
    have "unat x < 2 ^ 8" using unsigned_less [where ?'a = nat and w = x] by simp
    then show ?thesis by simp
  qed
  with eq have "unat b div 16 = unat c div 16" "unat b mod 16 = unat c mod 16"
    by (simp_all add: hex_byte_def hex_char_eq_iff)
  then have "unat b = unat c" by (metis div_mult_mod_eq)
  then show "b = c" by (rule word_unat_eq_iff [THEN iffD2])
qed simp

lemma hex_inj: "hex bs = hex cs \<longleftrightarrow> bs = cs"
proof
  show "bs = cs" if "hex bs = hex cs" using that
  proof (induction bs arbitrary: cs)
    case Nil
    then show ?case by (cases cs) (simp_all add: hex_def hex_byte_def)
  next
    case (Cons b bs)
    then obtain c ds where cs: "cs = c # ds" by (cases cs) (simp_all add: hex_def hex_byte_def)
    with Cons.prems have "hex_byte b @ hex bs = hex_byte c @ hex ds" by (simp add: hex_def)
    then have "hex_byte b = hex_byte c \<and> hex bs = hex ds" by (simp add: hex_byte_def)
    with Cons.IH cs show ?case by (simp add: hex_byte_inj)
  qed
qed simp

lemma utf8_char_lead:
  "utf8_char c @ s = utf8_char d @ t \<Longrightarrow> c = d \<and> s = t"
proof -
  assume eq: "utf8_char c @ s = utf8_char d @ t"
  let ?m = "of_char c :: nat" and ?n = "of_char d :: nat"
  have small: "?m < 256" "?n < 256" by simp_all
  have byte: "word_of_nat a = (word_of_nat b :: byte) \<longleftrightarrow> a = b" if "a < 256" "b < 256" for a b
    using that by (simp add: word_of_nat_eq_iff take_bit_nat_eq_self)
  have div: "?m div 64 < 4" "?n div 64 < 4" using small by linarith+
  have "?m = ?n \<and> s = t"
  proof (cases "?m < 128")
    case True
    with eq small div show ?thesis by (auto simp: utf8_char_def Let_def byte simp del: of_nat_add split: if_splits)
  next
    case False
    with eq small div have "\<not> ?n < 128 \<and> ?m div 64 = ?n div 64 \<and> ?m mod 64 = ?n mod 64 \<and> s = t"
      by (auto simp: utf8_char_def Let_def byte simp del: of_nat_add split: if_splits)
    then show ?thesis by (metis div_mult_mod_eq)
  qed
  then show ?thesis by (metis of_char_eq_iff)
qed

lemma utf8_inj: "utf8 s = utf8 t \<longleftrightarrow> s = t"
proof
  show "s = t" if "utf8 s = utf8 t" using that
  proof (induction s arbitrary: t)
    case Nil
    then show ?case by (cases t) (auto simp: utf8_def utf8_char_def Let_def split: if_splits)
  next
    case (Cons c s)
    then obtain d u where t: "t = d # u" by (cases t) (auto simp: utf8_def utf8_char_def Let_def split: if_splits)
    with Cons.prems have "utf8_char c @ utf8 s = utf8_char d @ utf8 u" by (simp add: utf8_def)
    from utf8_char_lead [OF this] Cons.IH t show ?case by simp
  qed
qed simp

section \<open>The round trip\<close>

text \<open>
  The JSON round trip. Reading back what \<open>json.dumps\<close> printed gives the value again, with the default
  separators (the cached statistics) and with any others JSON allows; the canonical text behind a fingerprint
  reads as the value with the members of its dicts sorted. This holds for every value without datetimes whose
  dicts repeat no key and whose floats are in the form Python prints.
\<close>

theorem json_roundtrip:
  assumes "json_ok v"
  shows "json_loads (json_dumps v) = Inr v \<and> json_loads (canonical_json v) = Inr (sort_members v) \<and>
    (\<forall>isep ksep. separators isep ksep \<longrightarrow> json_loads (dumps isep ksep v) = Inr v)"
  using assms json_ok_sorted [OF assms] by (simp add: canonical_json_def loads_dumps)

theorem json_roundtrip_witness:
  "json_loads (json_dumps (PDict [(''counts'', PList [PDict [(''event_type'', PStr ''a b''), (''count'', PInt 3)], PNone]), (''total'', PInt (- 3))])) =
    Inr (PDict [(''counts'', PList [PDict [(''event_type'', PStr ''a b''), (''count'', PInt 3)], PNone]), (''total'', PInt (- 3))])"
  by (rule json_roundtrip [THEN conjunct1]) simp

end
