(* ===== verification/Redis_Cache.thy ===== *)
theory Redis_Cache
  imports Complex_Main Redis_Contract Json
begin

text \<open>
  \<open>app/cache/redis_cache.py\<close>: the cache-aside helper of the realtime statistics, the rate limiter and the
  detection of reused idempotency keys. The state is the connection and the two counters; the clock reading
  of \<open>check_rate_limit\<close> is an argument, and the factory of \<open>get_or_set\<close> runs on a state of its own.
\<close>

section \<open>State and connection\<close>

record 'r redis_cache =
  rc_url :: string
  rc_redis :: "'r option"
  rc_hits :: nat
  rc_misses :: nat

definition new_redis_cache :: "string \<Rightarrow> 'r redis_cache" where
  "new_redis_cache url = \<lparr>rc_url = url, rc_redis = None, rc_hits = 0, rc_misses = 0\<rparr>"

text \<open>The hit rate is the exact quotient; Python rounds it to a float.\<close>

record cache_snapshot =
  cs_hits :: nat
  cs_misses :: nat
  cs_hit_rate :: rat

definition cache_metrics :: "'r redis_cache \<Rightarrow> cache_snapshot" where
  "cache_metrics c = (let n = rc_hits c + rc_misses c in
     \<lparr>cs_hits = rc_hits c, cs_misses = rc_misses c, cs_hit_rate = (if n \<noteq> 0 then of_nat (rc_hits c) / of_nat n else 0)\<rparr>)"

definition on_redis :: "('r, 'a) io \<Rightarrow> ('r redis_cache, 'a) io" where
  "on_redis f c = (case rc_redis c of None \<Rightarrow> (Inl AttributeErr, c)
     | Some w \<Rightarrow> (case f w of (r, w') \<Rightarrow> (r, c\<lparr>rc_redis := Some w'\<rparr>)))"

definition redis_connect :: "'r redis_driver \<Rightarrow> ('r redis_cache, unit) io" where
  "redis_connect R c = io_bind (on_redis (rd_ping R)) (\<lambda>_. io_return ()) (c\<lparr>rc_redis := Some (rd_new R (rc_url c))\<rparr>)"

definition redis_close :: "'r redis_driver \<Rightarrow> ('r redis_cache, unit) io" where
  "redis_close R c = (if rc_redis c = None then (Inr (), c) else on_redis (rd_aclose R) c)"

definition redis_ping :: "'r redis_driver \<Rightarrow> ('r redis_cache, bool) io" where
  "redis_ping R = io_catch (on_redis (rd_ping R)) is_Exception (\<lambda>_. io_return False)"

definition cache_get :: "'r redis_driver \<Rightarrow> string \<Rightarrow> ('r redis_cache, string option) io" where
  "cache_get R key = on_redis (rd_get R key)"

definition cache_set :: "'r redis_driver \<Rightarrow> string \<Rightarrow> string \<Rightarrow> int \<Rightarrow> ('r redis_cache, unit) io" where
  "cache_set R key value ttl = on_redis (rd_set R key value ttl)"

section \<open>Cache-aside\<close>

definition count_hit :: "('r redis_cache, unit) io" where
  "count_hit c = (Inr (), c\<lparr>rc_hits := Suc (rc_hits c)\<rparr>)"

text \<open>The first \<open>try\<close> of \<open>get_or_set\<close>: the cached value, if the key is there and holds JSON.\<close>

definition cached_value :: "'r redis_driver \<Rightarrow> string \<Rightarrow> ('r redis_cache, pyval option) io" where
  "cached_value R key = io_bind (on_redis (rd_get R key)) (\<lambda>cached. case cached of
       None \<Rightarrow> io_return None
     | Some s \<Rightarrow> io_bind count_hit (\<lambda>_. case json_loads s of Inl e \<Rightarrow> io_raise e | Inr v \<Rightarrow> io_return (Some v)))"

definition get_or_set ::
  "'r redis_driver \<Rightarrow> string \<Rightarrow> int \<Rightarrow> ('f, pyval) io \<Rightarrow> ('r redis_cache \<times> 'f, pyval \<times> bool) io" where
  "get_or_set R key ttl factory st = (case st of (c, f) \<Rightarrow>
     (case io_catch (cached_value R key) is_Exception (\<lambda>_. io_return None) c of
        (Inl e, c1) \<Rightarrow> (Inl e, c1, f)
      | (Inr (Some v), c1) \<Rightarrow> (Inr (v, True), c1, f)
      | (Inr None, c1) \<Rightarrow>
          let c2 = c1\<lparr>rc_misses := Suc (rc_misses c1)\<rparr> in
          (case factory f of
             (Inl e, f1) \<Rightarrow> (Inl e, c2, f1)
           | (Inr value, f1) \<Rightarrow>
               (case io_catch (on_redis (rd_set R key (json_dumps value) ttl)) is_Exception (\<lambda>_. io_return ()) c2 of
                  (Inl e, c3) \<Rightarrow> (Inl e, c3, f1)
                | (Inr _, c3) \<Rightarrow> (Inr (value, False), c3, f1)))))"

section \<open>Rate limiting\<close>

definition rate_key :: "string \<Rightarrow> int \<Rightarrow> string" where
  "rate_key identifier bucket = ''ratelimit:'' @ identifier @ '':'' @ int_str bucket"

definition count_request :: "'r redis_driver \<Rightarrow> int \<Rightarrow> string \<Rightarrow> int \<Rightarrow> int \<Rightarrow> ('r redis_cache, bool) io" where
  "count_request R now identifier limit window_seconds =
     (if window_seconds = 0 then io_raise ZeroDivisionErr
      else let key = rate_key identifier (now div window_seconds) in
        io_bind (on_redis (rd_incr R key)) (\<lambda>count.
        io_bind (if count = 1 then on_redis (rd_expire R key window_seconds) else io_return ()) (\<lambda>_.
        io_return (count \<le> limit))))"

definition check_rate_limit :: "'r redis_driver \<Rightarrow> int \<Rightarrow> string \<Rightarrow> int \<Rightarrow> int \<Rightarrow> ('r redis_cache, bool) io" where
  "check_rate_limit R now identifier limit window_seconds =
     io_catch (count_request R now identifier limit window_seconds) is_Exception (\<lambda>_. io_return True)"

section \<open>Idempotency keys\<close>

definition idem_key :: "string \<Rightarrow> string" where
  "idem_key key = ''idem:'' @ key"

definition check_idempotency :: "'r redis_driver \<Rightarrow> string \<Rightarrow> string \<Rightarrow> int \<Rightarrow> ('r redis_cache, string) io" where
  "check_idempotency R key fingerprint ttl_seconds =
     (let redis_key = idem_key key in
      io_catch
        (io_bind (on_redis (rd_set_nx R redis_key fingerprint ttl_seconds)) (\<lambda>claimed.
           if claimed then io_return ''new''
           else io_bind (on_redis (rd_get R redis_key)) (\<lambda>stored.
             io_return (if stored = Some fingerprint then ''replay'' else ''conflict''))))
        is_Exception (\<lambda>_. io_return ''new''))"

section \<open>Lemmas: the calls\<close>

lemma on_redis_Some: "rc_redis c = Some w \<Longrightarrow> on_redis f c = (fst (f w), c\<lparr>rc_redis := Some (snd (f w))\<rparr>)"
  by (simp add: on_redis_def split: prod.splits)

lemma on_redis_cases:
  assumes "on_redis f c = (r, c')" and "rc_redis c = Some w"
  obtains w' where "f w = (r, w')" "c' = c\<lparr>rc_redis := Some w'\<rparr>"
  using assms by (cases "f w") (auto simp: on_redis_def)

lemma aged_mono: "aged keeps V tm w K w' \<Longrightarrow> tm w \<le> tm w'"
  by (simp add: aged_def)

lemma aged_sub: "aged keeps V tm w K w' \<Longrightarrow> K k = Some e \<Longrightarrow> V w k = Some e"
  by (auto simp: aged_def map_le_def dom_def)

lemma aged_kept: "aged True V tm w K w' \<Longrightarrow> V w k = Some (v, d) \<Longrightarrow> (\<And>t. d = Some t \<Longrightarrow> tm w' < t) \<Longrightarrow> K k = Some (v, d)"
  by (auto simp: aged_def)

lemma contractD:
  assumes "redis_contract keeps R V tm"
  shows "get_contract keeps R V tm" "set_contract keeps R V tm" "set_nx_contract keeps R V tm"
    "incr_contract keeps R V tm" "expire_contract keeps R V tm"
    "ordinary (rd_get R k)" "ordinary (rd_set R k v ttl)" "ordinary (rd_set_nx R k v ttl)" "ordinary (rd_incr R k)"
    "ordinary (rd_expire R k ttl)"
  using assms by (simp_all add: redis_contract_def)

section \<open>Lemmas: the rate limit\<close>

text \<open>A run of checks by one client, with the clock readings of its requests.\<close>

fun rate_checks :: "'r redis_driver \<Rightarrow> string \<Rightarrow> int \<Rightarrow> int \<Rightarrow> int list \<Rightarrow> 'r redis_cache \<Rightarrow> (exn + bool) list \<times> 'r redis_cache" where
  "rate_checks R ident limit window [] c = ([], c)"
| "rate_checks R ident limit window (now # nows) c =
     (let (r, c1) = check_rate_limit R now ident limit window c; (rs, c2) = rate_checks R ident limit window nows c1
      in (r # rs, c2))"

lemma check_rate_limit_cases:
  assumes "check_rate_limit R now ident limit window c = (r, c')" and c: "rc_redis c = Some w" and "window \<noteq> 0"
    and contract: "redis_contract keeps R V tm"
  obtains (lost) w1 e where "rd_incr R (rate_key ident (now div window)) w = (Inl e, w1)"
      "c' = c\<lparr>rc_redis := Some w1\<rparr>" "r = Inr True"
    | (counted) n w1 where "rd_incr R (rate_key ident (now div window)) w = (Inr n, w1)" "n \<noteq> 1"
      "c' = c\<lparr>rc_redis := Some w1\<rparr>" "r = Inr (n \<le> limit)"
    | (first) w1 w2 x where "rd_incr R (rate_key ident (now div window)) w = (Inr 1, w1)"
      "rd_expire R (rate_key ident (now div window)) window w1 = (x, w2)"
      "c' = c\<lparr>rc_redis := Some w2\<rparr>" "r = (case x of Inl _ \<Rightarrow> Inr True | Inr _ \<Rightarrow> Inr (1 \<le> limit))"
proof -
  let ?k = "rate_key ident (now div window)"
  obtain x1 w1 where i: "rd_incr R ?k w = (x1, w1)" by (metis surj_pair)
  have exI: "is_Exception e" if "rd_incr R ?k w = (Inl e, w1)" for e
    using contractD(9) [OF contract] that by (auto simp: ordinary_def)
  show thesis
  proof (cases x1)
    case (Inl e)
    with assms i exI show thesis
      by (intro lost [of e w1]) (auto simp: check_rate_limit_def count_request_def on_redis_Some io_defs Let_def)
  next
    case (Inr n)
    show thesis
    proof (cases "n = 1")
      case False
      with Inr assms i show thesis
        by (intro counted [of n w1]) (auto simp: check_rate_limit_def count_request_def on_redis_Some io_defs Let_def)
    next
      case True
      obtain x2 w2 where e: "rd_expire R ?k window w1 = (x2, w2)" by (metis surj_pair)
      have "is_Exception e" if "x2 = Inl e" for e
        using contractD(10) [OF contract, where k = ?k and ttl = window] that e by (auto simp: ordinary_def)
      with True Inr assms i e show thesis
        by (intro first [of w1 x2 w2]) (auto simp: check_rate_limit_def count_request_def on_redis_Some io_defs Let_def split: sum.splits)
    qed
  qed
qed

text \<open>The counter of a key is at most \<open>j\<close>.\<close>

definition count_le :: "('r \<Rightarrow> redis_data) \<Rightarrow> string \<Rightarrow> 'r \<Rightarrow> int \<Rightarrow> bool" where
  "count_le V k w j \<longleftrightarrow> V w k = None \<or> (\<exists>m d. V w k = Some (int_str m, d) \<and> m \<le> j)"

lemma incr_count_le:
  assumes contract: "redis_contract keeps R V tm" and le: "count_le V k w j" "0 \<le> j" and call: "rd_incr R k w = (r, w')"
  shows "count_le V k w' (j + 1) \<and> (\<forall>n. r = Inr n \<longrightarrow> n \<le> j + 1)"
proof -
  obtain K where K: "aged keeps V tm w K w'"
    "(\<exists>m d. counter K k m d \<and> V w' = K(k \<mapsto> (int_str (m + 1), d)) \<and> (\<forall>n. r = Inr n \<longrightarrow> n = m + 1)) \<or> V w' = K \<and> (\<exists>e. r = Inl e)"
    using contractD(4) [OF contract] call unfolding incr_contract_def by meson
  have old: "m \<le> j" if "counter K k m d" for m d
    using that le aged_sub [OF K(1)] by (fastforce simp: counter_def count_le_def)
  from K(2) show ?thesis
  proof
    assume "\<exists>m d. counter K k m d \<and> V w' = K(k \<mapsto> (int_str (m + 1), d)) \<and> (\<forall>n. r = Inr n \<longrightarrow> n = m + 1)"
    then obtain m d where m: "counter K k m d" "V w' = K(k \<mapsto> (int_str (m + 1), d))" "\<forall>n. r = Inr n \<longrightarrow> n = m + 1" by blast
    with old have "m \<le> j" by blast
    with m show ?thesis by (auto simp: count_le_def)
  next
    assume "V w' = K \<and> (\<exists>e. r = Inl e)"
    with le aged_sub [OF K(1)] show ?thesis by (cases "K k") (fastforce simp: count_le_def)+
  qed
qed

lemma expire_count_le:
  assumes contract: "redis_contract keeps R V tm" and le: "count_le V k w j" and call: "rd_expire R k ttl w = (r, w')"
  shows "count_le V k w' j"
proof -
  obtain K d where K: "aged keeps V tm w K w'"
    "V w' = (case K k of None \<Rightarrow> K | Some (v, _) \<Rightarrow> K(k \<mapsto> (v, Some d))) \<or> V w' = K"
    using contractD(5) [OF contract] call unfolding expire_contract_def by meson
  with le aged_sub [OF K(1)] show ?thesis
    by (cases "K k") (fastforce simp: count_le_def split: prod.splits)+
qed

lemma rate_check_early:
  assumes contract: "redis_contract keeps R V tm" and c: "rc_redis c = Some w" and "window \<noteq> 0"
    and le: "count_le V (rate_key ident (now div window)) w j" "0 \<le> j"
    and call: "check_rate_limit R now ident limit window c = (r, c')"
  shows "\<exists>w'. c' = c\<lparr>rc_redis := Some w'\<rparr> \<and> count_le V (rate_key ident (now div window)) w' (j + 1) \<and>
    (j < limit \<longrightarrow> r = Inr True)"
  using call c \<open>window \<noteq> 0\<close> contract
proof (cases rule: check_rate_limit_cases)
  case (lost w1 e)
  with incr_count_le [OF contract le] show ?thesis by auto
next
  case (counted n w1)
  with incr_count_le [OF contract le counted(1)] show ?thesis by auto
next
  case (first w1 w2 x)
  have "count_le V (rate_key ident (now div window)) w1 (j + 1)" using incr_count_le [OF contract le first(1)] by simp
  from expire_count_le [OF contract this first(2)] first le show ?thesis by (auto split: sum.splits)
qed

lemma rate_checks_early:
  assumes contract: "redis_contract keeps R V tm" and "window \<noteq> 0"
  shows "\<lbrakk>rc_redis c = Some w; count_le V (rate_key ident b) w j; 0 \<le> j; \<forall>now \<in> set nows. now div window = b;
    rate_checks R ident limit window nows c = (rs, c'); i < length nows; j + int i < limit\<rbrakk> \<Longrightarrow> rs ! i = Inr True"
proof (induction nows arbitrary: c w j rs i)
  case (Cons now nows)
  obtain r c1 where step: "check_rate_limit R now ident limit window c = (r, c1)" by (metis surj_pair)
  obtain rs1 c2 where rest: "rate_checks R ident limit window nows c1 = (rs1, c2)" by (metis surj_pair)
  from Cons.prems step rest have rs: "rs = r # rs1" "c' = c2" by simp_all
  have b: "now div window = b" using Cons.prems by simp
  obtain w1 where w1: "c1 = c\<lparr>rc_redis := Some w1\<rparr>" "count_le V (rate_key ident b) w1 (j + 1)" "j < limit \<longrightarrow> r = Inr True"
    using rate_check_early [OF contract Cons.prems(1) \<open>window \<noteq> 0\<close>, of ident now j limit r c1] Cons.prems b step by auto
  show ?case
  proof (cases i)
    case 0
    with Cons.prems w1 rs show ?thesis by simp
  next
    case (Suc i')
    have "rs1 ! i' = Inr True"
      using Cons.prems Suc w1 rest rs by (intro Cons.IH [of c1 w1 "j + 1" rs1 i']) simp_all
    with Suc rs show ?thesis by simp
  qed
qed simp

text \<open>The counter of a key is \<open>j\<close> and lives at least until \<open>hi\<close>.\<close>

definition count_is :: "('r \<Rightarrow> redis_data) \<Rightarrow> string \<Rightarrow> int \<Rightarrow> 'r \<Rightarrow> int \<Rightarrow> bool" where
  "count_is V k hi w j \<longleftrightarrow> (if j = 0 then V w k = None
     else \<exists>d. V w k = Some (int_str j, d) \<and> (\<forall>t. d = Some t \<longrightarrow> hi \<le> t))"

lemma incr_count_is:
  assumes contract: "redis_contract True R V tm" and up: "answers R V" and cnt: "count_is V k hi w j" "0 \<le> j"
    and call: "rd_incr R k w = (r, w')" and hi: "tm w' < hi"
  shows "r = Inr (j + 1) \<and> count_is V k hi w' (j + 1)"
proof -
  obtain d0 where d0: "counter (V w) k j d0" "\<forall>t. d0 = Some t \<longrightarrow> hi \<le> t"
    using cnt by (auto simp: count_is_def counter_def split: if_splits)
  with up call obtain n where r: "r = Inr n" unfolding answers_def by (metis prod.inject)
  obtain K m d where K: "aged True V tm w K w'" "counter K k m d" "V w' = K(k \<mapsto> (int_str (m + 1), d))" "n = m + 1"
    using contractD(4) [OF contract] call r unfolding incr_contract_def by (metis Inr_inject sum.distinct(1))
  have "m = j \<and> d = d0"
  proof (cases "V w k")
    case None
    then have "K k = None" using aged_sub [OF K(1), of k] by (cases "K k") auto
    with K(2) d0 None show ?thesis by (auto simp: counter_def)
  next
    case (Some e)
    with d0 have "V w k = Some (int_str j, d0)" by (auto simp: counter_def)
    then have "K k = Some (int_str j, d0)" using d0(2) hi by (intro aged_kept [OF K(1)]) auto
    with K(2) show ?thesis by (auto simp: counter_def)
  qed
  with r K d0 cnt show ?thesis by (auto simp: count_is_def)
qed

lemma expire_count_is:
  assumes contract: "redis_contract True R V tm" and up: "answers R V" and cnt: "count_is V k hi w j" "0 < j"
    and call: "rd_expire R k ttl w = (r, w')" and hi: "hi \<le> tm w + ttl" "tm w' < hi"
  shows "r = Inr () \<and> count_is V k hi w' j"
proof -
  obtain d0 where d0: "V w k = Some (int_str j, d0)" "\<forall>t. d0 = Some t \<longrightarrow> hi \<le> t"
    using cnt by (auto simp: count_is_def split: if_splits)
  from up call have r: "r = Inr ()" unfolding answers_def by (metis prod.inject)
  obtain K d where K: "aged True V tm w K w'" "deadline tm w w' ttl d"
    "V w' = (case K k of None \<Rightarrow> K | Some (v, _) \<Rightarrow> K(k \<mapsto> (v, Some d)))"
    using contractD(5) [OF contract] call r unfolding expire_contract_def by (metis sum.distinct(1))
  have "K k = Some (int_str j, d0)" using d0 hi by (intro aged_kept [OF K(1)]) auto
  with r K hi cnt show ?thesis by (auto simp: count_is_def deadline_def)
qed

lemma call_mono:
  assumes "redis_contract keeps R V tm"
  shows "rd_incr R k w = (x, w') \<Longrightarrow> tm w \<le> tm w'" "rd_expire R k ttl w = (y, w') \<Longrightarrow> tm w \<le> tm w'"
    "rd_get R k w = (z, w') \<Longrightarrow> tm w \<le> tm w'" "rd_set_nx R k v ttl w = (b, w') \<Longrightarrow> tm w \<le> tm w'"
    "rd_set R k v ttl w = (y, w') \<Longrightarrow> tm w \<le> tm w'"
  using contractD(1-5) [OF assms]
  unfolding incr_contract_def expire_contract_def get_contract_def set_contract_def set_nx_contract_def
  by (metis aged_mono)+

lemma rate_check_exact:
  assumes contract: "redis_contract True R V tm" and up: "answers R V" and c: "rc_redis c = Some w" and window: "0 < window"
    and cnt: "count_is V (rate_key ident (now div window)) hi w j" "0 \<le> j"
    and call: "check_rate_limit R now ident limit window c = (r, c')"
    and lo: "hi - window \<le> tm w" and fin: "rc_redis c' = Some w'" "tm w' < hi"
  shows "r = Inr (j + 1 \<le> limit) \<and> count_is V (rate_key ident (now div window)) hi w' (j + 1)"
  using call c less_imp_neq [OF window, symmetric] contract
proof (cases rule: check_rate_limit_cases)
  case (lost w1 e)
  with incr_count_is [OF contract up cnt lost(1)] fin show ?thesis by auto
next
  case (counted n w1)
  with incr_count_is [OF contract up cnt counted(1)] fin show ?thesis by auto
next
  case (first w1 w2 x)
  have w2: "w2 = w'" using first fin by simp
  have "tm w1 \<le> tm w2" using call_mono(2) [OF contract first(2)] .
  then have one: "j = 0" "count_is V (rate_key ident (now div window)) hi w1 (j + 1)"
    using incr_count_is [OF contract up cnt first(1)] fin w2 by auto
  have "tm w \<le> tm w1" using call_mono(1) [OF contract first(1)] .
  with lo have "hi \<le> tm w1 + window" by simp
  with expire_count_is [OF contract up one(2) _ first(2)] fin w2 one(1)
  have "x = Inr () \<and> count_is V (rate_key ident (now div window)) hi w' (j + 1)" by simp
  with first one(1) show ?thesis by simp
qed

lemma check_rate_limit_mono:
  assumes contract: "redis_contract keeps R V tm" and "rc_redis c = Some w" and "window \<noteq> 0"
    and "check_rate_limit R now ident limit window c = (r, c')"
  shows "\<exists>w'. rc_redis c' = Some w' \<and> tm w \<le> tm w'"
  using assms(4,2,3,1)
  by (cases rule: check_rate_limit_cases) (auto dest: call_mono [OF contract] intro: order_trans)

lemma rate_checks_mono:
  assumes contract: "redis_contract keeps R V tm" and "window \<noteq> 0"
  shows "rc_redis c = Some w \<Longrightarrow> rate_checks R ident limit window nows c = (rs, c') \<Longrightarrow> \<exists>w'. rc_redis c' = Some w' \<and> tm w \<le> tm w'"
proof (induction nows arbitrary: c w rs)
  case (Cons now nows)
  obtain r c1 where step: "check_rate_limit R now ident limit window c = (r, c1)" by (metis surj_pair)
  obtain rs1 c2 where rest: "rate_checks R ident limit window nows c1 = (rs1, c2)" by (metis surj_pair)
  obtain w1 where w1: "rc_redis c1 = Some w1" "tm w \<le> tm w1"
    using check_rate_limit_mono [OF contract Cons.prems(1) \<open>window \<noteq> 0\<close> step] by blast
  from Cons.prems step rest have "rate_checks R ident limit window nows c1 = (rs1, c')" by simp
  from Cons.IH [OF w1(1) this] w1(2) show ?case by (auto intro: order_trans)
qed simp

lemma rate_checks_exact:
  assumes contract: "redis_contract True R V tm" and up: "answers R V" and window: "0 < window" and "hi = (b + 1) * window"
  shows "\<lbrakk>rc_redis c = Some w; count_is V (rate_key ident b) hi w (int j); \<forall>now \<in> set nows. now div window = b;
    b * window \<le> tm w; rate_checks R ident limit window nows c = (rs, c'); rc_redis c' = Some w'; tm w' < hi\<rbrakk> \<Longrightarrow>
    rs = map (\<lambda>i. Inr (int i \<le> limit)) [Suc j..<Suc (j + length nows)]"
proof (induction nows arbitrary: c w j rs)
  case (Cons now nows)
  obtain r c1 where step: "check_rate_limit R now ident limit window c = (r, c1)" by (metis surj_pair)
  obtain rs1 c2 where rest: "rate_checks R ident limit window nows c1 = (rs1, c2)" by (metis surj_pair)
  from Cons.prems step rest have rs: "rs = r # rs1" "c' = c2" by simp_all
  have nz: "window \<noteq> 0" using window by simp
  obtain w1 where w1: "rc_redis c1 = Some w1" "tm w \<le> tm w1"
    using check_rate_limit_mono [OF contract Cons.prems(1) nz step] by blast
  have "tm w1 \<le> tm w'" using rate_checks_mono [OF contract nz w1(1) rest] Cons.prems rs by auto
  with Cons.prems have "tm w1 < hi" by simp
  moreover have "hi - window \<le> tm w" using Cons.prems assms(4) by (simp add: algebra_simps)
  moreover have "now div window = b" using Cons.prems by simp
  ultimately have r: "r = Inr (int j + 1 \<le> limit)" "count_is V (rate_key ident b) hi w1 (int j + 1)"
    using rate_check_exact [OF contract up Cons.prems(1) window _ _ step _ w1(1)] Cons.prems(2) by auto
  have up: "[Suc j..<Suc (j + length (now # nows))] = Suc j # [Suc (Suc j)..<Suc (Suc j + length nows)]"
    by (subst upt_conv_Cons) simp_all
  have "rs1 = map (\<lambda>i. Inr (int i \<le> limit)) [Suc (Suc j)..<Suc (Suc j + length nows)]"
    using Cons.prems r w1 rest rs by (intro Cons.IH [OF w1(1)]) (simp_all add: add.commute)
  with rs r show ?case unfolding up by (simp add: add.commute)
qed simp

text \<open>
  C14: the fixed-window rate limit. For requests of one client whose clock readings fall into one window, with
  no counter there before: whatever Redis does (calls that fail, before or after being applied, entries that
  are evicted), no request among the first \<open>limit\<close> is refused. When Redis is up, evicts nothing and its clock
  stays within the window, the count is exact: the \<open>i\<close>-th request is allowed if and only if \<open>i \<le> limit\<close>. In
  particular the counter does not expire inside its window, although its time to live starts at the first
  request and not at the start of the window.
\<close>

theorem rate_limit_fixed_window:
  assumes contract: "redis_contract keeps R V tm" and window: "0 < window" and c: "rc_redis c = Some w"
    and fresh: "V w (rate_key ident b) = None" and bucket: "\<forall>now \<in> set nows. now div window = b"
    and run: "rate_checks R ident limit window nows c = (rs, c')"
  shows "(\<forall>i < length nows. int i < limit \<longrightarrow> rs ! i = Inr True) \<and>
    (keeps \<and> answers R V \<and> b * window \<le> tm w \<and> (\<exists>w'. rc_redis c' = Some w' \<and> tm w' < (b + 1) * window) \<longrightarrow>
      rs = map (\<lambda>i. Inr (int i \<le> limit)) [1..<Suc (length nows)])"
proof (intro conjI impI allI)
  fix i assume "i < length nows" "int i < limit"
  with rate_checks_early [OF contract less_imp_neq [OF window, symmetric] c _ _ bucket run, of 0 i] fresh
  show "rs ! i = Inr True" by (simp add: count_le_def)
next
  assume up: "keeps \<and> answers R V \<and> b * window \<le> tm w \<and> (\<exists>w'. rc_redis c' = Some w' \<and> tm w' < (b + 1) * window)"
  then obtain w' where w': "rc_redis c' = Some w'" "tm w' < (b + 1) * window" by blast
  from up contract have "redis_contract True R V tm" by simp
  from rate_checks_exact [OF this _ window refl c _ bucket _ run w', of 0] up fresh
  show "rs = map (\<lambda>i. Inr (int i \<le> limit)) [1..<Suc (length nows)]" by (simp add: count_is_def)
qed

definition sample_redis :: "(nat \<times> nat) list \<Rightarrow> redis_mem redis_cache" where
  "sample_redis script = \<lparr>rc_url = ''redis://'', rc_redis = Some (rm_new 120 script), rc_hits = 0, rc_misses = 0\<rparr>"

theorem rate_limit_fixed_window_witness:
  "fst (rate_checks (rm_driver False (rm_new 0 [])) ''10.0.0.1'' 2 60 [120, 125, 179] (sample_redis [(0, 0), (1, 0), (2, 0), (50, 0)])) =
    [Inr True, Inr True, Inr False]"
proof -
  let ?R = "rm_driver False (rm_new 0 [])" and ?c = "sample_redis [(0, 0), (1, 0), (2, 0), (50, 0)]"
  let ?run = "rate_checks ?R ''10.0.0.1'' 2 60 [120, 125, 179] ?c"
  have "map_option rm_clock (rc_redis (snd ?run)) = Some 173" by code_simp
  then have "\<exists>w'. rc_redis (snd ?run) = Some w' \<and> rm_clock w' < (2 + 1) * 60" by auto
  from this rate_limit_fixed_window [OF rm_contract [where faulty = False and ?m0.0 = "rm_new 0 []"], where w = "rm_new 120 [(0, 0), (1, 0), (2, 0), (50, 0)]" and b = 2 and window = 60
      and nows = "[120, 125, 179]" and c = ?c and rs = "fst ?run" and c' = "snd ?run" and limit = 2 and ident = "''10.0.0.1''"]
  have "fst ?run = map (\<lambda>i. Inr (int i \<le> 2)) [1..<Suc (length [120, 125, 179 :: int])]"
    by (simp add: rm_answers sample_redis_def rm_new_def)
  then show ?thesis by (simp add: upt_conv_Cons)
qed

section \<open>Lemmas: cache-aside\<close>

lemma cached_value_cases:
  assumes "io_catch (cached_value R key) is_Exception (\<lambda>_. io_return None) c = (r, c')" and c: "rc_redis c = Some w"
    and contract: "redis_contract keeps R V tm"
  obtains (hit) w1 s v where "rd_get R key w = (Inr (Some s), w1)" "json_loads s = Inr v" "r = Inr (Some v)"
      "c' = c\<lparr>rc_redis := Some w1, rc_hits := Suc (rc_hits c)\<rparr>"
    | (unreadable) w1 s where "rd_get R key w = (Inr (Some s), w1)" "json_loads s = Inl ValueErr" "r = Inr None"
      "c' = c\<lparr>rc_redis := Some w1, rc_hits := Suc (rc_hits c)\<rparr>"
    | (absent) w1 x where "rd_get R key w = (x, w1)" "\<forall>s. x \<noteq> Inr (Some s)" "r = Inr None" "c' = c\<lparr>rc_redis := Some w1\<rparr>"
proof -
  obtain x w1 where g: "rd_get R key w = (x, w1)" by (metis surj_pair)
  have loads: "e = ValueErr" if "json_loads s = Inl e" for s e
    using that by (auto simp: json_loads_def split: option.splits prod.splits if_splits)
  have ord: "is_Exception e" if "x = Inl e" for e
    using contractD(6) [OF contract, where k = key] that g by (auto simp: ordinary_def)
  note unfolds = cached_value_def on_redis_Some io_defs count_hit_def
  consider e where "x = Inl e" | "x = Inr None" | s e where "x = Inr (Some s)" "json_loads s = Inl e"
    | s v where "x = Inr (Some s)" "json_loads s = Inr v"
    by (metis option.exhaust sumE)
  then show thesis
  proof cases
    case 1
    with ord show thesis using assms(1) c g by (intro absent [OF g]) (auto simp: unfolds)
  next
    case 2
    then show thesis using assms(1) c g by (intro absent [OF g]) (auto simp: unfolds)
  next
    case (3 s e)
    with loads have "json_loads s = Inl ValueErr" by blast
    with 3 show thesis using assms(1) c g by (intro unreadable [of s w1]) (auto simp: unfolds is_Exception_def)
  next
    case (4 s v)
    then show thesis using assms(1) c g by (intro hit [of s w1 v]) (auto simp: unfolds)
  qed
qed

lemma get_or_set_cases:
  assumes call: "get_or_set R key ttl factory (c, f) = (r, c', f')" and c: "rc_redis c = Some w"
    and contract: "redis_contract keeps R V tm"
  obtains (hit) w1 s v where "rd_get R key w = (Inr (Some s), w1)" "json_loads s = Inr v" "r = Inr (v, True)" "f' = f"
      "c' = c\<lparr>rc_redis := Some w1, rc_hits := Suc (rc_hits c)\<rparr>"
    | (failed) w1 x e where "rd_get R key w = (x, w1)" "factory f = (Inl e, f')" "r = Inl e" "rc_redis c' = Some w1"
    | (computed) w1 x v y w2 where "rd_get R key w = (x, w1)" "factory f = (Inr v, f')"
      "rd_set R key (json_dumps v) ttl w1 = (y, w2)" "r = Inr (v, False)" "rc_redis c' = Some w2"
      "rc_misses c' = Suc (rc_misses c)"
proof -
  obtain r1 c1 where look: "io_catch (cached_value R key) is_Exception (\<lambda>_. io_return None) c = (r1, c1)" by (metis surj_pair)
  have miss: thesis
    if r1: "r1 = Inr None" and c1: "rc_redis c1 = Some w1" "rc_misses c1 = rc_misses c" and g: "rd_get R key w = (x, w1)" for w1 x
  proof -
    obtain y f1 where fac: "factory f = (y, f1)" by (metis surj_pair)
    show thesis
    proof (cases y)
      case (Inl e)
      with call look r1 c1 g fac show thesis by (intro failed [of x w1 e]) (auto simp: get_or_set_def Let_def)
    next
      case (Inr v)
      obtain z w2 where s: "rd_set R key (json_dumps v) ttl w1 = (z, w2)" by (metis surj_pair)
      have "is_Exception e" if "z = Inl e" for e
        using contractD(7) [OF contract, where k = key and v = "json_dumps v" and ttl = ttl] that s by (auto simp: ordinary_def)
      with Inr call look r1 c1 fac s g show thesis
        by (intro computed [of x w1 v z w2])
          (auto simp: get_or_set_def Let_def on_redis_Some io_defs split: sum.splits if_splits)
    qed
  qed
  from look c contract show thesis
  proof (cases rule: cached_value_cases)
    case (hit w1 s v)
    with call look show thesis by (intro that(1) [of s w1 v]) (simp_all add: get_or_set_def)
  next
    case (unreadable w1 s)
    then show thesis by (intro miss [of w1 "Inr (Some s)"]) simp_all
  next
    case (absent w1 x)
    then show thesis by (intro miss [of w1 x]) simp_all
  qed
qed

lemma get_returns:
  assumes "redis_contract keeps R V tm" and "rd_get R k w = (r, w')"
  obtains K where "aged keeps V tm w K w'" "V w' = K" "\<forall>v. r = Inr v \<longrightarrow> v = map_option fst (K k)"
proof -
  from contractD(1) [OF assms(1)] assms(2) have "aged keeps V tm w (V w') w' \<and> (\<forall>v. r = Inr v \<longrightarrow> v = map_option fst (V w' k))"
    by (simp add: get_contract_def)
  then show thesis by (intro that [of "V w'"]) simp_all
qed

lemma get_stored:
  assumes contract: "redis_contract True R V tm" and up: "answers R V" and call: "rd_get R k w = (r, w')"
    and stored: "V w k = Some (s, Some d)" "tm w' < d"
  shows "r = Inr (Some s) \<and> V w' k = Some (s, Some d)"
proof -
  from up call obtain v where r: "r = Inr v" unfolding answers_def by (metis prod.inject)
  from get_returns [OF contract call] r obtain K where K: "aged True V tm w K w'" "V w' = K" "v = map_option fst (K k)" by metis
  have "K k = Some (s, Some d)" using stored by (intro aged_kept [OF K(1)]) auto
  with K r show ?thesis by simp
qed

lemma set_stored:
  assumes contract: "redis_contract keeps R V tm" and up: "answers R V" and call: "rd_set R k v ttl w = (r, w')"
  shows "\<exists>d. V w' k = Some (v, Some d) \<and> tm w + ttl \<le> d"
proof -
  from up call have r: "r = Inr ()" unfolding answers_def by (metis prod.inject)
  obtain K d where "deadline tm w w' ttl d" "V w' = K(k \<mapsto> (v, Some d))"
    using contractD(2) [OF contract] call r unfolding set_contract_def by (metis sum.distinct(1))
  then show ?thesis by (auto simp: deadline_def)
qed

text \<open>The read of a call happens before the call ends.\<close>

lemma get_or_set_read:
  assumes "get_or_set R key ttl factory (c, f) = (r, c', f')" and "rc_redis c = Some w" and contract: "redis_contract keeps R V tm"
  shows "\<exists>x w1 w'. rd_get R key w = (x, w1) \<and> rc_redis c' = Some w' \<and> tm w1 \<le> tm w'"
  using assms(1-3) by (cases rule: get_or_set_cases) (auto dest: call_mono [OF contract])

lemma get_or_set_hit:
  assumes "rc_redis c = Some w" and "rd_get R key w = (Inr (Some s), w1)" and "json_loads s = Inr v"
  shows "get_or_set R key ttl factory (c, f) = (Inr (v, True), c\<lparr>rc_redis := Some w1, rc_hits := Suc (rc_hits c)\<rparr>, f)"
  using assms by (simp add: get_or_set_def cached_value_def on_redis_Some io_defs count_hit_def)

text \<open>
  C36: cache-aside. A value served from the cache is what the cached string reads as, and the factory is not
  called; a value not served from the cache is the factory's; an error is the factory's too, so a Redis failure
  never surfaces. And a computed value is the one the next call serves from the cache, as long as that call
  ends within the time to live, Redis is up and evicts nothing, and the value is one JSON can carry.
\<close>

theorem cache_aside:
  assumes contract: "redis_contract keeps R V tm" and c: "rc_redis c = Some w"
    and call: "get_or_set R key ttl factory (c, f) = (r, c', f')"
  shows "(\<forall>v. r = Inr (v, True) \<longrightarrow> f' = f \<and> (\<exists>s d. V w key = Some (s, d) \<and> json_loads s = Inr v)) \<and>
    (\<forall>v. r = Inr (v, False) \<longrightarrow> factory f = (Inr v, f')) \<and>
    (\<forall>e. r = Inl e \<longrightarrow> factory f = (Inl e, f')) \<and>
    (\<forall>v again w2. r = Inr (v, False) \<and> keeps \<and> answers R V \<and> json_ok v \<and>
       again = get_or_set R key ttl factory (c', f') \<and> rc_redis (fst (snd again)) = Some w2 \<and> tm w2 < tm w + ttl \<longrightarrow>
       fst again = Inr (v, True) \<and> snd (snd again) = f')"
proof (intro conjI allI impI; (elim conjE)?)
  fix v assume "r = Inr (v, True)"
  with call c contract show "f' = f"
    by (cases rule: get_or_set_cases) simp_all
next
  fix v assume r: "r = Inr (v, True)"
  from call c contract show "\<exists>s d. V w key = Some (s, d) \<and> json_loads s = Inr v"
  proof (cases rule: get_or_set_cases)
    case (hit w1 s v')
    from get_returns [OF contract hit(1)] obtain K where K: "aged keeps V tm w K w1" "Some s = map_option fst (K key)" by metis
    from K(2) obtain d where "K key = Some (s, d)" by (cases "K key") auto
    then have "V w key = Some (s, d)" by (rule aged_sub [OF K(1)])
    with hit r show ?thesis by simp
  qed (use r in simp_all)
next
  fix v assume "r = Inr (v, False)"
  with call c contract show "factory f = (Inr v, f')" by (cases rule: get_or_set_cases) simp_all
next
  fix e assume "r = Inl e"
  with call c contract show "factory f = (Inl e, f')" by (cases rule: get_or_set_cases) simp_all
next
  fix v again w2
  assume r: "r = Inr (v, False)" and up: "keeps" "answers R V" and ok: "json_ok v"
    and again: "again = get_or_set R key ttl factory (c', f')" "rc_redis (fst (snd again)) = Some w2" "tm w2 < tm w + ttl"
  from up contract have contract: "redis_contract True R V tm" by simp
  from call c contract r obtain x w1 y wm where m: "rd_get R key w = (x, w1)" "rd_set R key (json_dumps v) ttl w1 = (y, wm)"
    "rc_redis c' = Some wm"
    by (cases rule: get_or_set_cases) auto
  obtain d where d: "V wm key = Some (json_dumps v, Some d)" "tm w1 + ttl \<le> d"
    using set_stored [OF contract up(2) m(2)] by blast
  obtain x2 wr where read: "rd_get R key wm = (x2, wr)" "tm wr \<le> tm w2"
    using get_or_set_read [OF _ m(3) contract, of key ttl factory f' "fst again" "fst (snd again)" "snd (snd again)"] again by auto
  have "tm w \<le> tm w1" using call_mono(3) [OF contract m(1)] .
  with again d read have "tm wr < d" by simp
  with get_stored [OF contract up(2) read(1) d(1)] have "x2 = Inr (Some (json_dumps v))" by simp
  with get_or_set_hit [OF m(3), where key = key and s = "json_dumps v" and v = v and ttl = ttl and factory = factory and f = f'] read loads_dumps [OF separators_used(1) ok] again(1)
  have "again = (Inr (v, True), c'\<lparr>rc_redis := Some wr, rc_hits := Suc (rc_hits c')\<rparr>, f')" by simp
  then show "fst again = Inr (v, True)" "snd (snd again) = f'" by simp_all
qed

theorem cache_aside_witness:
  "fst (get_or_set (rm_driver False (rm_new 0 [])) ''events:stats:realtime'' 15 (\<lambda>n. (Inr (PInt n), n + 1))
     (snd (get_or_set (rm_driver False (rm_new 0 [])) ''events:stats:realtime'' 15 (\<lambda>n. (Inr (PInt n), n + 1))
       (sample_redis [(0, 0), (1, 0), (9, 0)], 7)))) = Inr (PInt 7, True)"
proof -
  let ?R = "rm_driver False (rm_new 0 [])" and ?c = "sample_redis [(0, 0), (1, 0), (9, 0)]"
  let ?f = "\<lambda>n. (Inr (PInt n) :: exn + pyval, n + 1)"
  let ?one = "get_or_set ?R ''events:stats:realtime'' 15 ?f (?c, 7)"
  let ?two = "get_or_set ?R ''events:stats:realtime'' 15 ?f (snd ?one)"
  have one: "fst ?one = Inr (PInt 7, False)" by code_simp
  have "map_option rm_clock (rc_redis (fst (snd ?two))) = Some 130" by code_simp
  then obtain w2 where w2: "rc_redis (fst (snd ?two)) = Some w2" "rm_clock w2 < 120 + 15" by auto
  have c: "rc_redis ?c = Some (rm_new 120 [(0, 0), (1, 0), (9, 0)])" by (simp add: sample_redis_def)
  from cache_aside [OF rm_contract [where faulty = False and ?m0.0 = "rm_new 0 []"] c, of "''events:stats:realtime''" 15 ?f 7 "fst ?one" "fst (snd ?one)" "snd (snd ?one)",
      THEN conjunct2, THEN conjunct2, THEN conjunct2, THEN spec [of _ "PInt 7"], THEN spec [of _ ?two], THEN spec [of _ w2]]
  show ?thesis using one w2 by (simp add: rm_answers rm_new_def)
qed

section \<open>Lemmas: idempotency keys\<close>

text \<open>A run of requests with one key, by their fingerprints.\<close>

fun idempotency_checks :: "'r redis_driver \<Rightarrow> string \<Rightarrow> int \<Rightarrow> string list \<Rightarrow> 'r redis_cache \<Rightarrow> (exn + string) list \<times> 'r redis_cache" where
  "idempotency_checks R key ttl [] c = ([], c)"
| "idempotency_checks R key ttl (fp # fps) c =
     (let (r, c1) = check_idempotency R key fp ttl c; (rs, c2) = idempotency_checks R key ttl fps c1 in (r # rs, c2))"

lemma check_idempotency_cases:
  assumes call: "check_idempotency R key fp ttl c = (r, c')" and c: "rc_redis c = Some w"
    and contract: "redis_contract keeps R V tm"
  obtains (open_fail) w1 e where "rd_set_nx R (idem_key key) fp ttl w = (Inl e, w1)" "r = Inr ''new''" "c' = c\<lparr>rc_redis := Some w1\<rparr>"
    | (claimed) w1 where "rd_set_nx R (idem_key key) fp ttl w = (Inr True, w1)" "r = Inr ''new''" "c' = c\<lparr>rc_redis := Some w1\<rparr>"
    | (taken) w1 x w2 where "rd_set_nx R (idem_key key) fp ttl w = (Inr False, w1)" "rd_get R (idem_key key) w1 = (x, w2)"
      "r = (case x of Inl _ \<Rightarrow> Inr ''new'' | Inr stored \<Rightarrow> Inr (if stored = Some fp then ''replay'' else ''conflict''))"
      "c' = c\<lparr>rc_redis := Some w2\<rparr>"
proof -
  let ?k = "idem_key key"
  note unfolds = check_idempotency_def on_redis_Some io_defs Let_def
  obtain x1 w1 where s: "rd_set_nx R ?k fp ttl w = (x1, w1)" by (metis surj_pair)
  consider e where "x1 = Inl e" | "x1 = Inr True" | "x1 = Inr False" by (metis (full_types) sumE)
  then show thesis
  proof cases
    case (1 e)
    then have "is_Exception e"
      using contractD(8) [OF contract, where k = ?k and v = fp and ttl = ttl] s by (auto simp: ordinary_def)
    with 1 call c s show thesis by (intro open_fail [of e w1]) (auto simp: unfolds)
  next
    case 2
    with call c s show thesis by (intro claimed [of w1]) (auto simp: unfolds)
  next
    case 3
    obtain x w2 where g: "rd_get R ?k w1 = (x, w2)" by (metis surj_pair)
    have "is_Exception e" if "x = Inl e" for e
      using contractD(6) [OF contract, where k = ?k] that g by (auto simp: ordinary_def)
    with 3 call c s g show thesis by (intro taken [of w1 x w2]) (auto simp: unfolds split: sum.splits)
  qed
qed

lemma set_nx_returns:
  assumes "redis_contract keeps R V tm" and "rd_set_nx R k v ttl w = (r, w')"
  obtains K d where "aged keeps V tm w K w'" "deadline tm w w' ttl d"
    "K k = None \<and> V w' = K(k \<mapsto> (v, Some d)) \<and> r \<noteq> Inr False \<or> V w' = K \<and> r \<noteq> Inr True \<and> (r = Inr False \<longrightarrow> K k \<noteq> None)"
  using contractD(3) [OF assms(1)] assms(2) unfolding set_nx_contract_def by meson

text \<open>What is stored under the key was submitted before.\<close>

definition stored_in :: "('r \<Rightarrow> redis_data) \<Rightarrow> string \<Rightarrow> 'r \<Rightarrow> string set \<Rightarrow> bool" where
  "stored_in V k w S \<longleftrightarrow> (\<forall>v d. V w k = Some (v, d) \<longrightarrow> v \<in> S)"

lemma stored_in_aged: "stored_in V k w S \<Longrightarrow> aged keeps V tm w K w' \<Longrightarrow> K k = Some (v, d) \<Longrightarrow> v \<in> S"
  using aged_sub [of keeps V tm w K w' k] by (auto simp: stored_in_def)

lemma stored_in_step:
  assumes contract: "redis_contract keeps R V tm" and c: "rc_redis c = Some w" and st: "stored_in V (idem_key key) w S"
    and call: "check_idempotency R key fp ttl c = (r, c')"
  shows "\<exists>w'. rc_redis c' = Some w' \<and> stored_in V (idem_key key) w' (insert fp S) \<and>
    r \<in> {Inr ''new'', Inr ''replay'', Inr ''conflict''} \<and> (r = Inr ''replay'' \<longrightarrow> fp \<in> S)"
proof -
  let ?k = "idem_key key"
  have nx: "stored_in V ?k w1 (insert fp S)" if "rd_set_nx R ?k fp ttl w = (y, w1)" for y w1
    using contract that
  proof (rule set_nx_returns)
    fix K d assume "aged keeps V tm w K w1"
      and "K ?k = None \<and> V w1 = K(?k \<mapsto> (fp, Some d)) \<and> y \<noteq> Inr False \<or> V w1 = K \<and> y \<noteq> Inr True \<and> (y = Inr False \<longrightarrow> K ?k \<noteq> None)"
    with stored_in_aged [OF st] show ?thesis by (auto simp: stored_in_def [of V ?k w1] split: if_splits)
  qed
  from call c contract show ?thesis
  proof (cases rule: check_idempotency_cases)
    case (open_fail w1 e)
    with nx show ?thesis by auto
  next
    case (claimed w1)
    with nx show ?thesis by auto
  next
    case (taken w1 x w2)
    from contract taken(1) have w1: "stored_in V ?k w1 S"
    proof (rule set_nx_returns)
      fix K d assume "aged keeps V tm w K w1"
        and "K ?k = None \<and> V w1 = K(?k \<mapsto> (fp, Some d)) \<and> (Inr False :: exn + bool) \<noteq> Inr False \<or>
          V w1 = K \<and> (Inr False :: exn + bool) \<noteq> Inr True \<and> ((Inr False :: exn + bool) = Inr False \<longrightarrow> K ?k \<noteq> None)"
      with stored_in_aged [OF st] show ?thesis by (auto simp: stored_in_def [of V ?k w1])
    qed
    from contract taken(2) obtain K where K: "aged keeps V tm w1 K w2" "V w2 = K" "\<forall>v. x = Inr v \<longrightarrow> v = map_option fst (K ?k)"
      by (rule get_returns)
    have "stored_in V ?k w2 S" using stored_in_aged [OF w1 K(1)] K(2) by (auto simp: stored_in_def [of V ?k w2])
    moreover have "fp \<in> S" if "x = Inr (Some fp)"
      using that K(3) stored_in_aged [OF w1 K(1)] by (cases "K ?k") auto
    ultimately show ?thesis using taken by (auto simp: stored_in_def split: sum.splits if_splits)
  qed
qed

lemma check_idempotency_mono:
  assumes "check_idempotency R key fp ttl c = (r, c')" and "rc_redis c = Some w" and contract: "redis_contract keeps R V tm"
  shows "\<exists>w'. rc_redis c' = Some w' \<and> tm w \<le> tm w'"
  using assms(1-3) by (cases rule: check_idempotency_cases) (auto dest: call_mono [OF contract] intro: order_trans)

lemma idempotency_checks_mono:
  assumes contract: "redis_contract keeps R V tm"
  shows "rc_redis c = Some w \<Longrightarrow> idempotency_checks R key ttl fps c = (rs, c') \<Longrightarrow> \<exists>w'. rc_redis c' = Some w' \<and> tm w \<le> tm w'"
proof (induction fps arbitrary: c w rs)
  case (Cons fp fps)
  obtain r c1 where step: "check_idempotency R key fp ttl c = (r, c1)" by (metis surj_pair)
  obtain rs1 c2 where rest: "idempotency_checks R key ttl fps c1 = (rs1, c2)" by (metis surj_pair)
  obtain w1 where w1: "rc_redis c1 = Some w1" "tm w \<le> tm w1"
    using check_idempotency_mono [OF step Cons.prems(1) contract] by blast
  from Cons.prems step rest have "idempotency_checks R key ttl fps c1 = (rs1, c')" by simp
  from Cons.IH [OF w1(1) this] w1(2) show ?case by (auto intro: order_trans)
qed simp

lemma replays_submitted:
  assumes contract: "redis_contract keeps R V tm"
  shows "\<lbrakk>rc_redis c = Some w; stored_in V (idem_key key) w S; idempotency_checks R key ttl fps c = (rs, c')\<rbrakk> \<Longrightarrow>
    length rs = length fps \<and> set rs \<subseteq> {Inr ''new'', Inr ''replay'', Inr ''conflict''} \<and>
    (\<forall>i < length fps. rs ! i = Inr ''replay'' \<longrightarrow> fps ! i \<in> S \<union> set (take i fps))"
proof (induction fps arbitrary: c w S rs)
  case (Cons fp fps)
  obtain r c1 where step: "check_idempotency R key fp ttl c = (r, c1)" by (metis surj_pair)
  obtain rs1 c2 where rest: "idempotency_checks R key ttl fps c1 = (rs1, c2)" by (metis surj_pair)
  from Cons.prems step rest have rs: "rs = r # rs1" "c2 = c'" by simp_all
  obtain w1 where w1: "rc_redis c1 = Some w1" "stored_in V (idem_key key) w1 (insert fp S)"
    "r \<in> {Inr ''new'', Inr ''replay'', Inr ''conflict''}" "r = Inr ''replay'' \<longrightarrow> fp \<in> S"
    using stored_in_step [OF contract Cons.prems(1,2) step] by blast
  from Cons.IH [OF w1(1,2) rest [unfolded rs(2)]] w1 show ?case
    unfolding rs by (auto simp: nth_Cons' less_Suc_eq_0_disj take_Cons' split: nat.splits) 
qed simp

lemma first_claim:
  assumes contract: "redis_contract True R V tm" and up: "answers R V" and c: "rc_redis c = Some w"
    and free: "V w (idem_key key) = None" and call: "check_idempotency R key fp ttl c = (r, c')"
  shows "r = Inr ''new'' \<and> (\<exists>w' d. rc_redis c' = Some w' \<and> V w' (idem_key key) = Some (fp, Some d) \<and> tm w + ttl \<le> d)"
proof -
  obtain b w1 where b: "rd_set_nx R (idem_key key) fp ttl w = (Inr b, w1)" using up unfolding answers_def by blast
  from contract b obtain K d where K: "aged True V tm w K w1" "deadline tm w w1 ttl d"
    "K (idem_key key) = None \<and> V w1 = K(idem_key key \<mapsto> (fp, Some d)) \<and> Inr b \<noteq> (Inr False :: exn + bool) \<or>
     V w1 = K \<and> Inr b \<noteq> (Inr True :: exn + bool) \<and> (Inr b = (Inr False :: exn + bool) \<longrightarrow> K (idem_key key) \<noteq> None)"
    by (rule set_nx_returns)
  have "K (idem_key key) = None" using aged_sub [OF K(1), of "idem_key key"] free by (cases "K (idem_key key)") auto
  with K have w1: "b = True" "V w1 (idem_key key) = Some (fp, Some d)" "tm w + ttl \<le> d" by (auto simp: deadline_def)
  from call c contract show ?thesis by (cases rule: check_idempotency_cases) (use b w1 in auto)
qed

lemma later_claim:
  assumes contract: "redis_contract True R V tm" and up: "answers R V" and c: "rc_redis c = Some w"
    and held: "V w (idem_key key) = Some (fp0, Some d)" and call: "check_idempotency R key fp ttl c = (r, c')"
    and fin: "rc_redis c' = Some w'" "tm w' < d"
  shows "r = Inr (if fp = fp0 then ''replay'' else ''conflict'') \<and> V w' (idem_key key) = Some (fp0, Some d)"
proof -
  obtain b w1 where b: "rd_set_nx R (idem_key key) fp ttl w = (Inr b, w1)" using up unfolding answers_def by blast
  from contract b obtain K t where K: "aged True V tm w K w1" "deadline tm w w1 ttl t"
    "K (idem_key key) = None \<and> V w1 = K(idem_key key \<mapsto> (fp, Some t)) \<and> Inr b \<noteq> (Inr False :: exn + bool) \<or>
     V w1 = K \<and> Inr b \<noteq> (Inr True :: exn + bool) \<and> (Inr b = (Inr False :: exn + bool) \<longrightarrow> K (idem_key key) \<noteq> None)"
    by (rule set_nx_returns)
  have "tm w1 \<le> tm w'" using call c contract
    by (cases rule: check_idempotency_cases) (use b fin in \<open>auto dest: call_mono [OF contract]\<close>)
  with fin have "K (idem_key key) = Some (fp0, Some d)" using held by (intro aged_kept [OF K(1)]) auto
  with K have w1: "b = False" "V w1 (idem_key key) = Some (fp0, Some d)" by auto
  from call c contract show ?thesis
  proof (cases rule: check_idempotency_cases)
    case (taken w1' x w2)
    with b w1 fin have "w1' = w1" "w2 = w'" by auto
    with taken get_stored [OF contract up, of "idem_key key" w1 x w2 fp0 d] w1 fin show ?thesis by (auto split: if_splits)
  qed (use b w1 in auto)
qed

lemma later_claims:
  assumes contract: "redis_contract True R V tm" and up: "answers R V"
  shows "\<lbrakk>rc_redis c = Some w; V w (idem_key key) = Some (fp0, Some d); idempotency_checks R key ttl fps c = (rs, c');
    rc_redis c' = Some w'; tm w' < d\<rbrakk> \<Longrightarrow> rs = map (\<lambda>f. Inr (if f = fp0 then ''replay'' else ''conflict'')) fps"
proof (induction fps arbitrary: c w rs)
  case (Cons fp fps)
  obtain r c1 where step: "check_idempotency R key fp ttl c = (r, c1)" by (metis surj_pair)
  obtain rs1 c2 where rest: "idempotency_checks R key ttl fps c1 = (rs1, c2)" by (metis surj_pair)
  from Cons.prems step rest have rs: "rs = r # rs1" "c2 = c'" by simp_all
  obtain w1 where w1: "rc_redis c1 = Some w1" using check_idempotency_mono [OF step Cons.prems(1) contract] by blast
  from idempotency_checks_mono [OF contract w1 rest [unfolded rs(2)]] Cons.prems have "tm w1 < d" by auto
  from later_claim [OF contract up Cons.prems(1,2) step w1 this]
    Cons.IH [OF w1 _ rest [unfolded rs(2)] Cons.prems(4,5)] rs
  show ?case by simp
qed simp

text \<open>
  C15: detection of reused idempotency keys, for a run of requests with one key. Whatever Redis does, every
  answer is \<open>new\<close>, \<open>replay\<close> or \<open>conflict\<close>, and a \<open>replay\<close> is only reported when that fingerprint was
  submitted before. When Redis is up and evicts nothing, and the run ends within the key's time to live, the
  first request is \<open>new\<close> and each later one a \<open>replay\<close> if its fingerprint is the first one's and a
  \<open>conflict\<close> if not.
\<close>

theorem idempotency_detection:
  assumes contract: "redis_contract keeps R V tm" and c: "rc_redis c = Some w" and free: "V w (idem_key key) = None"
    and run: "idempotency_checks R key ttl (fp # fps) c = (rs, c')"
  shows "set rs \<subseteq> {Inr ''new'', Inr ''replay'', Inr ''conflict''} \<and>
    (\<forall>i \<le> length fps. rs ! i = Inr ''replay'' \<longrightarrow> (fp # fps) ! i \<in> set (take i (fp # fps))) \<and>
    (keeps \<and> answers R V \<and> (\<exists>w'. rc_redis c' = Some w' \<and> tm w' < tm w + ttl) \<longrightarrow>
      rs = Inr ''new'' # map (\<lambda>f. Inr (if f = fp then ''replay'' else ''conflict'')) fps)"
proof -
  have "stored_in V (idem_key key) w {}" using free by (simp add: stored_in_def)
  from replays_submitted [OF contract c this run]
  have "set rs \<subseteq> {Inr ''new'', Inr ''replay'', Inr ''conflict''}"
    and "\<forall>i \<le> length fps. rs ! i = Inr ''replay'' \<longrightarrow> (fp # fps) ! i \<in> set (take i (fp # fps))"
    by (simp_all add: less_Suc_eq_le)
  moreover have "rs = Inr ''new'' # map (\<lambda>f. Inr (if f = fp then ''replay'' else ''conflict'')) fps"
    if up: "keeps" "answers R V" and fin: "rc_redis c' = Some w'" "tm w' < tm w + ttl" for w'
  proof -
    from up contract have contract: "redis_contract True R V tm" by simp
    obtain r c1 where step: "check_idempotency R key fp ttl c = (r, c1)" by (metis surj_pair)
    obtain rs1 c2 where rest: "idempotency_checks R key ttl fps c1 = (rs1, c2)" by (metis surj_pair)
    from run step rest have rs: "rs = r # rs1" "c2 = c'" by simp_all
    obtain w1 d where w1: "r = Inr ''new''" "rc_redis c1 = Some w1" "V w1 (idem_key key) = Some (fp, Some d)" "tm w + ttl \<le> d"
      using first_claim [OF contract up(2) c free step] by blast
    with fin have "tm w' < d" by simp
    from later_claims [OF contract up(2) w1(2,3) rest [unfolded rs(2)] fin(1) this] w1 rs show ?thesis by simp
  qed
  ultimately show ?thesis by blast
qed

theorem idempotency_detection_witness:
  "fst (idempotency_checks (rm_driver False (rm_new 0 [])) ''order-1'' 86400 [''aa'', ''aa'', ''bb''] (sample_redis [])) =
    [Inr ''new'', Inr ''replay'', Inr ''conflict'']"
proof -
  let ?R = "rm_driver False (rm_new 0 [])" and ?c = "sample_redis []"
  let ?run = "idempotency_checks ?R ''order-1'' 86400 [''aa'', ''aa'', ''bb''] ?c"
  have "map_option rm_clock (rc_redis (snd ?run)) = Some 120" by code_simp
  then have "\<exists>w'. rc_redis (snd ?run) = Some w' \<and> rm_clock w' < 120 + 86400" by auto
  moreover have c: "rc_redis ?c = Some (rm_new 120 [])" by (simp add: sample_redis_def)
  ultimately show ?thesis
    using idempotency_detection [OF rm_contract [where faulty = False and ?m0.0 = "rm_new 0 []"] c, of "''order-1''" 86400 "''aa''" "[''aa'', ''bb'']" "fst ?run" "snd ?run"]
    by (simp add: rm_answers rm_new_def)
qed

text \<open>
  The key may expire between \<open>SET NX\<close> and \<open>GET\<close>: then a genuine retry of the same body is reported as a
  conflict.
\<close>

lemma expiry_race_conflict:
  "fst (idempotency_checks (rm_driver False (rm_new 0 [])) ''order-1'' 10 [''aa'', ''aa''] (sample_redis [(0, 0), (9, 0), (1, 0)])) =
    [Inr ''new'', Inr ''conflict'']"
  by code_simp

text \<open>A cached string that is not JSON is counted as a hit and as a miss.\<close>

lemma unreadable_counts_twice:
  assumes "rc_redis c = Some w" and "rd_get R key w = (Inr (Some s), w1)" and "json_loads s = Inl ValueErr" and "factory f = (Inr v, f')"
    and "get_or_set R key ttl factory (c, f) = (Inr y, c', f'')"
  shows "rc_hits c' = Suc (rc_hits c) \<and> rc_misses c' = Suc (rc_misses c)"
proof -
  have look: "io_catch (cached_value R key) is_Exception (\<lambda>_. io_return None) c =
      (Inr None, c\<lparr>rc_redis := Some w1, rc_hits := Suc (rc_hits c)\<rparr>)"
    using assms(1-3) by (simp add: cached_value_def on_redis_Some io_defs count_hit_def is_Exception_def)
  let ?c2 = "c\<lparr>rc_redis := Some w1, rc_hits := Suc (rc_hits c), rc_misses := Suc (rc_misses c)\<rparr>"
  obtain x c3 where s: "io_catch (on_redis (rd_set R key (json_dumps v) ttl)) is_Exception (\<lambda>_. io_return ()) ?c2 = (x, c3)"
    by (metis surj_pair)
  then have "rc_hits c3 = rc_hits ?c2 \<and> rc_misses c3 = rc_misses ?c2"
    by (auto simp: io_catch_def on_redis_Some split: sum.splits if_splits)
  with assms(4,5) s show ?thesis by (auto simp: get_or_set_def look Let_def split: sum.splits)
qed

end
