(* ===== verification/Es_Store.thy ===== *)
theory Es_Store
  imports Models "HOL-Library.Sublist"
begin

text \<open>
  \<open>app/storage/es.py\<close>: the search mirror. The Elasticsearch client and its \<open>async_bulk\<close> helper are the
  parameter \<open>E\<close>, a record of operations over an unknown state; \<open>es_contract\<close> states what the code relies on
  of the stored documents, \<open>query_contract\<close> what a search answers from the documents that are searchable.
  \<open>model_dump(mode="json")\<close> is pydantic's and a parameter too.
\<close>

section \<open>The client\<close>

record 'e es_driver =
  es_new :: "string \<Rightarrow> 'e"
  es_info :: "('e, string) io"
  es_aclose :: "('e, unit) io"
  es_alive :: "('e, bool) io"
  es_index_exists :: "string \<Rightarrow> ('e, bool) io"
  es_index_create :: "string \<Rightarrow> pydict \<Rightarrow> ('e, unit) io"
  es_bulk :: "pydict list \<Rightarrow> ('e, nat \<times> pyval list) io"
  es_query :: "string \<Rightarrow> pyval \<Rightarrow> nat \<Rightarrow> nat \<Rightarrow> string list \<Rightarrow> bool \<Rightarrow> ('e, pyval) io"

text \<open>
  The documents of an index, by id. A client has two such views: the documents stored, and the documents
  searchable, which are those stored at the last refresh of the index (Elasticsearch is near-real-time).
\<close>

type_synonym 'e es_view = "'e \<Rightarrow> string \<Rightarrow> string \<Rightarrow> pydict option"

definition es_action :: "string \<Rightarrow> string \<Rightarrow> pydict \<Rightarrow> pydict" where
  "es_action index i source = [(''_index'', PStr index), (''_id'', PStr i), (''_source'', PDict source)]"

text \<open>An \<open>index\<close> action stores its source under its id, replacing what was there.\<close>

definition put_doc :: "string \<Rightarrow> string \<times> pydict \<Rightarrow> (string \<Rightarrow> string \<Rightarrow> pydict option) \<Rightarrow> string \<Rightarrow> string \<Rightarrow> pydict option" where
  "put_doc index a W = W(index := (W index)(fst a := Some (snd a)))"

text \<open>
  \<open>async_bulk(client, actions, raise_on_error=False)\<close>: each action is applied or not. When the helper
  returns, it has counted the applied ones and reports the others; when it raises (transport failures
  do), any of them may have been applied.
\<close>

definition bulk_contract :: "'e es_driver \<Rightarrow> 'e es_view \<Rightarrow> bool" where
  "bulk_contract E W \<longleftrightarrow> (\<forall>index acts w r w'. es_bulk E (map (\<lambda>(i, src). es_action index i src) acts) w = (r, w') \<longrightarrow>
     (\<exists>sel. sel \<subseteq> {..<length acts} \<and> W w' = fold (put_doc index) (nths acts sel) (W w) \<and>
       (\<forall>n errors. r = Inr (n, errors) \<longrightarrow> n = card sel \<and> length errors = length acts - card sel) \<and>
       (\<forall>e. r = Inl e \<longrightarrow> is_Exception e)))"

text \<open>The query clauses: \<open>leaf\<close> says which documents match a leaf clause of a kind with given arguments.\<close>

type_synonym leaf_semantics = "string \<Rightarrow> pydict \<Rightarrow> pydict \<Rightarrow> bool"

fun leaf_matches :: "leaf_semantics \<Rightarrow> pydict \<Rightarrow> pyval \<Rightarrow> bool" where
  "leaf_matches leaf src (PDict [(kind, PDict args)]) = leaf kind args src"
| "leaf_matches leaf src _ = False"

definition clauses :: "string \<Rightarrow> pydict \<Rightarrow> pyval list" where
  "clauses k b = (case dict_get b k of Some (PList cs) \<Rightarrow> cs | _ \<Rightarrow> [])"

fun query_matches :: "leaf_semantics \<Rightarrow> pyval \<Rightarrow> pydict \<Rightarrow> bool" where
  "query_matches leaf (PDict [(kind, PDict b)]) src =
     (if kind = ''match_all'' then True
      else if kind = ''bool'' then list_all (leaf_matches leaf src) (clauses ''must'' b @ clauses ''filter'' b)
      else False)"
| "query_matches leaf _ src = False"

definition without :: "string list \<Rightarrow> pydict \<Rightarrow> pydict" where
  "without ks d = filter (\<lambda>kv. fst kv \<notin> set ks) d"

text \<open>
  The answer to \<open>client.search\<close>: a window of the searchable documents that match, in some ranking, and their
  number. The last argument of \<open>es_query\<close> is \<open>track_total_hits\<close>; without it the number is accurate up to
  10,000 only.
\<close>

definition response :: "pydict list \<Rightarrow> nat \<Rightarrow> pyval" where
  "response sources n = PDict [(''hits'', PDict [(''hits'', PList (map (\<lambda>src. PDict [(''_source'', PDict src)]) sources)),
     (''total'', PDict [(''value'', PInt (int n))])])]"

definition counted :: "bool \<Rightarrow> nat \<Rightarrow> nat" where
  "counted track_total_hits n = (if track_total_hits then n else min n 10000)"

definition query_contract :: "'e es_driver \<Rightarrow> 'e es_view \<Rightarrow> leaf_semantics \<Rightarrow> bool" where
  "query_contract E S leaf \<longleftrightarrow> (\<forall>index q size off excl track w resp w'. es_query E index q size off excl track w = (Inr resp, w') \<longrightarrow>
     (\<exists>ids. distinct ids \<and> set ids = {i. \<exists>src. S w index i = Some src \<and> query_matches leaf q src} \<and>
       resp = response (map (\<lambda>i. without excl (the (S w index i))) (take size (drop off ids))) (counted track (length ids))))"

definition es_kept :: "'e es_view \<Rightarrow> ('e, 'a) io \<Rightarrow> bool" where
  "es_kept W f \<longleftrightarrow> (\<forall>w r w'. f w = (r, w') \<longrightarrow> W w' = W w \<and> (\<forall>e. r = Inl e \<longrightarrow> is_Exception e))"

definition es_contract :: "'e es_driver \<Rightarrow> 'e es_view \<Rightarrow> bool" where
  "es_contract E W \<longleftrightarrow> bulk_contract E W \<and>
     (\<forall>ix. es_kept W (es_index_exists E ix)) \<and> (\<forall>ix m. es_kept W (es_index_create E ix m)) \<and> es_kept W (es_alive E) \<and>
     (\<forall>ix q n off xs t. es_kept W (es_query E ix q n off xs t))"

text \<open>The assumption that no document is rejected by the index.\<close>

definition no_item_errors :: "'e es_driver \<Rightarrow> bool" where
  "no_item_errors E \<longleftrightarrow> (\<forall>index acts w n errors w'.
     es_bulk E (map (\<lambda>(i, src). es_action index i src) acts) w = (Inr (n, errors), w') \<longrightarrow> errors = [])"

section \<open>State and connection\<close>

record 'e es_store =
  es_url :: string
  es_index :: string
  es_client :: "'e option"
  es_mapping_ready :: bool

definition new_es_store :: "string \<Rightarrow> string \<Rightarrow> 'e es_store" where
  "new_es_store url index = \<lparr>es_url = url, es_index = index, es_client = None, es_mapping_ready = False\<rparr>"

text \<open>A call on \<open>self._client\<close>; before \<open>connect()\<close> the attribute access on \<open>None\<close> raises.\<close>

definition on_es :: "('e, 'a) io \<Rightarrow> ('e es_store, 'a) io" where
  "on_es f x = (case es_client x of None \<Rightarrow> (Inl AttributeErr, x)
     | Some w \<Rightarrow> (case f w of (r, w') \<Rightarrow> (r, x\<lparr>es_client := Some w'\<rparr>)))"

definition es_connect :: "'e es_driver \<Rightarrow> ('e es_store, unit) io" where
  "es_connect E x = io_bind (on_es (es_info E)) (\<lambda>_. io_return ()) (x\<lparr>es_client := Some (es_new E (es_url x))\<rparr>)"

definition es_close :: "'e es_driver \<Rightarrow> ('e es_store, unit) io" where
  "es_close E x = (if es_client x = None then (Inr (), x) else on_es (es_aclose E) x)"

definition es_ping :: "'e es_driver \<Rightarrow> ('e es_store, bool) io" where
  "es_ping E = io_catch (on_es (es_alive E)) is_Exception (\<lambda>_. io_return False)"

definition MAPPING :: pydict where
  "MAPPING = (let keyword = PDict [(''type'', PStr ''keyword'')]; date = PDict [(''type'', PStr ''date'')] in
     [(''mappings'', PDict [(''properties'', PDict
        [(''event_id'', keyword), (''event_type'', keyword), (''user_id'', keyword),
         (''schema_version'', PDict [(''type'', PStr ''integer'')]), (''timestamp'', date), (''received_at'', date),
         (''source_url'', PDict [(''type'', PStr ''keyword''), (''fields'', PDict [(''text'', PDict [(''type'', PStr ''text'')])])]),
         (''metadata'', PDict [(''type'', PStr ''flattened'')]), (''metadata_text'', PDict [(''type'', PStr ''text'')])])])])"

definition set_ready :: "('e es_store, unit) io" where
  "set_ready x = (Inr (), x\<lparr>es_mapping_ready := True\<rparr>)"

definition ensure_mapping :: "'e es_driver \<Rightarrow> ('e es_store, unit) io" where
  "ensure_mapping E x =
     io_bind (on_es (es_index_exists E (es_index x))) (\<lambda>found.
       if found then set_ready
       else io_bind (on_es (es_index_create E (es_index x) MAPPING)) (\<lambda>_. set_ready)) x"

section \<open>The text mirror of metadata\<close>

text \<open>\<open>" ".join(parts)\<close>.\<close>

fun join :: "string \<Rightarrow> string list \<Rightarrow> string" where
  "join sep [] = []"
| "join sep [s] = s"
| "join sep (s # ss) = s @ sep @ join sep ss"

text \<open>\<open>_walk\<close>, which appends to \<open>parts\<close>.\<close>

fun walk :: "pyval \<Rightarrow> string list \<Rightarrow> string list"
  and walk_values :: "(string \<times> pyval) list \<Rightarrow> string list \<Rightarrow> string list"
  and walk_items :: "pyval list \<Rightarrow> string list \<Rightarrow> string list" where
  "walk (PDict d) parts = walk_values d parts"
| "walk (PList vs) parts = walk_items vs parts"
| "walk PNone parts = parts"
| "walk v parts = parts @ [py_str v]"
| "walk_values [] parts = parts"
| "walk_values ((k, v) # d) parts = walk_values d (walk v parts)"
| "walk_items [] parts = parts"
| "walk_items (v # vs) parts = walk_items vs (walk v parts)"

definition metadata_text :: "pydict \<Rightarrow> string" where
  "metadata_text md = join '' '' (walk (PDict md) [])"

section \<open>Indexing\<close>

definition index_action :: "(event_document \<Rightarrow> pydict) \<Rightarrow> string \<Rightarrow> event_document \<Rightarrow> pydict" where
  "index_action dump_json index e =
     es_action index (event_id e) (dict_set ''metadata_text'' (PStr (metadata_text (metadata e))) (dump_json e))"

definition bulk_index :: "'e es_driver \<Rightarrow> (event_document \<Rightarrow> pydict) \<Rightarrow> event_document list \<Rightarrow> ('e es_store, unit) io" where
  "bulk_index E dump_json events x =
     (if events = [] then (Inr (), x)
      else io_bind (if es_mapping_ready x then io_return () else ensure_mapping E) (\<lambda>_.
        io_bind (on_es (es_bulk E (map (index_action dump_json (es_index x)) events))) (\<lambda>_. io_return ())) x)"

section \<open>Searching\<close>

definition opt_clause :: "string option \<Rightarrow> (string \<Rightarrow> pyval) \<Rightarrow> pyval list" where
  "opt_clause v clause = (case v of None \<Rightarrow> [] | Some s \<Rightarrow> if s = [] then [] else [clause s])"

definition timestamp_range :: "datetime option \<Rightarrow> datetime option \<Rightarrow> pydict option" where
  "timestamp_range from_ts to_ts =
     (let rng = (case from_ts of None \<Rightarrow> [] | Some f \<Rightarrow> [(''gte'', PStr (isoformat f))]) @
              (case to_ts of None \<Rightarrow> [] | Some t \<Rightarrow> [(''lte'', PStr (isoformat t))])
      in if rng = [] then None else Some rng)"

definition multi_match :: "string \<Rightarrow> pyval" where
  "multi_match q = PDict [(''multi_match'', PDict [(''query'', PStr q),
     (''fields'', PList [PStr ''event_type'', PStr ''source_url.text'', PStr ''metadata_text''])])]"

definition term_clause :: "string \<Rightarrow> string \<Rightarrow> pyval" where
  "term_clause field v = PDict [(''term'', PDict [(field, PStr v)])]"

definition search_query ::
  "string option \<Rightarrow> string option \<Rightarrow> string option \<Rightarrow> string option \<Rightarrow> datetime option \<Rightarrow> datetime option \<Rightarrow> pyval" where
  "search_query q et uid url from_ts to_ts =
     (let must = opt_clause q multi_match;
          filters = opt_clause et (term_clause ''event_type'') @ opt_clause uid (term_clause ''user_id'') @
            opt_clause url (term_clause ''source_url'') @
            (case timestamp_range from_ts to_ts of None \<Rightarrow> []
             | Some r \<Rightarrow> [PDict [(''range'', PDict [(''timestamp'', PDict r)])]]);
          bool_query = (if must = [] then [] else [(''must'', PList must)]) @
            (if filters = [] then [] else [(''filter'', PList filters)])
      in if bool_query = [] then PDict [(''match_all'', PDict [])] else PDict [(''bool'', PDict bool_query)])"

text \<open>\<open>d[k]\<close> on a value that should be a dict.\<close>

fun getitem :: "string \<Rightarrow> pyval \<Rightarrow> exn + pyval" where
  "getitem k (PDict d) = (case dict_get d k of None \<Rightarrow> Inl (KeyErr k) | Some v \<Rightarrow> Inr v)"
| "getitem k _ = Inl (KeyErr k)"

fun sources_of :: "pyval list \<Rightarrow> exn + pyval list" where
  "sources_of [] = Inr []"
| "sources_of (h # hs) = (case getitem ''_source'' h of Inl e \<Rightarrow> Inl e
     | Inr v \<Rightarrow> (case sources_of hs of Inl e \<Rightarrow> Inl e | Inr vs \<Rightarrow> Inr (v # vs)))"

definition read_response :: "pyval \<Rightarrow> exn + (pyval list \<times> pyval)" where
  "read_response resp = (case getitem ''hits'' resp of Inl e \<Rightarrow> Inl e | Inr outer \<Rightarrow>
     (case getitem ''hits'' outer of Inl e \<Rightarrow> Inl e | Inr inner \<Rightarrow>
     (case sources_of (case inner of PList hs \<Rightarrow> hs | _ \<Rightarrow> []) of Inl e \<Rightarrow> Inl e | Inr hits \<Rightarrow>
     (case getitem ''total'' outer of Inl e \<Rightarrow> Inl e | Inr tot \<Rightarrow>
     (case getitem ''value'' tot of Inl e \<Rightarrow> Inl e | Inr n \<Rightarrow> Inr (hits, n))))))"

definition search ::
  "'e es_driver \<Rightarrow> string option \<Rightarrow> string option \<Rightarrow> string option \<Rightarrow> string option \<Rightarrow> datetime option \<Rightarrow> datetime option \<Rightarrow>
   nat \<Rightarrow> nat \<Rightarrow> ('e es_store, pyval list \<times> pyval) io" where
  "search E q et uid url from_ts to_ts hits_max offset x =
     io_bind (on_es (es_query E (es_index x) (search_query q et uid url from_ts to_ts) hits_max offset [''metadata_text''] True))
       (\<lambda>resp. case read_response resp of Inl e \<Rightarrow> io_raise e | Inr v \<Rightarrow> io_return v) x"

section \<open>Lemmas: the text mirror\<close>

text \<open>The reference for \<open>_walk\<close>: the scalar leaves of a value, in order.\<close>

fun leaves :: "pyval \<Rightarrow> pyval list" where
  "leaves (PDict d) = concat (map (\<lambda>kv. leaves (snd kv)) d)"
| "leaves (PList vs) = concat (map leaves vs)"
| "leaves PNone = []"
| "leaves v = [v]"

lemma walk_leaves:
  "walk v parts = parts @ map py_str (leaves v)"
  "walk_values d parts = parts @ map py_str (leaves (PDict d))"
  "walk_items vs parts = parts @ map py_str (leaves (PList vs))"
  by (induction v parts and d parts and vs parts rule: walk_walk_values_walk_items.induct) auto

lemma join_Cons: "join sep (s # ss) = s @ (if ss = [] then [] else sep @ join sep ss)"
  by (cases ss) simp_all

lemma join_sublist: "s \<in> set ss \<Longrightarrow> sublist s (join sep ss)"
proof (induction ss)
  case (Cons t ss)
  show ?case
  proof (cases "s = t")
    case True
    then have "join sep (t # ss) = [] @ s @ (if ss = [] then [] else sep @ join sep ss)" by (simp add: join_Cons)
    then show ?thesis unfolding sublist_def by blast
  next
    case False
    with Cons have ne: "ss \<noteq> []" and "sublist s (join sep ss)" by auto
    then obtain a b where "join sep ss = a @ s @ b" by (auto simp: sublist_def)
    with ne have "join sep (t # ss) = (t @ sep @ a) @ s @ b" by (simp add: join_Cons)
    then show ?thesis unfolding sublist_def by blast
  qed
qed simp

text \<open>
  C35: the text mirror. \<open>_metadata_text\<close> is the reference: the string forms of the non-null scalar leaves of
  the metadata, in document order, joined by blanks. Every such leaf, however deeply nested, therefore
  occurs in the text that full-text search reads.
\<close>

theorem metadata_text_leaves:
  "metadata_text md = join '' '' (map py_str (leaves (PDict md))) \<and>
    (\<forall>v \<in> set (leaves (PDict md)). sublist (py_str v) (metadata_text md))"
  using join_sublist [of _ "map py_str (leaves (PDict md))" "'' ''"]
  by (simp only: metadata_text_def walk_leaves append_Nil set_map) blast

theorem metadata_text_leaves_witness:
  "metadata_text [(''a'', PDict [(''b'', PList [PStr ''y'', PNone, PStr ''x''])]), (''c'', PBool True)] = ''y x True'' \<and>
   sublist ''x'' (metadata_text [(''a'', PDict [(''b'', PList [PStr ''y'', PNone, PStr ''x''])]), (''c'', PBool True)])"
proof
  let ?md = "[(''a'', PDict [(''b'', PList [PStr ''y'', PNone, PStr ''x''])]), (''c'', PBool True)]"
  note spec = metadata_text_leaves [of ?md]
  show "metadata_text ?md = ''y x True''" using spec [THEN conjunct1] by simp
  show "sublist ''x'' (metadata_text ?md)" using spec [THEN conjunct2, rule_format, of "PStr ''x''"] by simp
qed

section \<open>Lemmas: searching\<close>

lemma clauses_Nil [simp]: "clauses k [] = []"
  by (simp add: clauses_def)

lemma query_matches_search:
  "query_matches leaf (search_query q et uid url from_ts to_ts) src \<longleftrightarrow>
    list_all (leaf_matches leaf src) (opt_clause q multi_match) \<and>
    list_all (leaf_matches leaf src) (opt_clause et (term_clause ''event_type'')) \<and>
    list_all (leaf_matches leaf src) (opt_clause uid (term_clause ''user_id'')) \<and>
    list_all (leaf_matches leaf src) (opt_clause url (term_clause ''source_url'')) \<and>
    (case timestamp_range from_ts to_ts of None \<Rightarrow> True | Some r \<Rightarrow> leaf ''range'' [(''timestamp'', PDict r)] src)"
  by (auto simp: search_query_def Let_def clauses_def split: option.split)

text \<open>What a search asks for, clause by clause; absent and empty arguments ask for nothing.\<close>

definition search_selects ::
  "leaf_semantics \<Rightarrow> string option \<Rightarrow> string option \<Rightarrow> string option \<Rightarrow> string option \<Rightarrow> datetime option \<Rightarrow> datetime option \<Rightarrow>
   pydict \<Rightarrow> bool" where
  "search_selects leaf q et uid url from_ts to_ts src \<longleftrightarrow>
     (\<forall>s. q = Some s \<and> s \<noteq> [] \<longrightarrow> leaf ''multi_match'' [(''query'', PStr s),
        (''fields'', PList [PStr ''event_type'', PStr ''source_url.text'', PStr ''metadata_text''])] src) \<and>
     (\<forall>s. et = Some s \<and> s \<noteq> [] \<longrightarrow> leaf ''term'' [(''event_type'', PStr s)] src) \<and>
     (\<forall>s. uid = Some s \<and> s \<noteq> [] \<longrightarrow> leaf ''term'' [(''user_id'', PStr s)] src) \<and>
     (\<forall>s. url = Some s \<and> s \<noteq> [] \<longrightarrow> leaf ''term'' [(''source_url'', PStr s)] src) \<and>
     (\<forall>r. timestamp_range from_ts to_ts = Some r \<longrightarrow> leaf ''range'' [(''timestamp'', PDict r)] src)"

lemma opt_clause_matches:
  "list_all (leaf_matches leaf src) (opt_clause v cl) \<longleftrightarrow> (\<forall>s. v = Some s \<and> s \<noteq> [] \<longrightarrow> leaf_matches leaf src (cl s))"
  by (cases v) (simp_all add: opt_clause_def)

lemma query_matches_selects:
  "query_matches leaf (search_query q et uid url from_ts to_ts) src = search_selects leaf q et uid url from_ts to_ts src"
  by (simp add: query_matches_search search_selects_def opt_clause_matches multi_match_def term_clause_def split: option.split)

lemma sources_of_response: "sources_of (map (\<lambda>src. PDict [(''_source'', PDict src)]) srcs) = Inr (map PDict srcs)"
  by (induction srcs) simp_all

lemma read_response_response: "read_response (response srcs n) = Inr (map PDict srcs, PInt (int n))"
  by (simp add: read_response_def response_def sources_of_response)

end
