(* ===== verification/Es_Memory.thy ===== *)
theory Es_Memory
  imports Es_Store
begin

text \<open>
  An in-memory Elasticsearch: documents by id per index, a schedule of transport failures, and a predicate
  for the documents the index rejects. A search answers from the
  documents that were there at the last refresh, and each search refreshes the index afterwards. It
  satisfies \<open>es_contract\<close> and \<open>query_contract\<close>, so they can be met, and the concrete runs use it.
\<close>

record esm =
  em_docs :: "string \<Rightarrow> (string \<times> pydict) list"
  em_visible :: "string \<Rightarrow> (string \<times> pydict) list"
  em_faults :: "bool list"

definition esm_new :: "bool list \<Rightarrow> esm" where
  "esm_new fs = \<lparr>em_docs = (\<lambda>_. []), em_visible = (\<lambda>_. []), em_faults = fs\<rparr>"

definition esm_view :: "esm es_view" where
  "esm_view w ix i = map_of (em_docs w ix) i"

definition esm_searchable :: "esm es_view" where
  "esm_searchable w ix i = map_of (em_visible w ix) i"

definition esm_call :: "(esm, 'a) io \<Rightarrow> (esm, 'a) io" where
  "esm_call f w = (let w1 = w\<lparr>em_faults := tl (em_faults w)\<rparr> in
     if em_faults w \<noteq> [] \<and> hd (em_faults w) then (Inl (TransportErr ''down''), w1) else f w1)"

text \<open>One action; anything that is not an index action of the expected shape is rejected.\<close>

fun esm_put :: "(string \<Rightarrow> bool) \<Rightarrow> pydict \<Rightarrow> (string \<Rightarrow> (string \<times> pydict) list) \<Rightarrow> (string \<Rightarrow> (string \<times> pydict) list) option" where
  "esm_put rejects [(_, PStr ix), (_, PStr i), (_, PDict src)] ds =
     (if rejects i then None else Some (ds(ix := AList.update i src (ds ix))))"
| "esm_put rejects _ ds = None"

fun esm_bulk :: "(string \<Rightarrow> bool) \<Rightarrow> pydict list \<Rightarrow> (string \<Rightarrow> (string \<times> pydict) list) \<Rightarrow>
    (string \<Rightarrow> (string \<times> pydict) list) \<times> nat \<times> pyval list" where
  "esm_bulk rejects [] ds = (ds, 0, [])"
| "esm_bulk rejects (a # as) ds = (case esm_put rejects a ds of
       None \<Rightarrow> (case esm_bulk rejects as ds of (ds', n, errs) \<Rightarrow> (ds', n, PDict a # errs))
     | Some ds1 \<Rightarrow> (case esm_bulk rejects as ds1 of (ds', n, errs) \<Rightarrow> (ds', Suc n, errs)))"

definition esm_hits :: "leaf_semantics \<Rightarrow> pyval \<Rightarrow> (string \<times> pydict) list \<Rightarrow> string list" where
  "esm_hits leaf q docs = filter (\<lambda>i. query_matches leaf q (the (map_of docs i))) (remdups (map fst docs))"

definition esm_driver :: "(string \<Rightarrow> bool) \<Rightarrow> leaf_semantics \<Rightarrow> esm es_driver" where
  "esm_driver rejects leaf = \<lparr>es_new = (\<lambda>_. esm_new []), es_info = esm_call (\<lambda>w. (Inr ''8.0'', w)), es_aclose = (\<lambda>w. (Inr (), w)),
     es_alive = esm_call (\<lambda>w. (Inr True, w)), es_index_exists = (\<lambda>ix. esm_call (\<lambda>w. (Inr False, w))),
     es_index_create = (\<lambda>ix m. esm_call (\<lambda>w. (Inr (), w))),
     es_bulk = (\<lambda>acts. esm_call (\<lambda>w. case esm_bulk rejects acts (em_docs w) of (ds, n, errs) \<Rightarrow> (Inr (n, errs), w\<lparr>em_docs := ds\<rparr>))),
     es_query = (\<lambda>ix q n off excl track. esm_call (\<lambda>w. let ids = esm_hits leaf q (em_visible w ix) in
       (Inr (response (map (\<lambda>i. without excl (the (map_of (em_visible w ix) i))) (take n (drop off ids))) (counted track (length ids))),
        w\<lparr>em_visible := em_docs w\<rparr>)))\<rparr>"

section \<open>The contract holds\<close>

lemma esm_call_cases:
  assumes "esm_call f w = (r, w')"
  obtains (down) "r = Inl (TransportErr ''down'')" "em_docs w' = em_docs w"
    | (up) w1 where "em_docs w1 = em_docs w" "em_visible w1 = em_visible w" "f w1 = (r, w')"
proof (cases "em_faults w \<noteq> [] \<and> hd (em_faults w)")
  case True
  with assms show thesis by (intro down) (auto simp: esm_call_def Let_def)
next
  case False
  then have "esm_call f w = f (w\<lparr>em_faults := tl (em_faults w)\<rparr>)" unfolding esm_call_def Let_def by (rule if_not_P)
  with assms show thesis by (intro up [of "w\<lparr>em_faults := tl (em_faults w)\<rparr>"]) simp_all
qed

lemma TransportErr_ordinary [simp]: "is_Exception (TransportErr ''down'')"
  by (simp add: is_Exception_def)

lemma esm_kept:
  assumes "\<And>w r w'. f w = (r, w') \<Longrightarrow> em_docs w' = em_docs w \<and> (\<forall>e. r = Inl e \<longrightarrow> is_Exception e)"
  shows "es_kept esm_view (esm_call f)"
  unfolding es_kept_def
proof (intro allI impI)
  fix w r w'
  assume "esm_call f w = (r, w')"
  then show "esm_view w' = esm_view w \<and> (\<forall>e. r = Inl e \<longrightarrow> is_Exception e)"
    by (cases rule: esm_call_cases) (auto simp: esm_view_def fun_eq_iff TransportErr_ordinary dest: assms)
qed

text \<open>The view of an association list per index.\<close>

definition lookup_docs :: "(string \<Rightarrow> (string \<times> pydict) list) \<Rightarrow> string \<Rightarrow> string \<Rightarrow> pydict option" where
  "lookup_docs ds ix i = map_of (ds ix) i"

lemma lookup_docs_put: "lookup_docs (ds(ix := AList.update i src (ds ix))) = put_doc ix (i, src) (lookup_docs ds)"
  by (auto simp: lookup_docs_def put_doc_def fun_eq_iff update_conv')

lemma esm_bulk_spec:
  "esm_bulk rejects (map (\<lambda>(i, src). es_action ix i src) acts) ds = (ds', n, errs) \<Longrightarrow>
    let sel = {k. k < length acts \<and> \<not> rejects (fst (acts ! k))} in
    lookup_docs ds' = fold (put_doc ix) (nths acts sel) (lookup_docs ds) \<and> n = card sel \<and> length errs = length acts - card sel"
proof (induction acts arbitrary: ds ds' n errs)
  case (Cons a acts)
  obtain i src where a: "a = (i, src)" by force
  let ?sel = "\<lambda>as. {k. k < length as \<and> \<not> rejects (fst (as ! k))}"
  have sel: "?sel (a # acts) = (if rejects i then {} else {0}) \<union> Suc ` ?sel acts"
    by (auto simp: a image_iff less_Suc_eq_0_disj)
  have card: "card (?sel (a # acts)) = (if rejects i then 0 else 1) + card (?sel acts)"
    unfolding sel by (subst card_Un_disjoint) (auto simp: card_image)
  have le: "card (?sel acts) \<le> length acts"
    using card_mono [of "{..<length acts}" "?sel acts"] by auto
  have nth: "nths (a # acts) (?sel (a # acts)) = (if rejects i then [] else [a]) @ nths acts (?sel acts)"
    by (auto simp: nths_Cons a intro: arg_cong [where f = "nths acts"])
  show ?case
  proof (cases "rejects i")
    case True
    then obtain errs0 where r: "esm_bulk rejects (map (\<lambda>(i, src). es_action ix i src) acts) ds = (ds', n, errs0)" "length errs = Suc (length errs0)"
      using Cons.prems by (auto simp: a es_action_def split: prod.splits)
    from Cons.IH [OF r(1)] r(2) True card nth le show ?thesis by (simp add: Let_def Suc_diff_le)
  next
    case False
    let ?ds = "ds(ix := AList.update i src (ds ix))"
    from False obtain n0 where r: "esm_bulk rejects (map (\<lambda>(i, src). es_action ix i src) acts) ?ds = (ds', n0, errs)" "n = Suc n0"
      using Cons.prems by (auto simp: a es_action_def split: prod.splits)
    from Cons.IH [OF r(1)] r(2) False card nth show ?thesis
      by (simp only: Let_def lookup_docs_put a) simp
  qed
qed (simp add: Let_def)

lemma esm_bulk_contract: "bulk_contract (esm_driver rejects leaf) esm_view"
  unfolding bulk_contract_def
proof (intro allI impI)
  fix ix acts w r w'
  assume "es_bulk (esm_driver rejects leaf) (map (\<lambda>(i, src). es_action ix i src) acts) w = (r, w')"
  then have run: "esm_call (\<lambda>w. case esm_bulk rejects (map (\<lambda>(i, src). es_action ix i src) acts) (em_docs w) of
      (ds, n, errs) \<Rightarrow> (Inr (n, errs), w\<lparr>em_docs := ds\<rparr>)) w = (r, w')" by (simp add: esm_driver_def)
  have view: "esm_view v = lookup_docs (em_docs v)" for v by (simp add: esm_view_def lookup_docs_def fun_eq_iff)
  show "\<exists>sel. sel \<subseteq> {..<length acts} \<and> esm_view w' = fold (put_doc ix) (nths acts sel) (esm_view w) \<and>
       (\<forall>n errors. r = Inr (n, errors) \<longrightarrow> n = card sel \<and> length errors = length acts - card sel) \<and>
       (\<forall>e. r = Inl e \<longrightarrow> is_Exception e)"
    using run
  proof (cases rule: esm_call_cases)
    case down
    then show ?thesis by (intro exI [of _ "{}"]) (simp add: view TransportErr_ordinary)
  next
    case (up w1)
    obtain ds n errs where b: "esm_bulk rejects (map (\<lambda>(i, src). es_action ix i src) acts) (em_docs w) = (ds, n, errs)"
      by (metis prod.exhaust)
    with up have "r = Inr (n, errs)" "em_docs w' = ds" by auto
    with esm_bulk_spec [OF b] show ?thesis
      by (intro exI [of _ "{k. k < length acts \<and> \<not> rejects (fst (acts ! k))}"]) (auto simp: view Let_def)
  qed
qed

lemma esm_query_contract: "query_contract (esm_driver rejects leaf) esm_searchable leaf"
  unfolding query_contract_def
proof (intro allI impI)
  fix ix q n off excl track and w :: esm and resp w'
  let ?ids = "esm_hits leaf q (em_visible w ix)"
  assume "es_query (esm_driver rejects leaf) ix q n off excl track w = (Inr resp, w')"
  then have "esm_call (\<lambda>w. let ids = esm_hits leaf q (em_visible w ix) in
       (Inr (response (map (\<lambda>i. without excl (the (map_of (em_visible w ix) i))) (take n (drop off ids))) (counted track (length ids))),
        w\<lparr>em_visible := em_docs w\<rparr>)) w = (Inr resp, w')"
    by (simp add: esm_driver_def)
  then have "resp = response (map (\<lambda>i. without excl (the (map_of (em_visible w ix) i))) (take n (drop off ?ids))) (counted track (length ?ids))"
    by (cases rule: esm_call_cases) (auto simp: Let_def)
  moreover have "distinct ?ids" by (simp add: esm_hits_def)
  moreover have "set ?ids = {i. \<exists>src. esm_searchable w ix i = Some src \<and> query_matches leaf q src}"
    by (auto simp: esm_hits_def esm_searchable_def dom_map_of_conv_image_fst [symmetric] dom_def)
  ultimately show "\<exists>ids. distinct ids \<and> set ids = {i. \<exists>src. esm_searchable w ix i = Some src \<and> query_matches leaf q src} \<and>
       resp = response (map (\<lambda>i. without excl (the (esm_searchable w ix i))) (take n (drop off ids))) (counted track (length ids))"
    by (intro exI [of _ ?ids]) (simp add: esm_searchable_def)
qed

lemma esm_contract: "es_contract (esm_driver rejects leaf) esm_view"
  unfolding es_contract_def
  by (intro conjI esm_bulk_contract allI) (auto simp: esm_driver_def Let_def intro!: esm_kept)

lemma esm_no_item_errors: "no_item_errors (esm_driver (\<lambda>_. False) leaf)"
  unfolding no_item_errors_def
proof (intro allI impI)
  fix ix acts w n errors w'
  assume "es_bulk (esm_driver (\<lambda>_. False) leaf) (map (\<lambda>(i, src). es_action ix i src) acts) w = (Inr (n, errors), w')"
  then have "esm_call (\<lambda>w. case esm_bulk (\<lambda>_. False) (map (\<lambda>(i, src). es_action ix i src) acts) (em_docs w) of
      (ds, n, errs) \<Rightarrow> (Inr (n, errs), w\<lparr>em_docs := ds\<rparr>)) w = (Inr (n, errors), w')" by (simp add: esm_driver_def)
  then show "errors = []"
  proof (cases rule: esm_call_cases)
    case (up w1)
    obtain ds m errs where b: "esm_bulk (\<lambda>_. False) (map (\<lambda>(i, src). es_action ix i src) acts) (em_docs w) = (ds, m, errs)"
      by (metis prod.exhaust)
    have all: "{k. k < length acts} = {..<length acts}" by auto
    from esm_bulk_spec [OF b] have "length errs = 0" by (simp add: Let_def all)
    with up b show ?thesis by simp
  qed simp
qed

section \<open>Searching\<close>

lemma on_es_cases:
  assumes "on_es f x = (r, x')"
  obtains (unconnected) "es_client x = None" "r = Inl AttributeErr" "x' = x"
    | (call) w w' where "es_client x = Some w" "f w = (r, w')" "x' = x\<lparr>es_client := Some w'\<rparr>"
  using assms by (auto simp: on_es_def split: option.splits prod.splits)

text \<open>
  C21: what \<open>search\<close> answers. There is a ranking of exactly the searchable documents that satisfy every given
  argument (the free text, each non-empty filter and the time range; no argument at all selects every
  document), such that the hits are the window \<open>[offset, offset + size)\<close> of it without the derived
  \<open>metadata_text\<close> field and the total is its full length: because the call asks for \<open>track_total_hits\<close>, it is
  not capped at 10,000. The stored documents do not change. The searchable documents \<open>S\<close> are those of the
  last refresh of the index; what was indexed after it is not found yet.
\<close>

theorem search_answers:
  assumes "es_contract E W" and "query_contract E S leaf" and "es_client x = Some w"
    and "search E q et uid url from_ts to_ts n offset x = (Inr (hits, tot), x')"
  shows "\<exists>ids w'. distinct ids \<and>
    set ids = {i. \<exists>src. S w (es_index x) i = Some src \<and> search_selects leaf q et uid url from_ts to_ts src} \<and>
    hits = map (\<lambda>i. PDict (without [''metadata_text''] (the (S w (es_index x) i)))) (take n (drop offset ids)) \<and>
    tot = PInt (int (length ids)) \<and> x' = x\<lparr>es_client := Some w'\<rparr> \<and> W w' = W w"
proof -
  let ?call = "es_query E (es_index x) (search_query q et uid url from_ts to_ts) n offset [''metadata_text''] True"
  from assms(4) obtain resp x1 where q: "on_es ?call x = (Inr resp, x1)"
    and rd: "(case read_response resp of Inl e \<Rightarrow> io_raise e | Inr v \<Rightarrow> io_return v) x1 = (Inr (hits, tot), x')"
    unfolding search_def by (auto elim: io_bind_cases)
  from q assms(3) obtain w' where call: "?call w = (Inr resp, w')" "x1 = x\<lparr>es_client := Some w'\<rparr>"
    by (auto elim: on_es_cases)
  from assms(1) have "es_kept W ?call" by (simp add: es_contract_def)
  with call(1) have kept: "W w' = W w" by (simp add: es_kept_def)
  from assms(2) [unfolded query_contract_def, rule_format, OF call(1)]
  obtain ids where ids: "distinct ids"
    "set ids = {i. \<exists>src. S w (es_index x) i = Some src \<and> query_matches leaf (search_query q et uid url from_ts to_ts) src}"
    "resp = response (map (\<lambda>i. without [''metadata_text''] (the (S w (es_index x) i))) (take n (drop offset ids))) (counted True (length ids))"
    by (elim exE conjE)
  from rd have "hits = map (\<lambda>i. PDict (without [''metadata_text''] (the (S w (es_index x) i)))) (take n (drop offset ids))"
    "tot = PInt (int (length ids))" "x' = x1"
    by (auto simp: ids(3) read_response_response comp_def counted_def)
  with ids(1,2) call(2) kept show ?thesis
    by (intro exI [of _ ids] exI [of _ w']) (simp add: query_matches_selects)
qed

definition sample_index :: "esm es_store" where
  "sample_index = (let ds = (\<lambda>_. []) (''events'' := [(''a'', [(''event_id'', PStr ''a''), (''metadata_text'', PStr ''x'')])]) in
     \<lparr>es_url = ''http://es'', es_index = ''events'', es_client = Some ((esm_new [])\<lparr>em_docs := ds, em_visible := ds\<rparr>),
      es_mapping_ready = True\<rparr>)"

definition any_leaf :: leaf_semantics where
  "any_leaf kind args src = True"

lemma sample_search:
  "search (esm_driver (\<lambda>_. False) any_leaf) (Some ''x'') None None None None None 10 0 sample_index =
    (Inr ([PDict [(''event_id'', PStr ''a'')]], PInt 1), sample_index)"
proof -
  have "query_matches any_leaf (search_query (Some ''x'') None None None None None) src" for src
    by (simp add: query_matches_selects search_selects_def any_leaf_def timestamp_range_def)
  then show ?thesis
    by (simp add: search_def io_bind_def on_es_def sample_index_def esm_driver_def esm_call_def esm_new_def esm_hits_def Let_def
        read_response_response without_def counted_def)
qed

theorem search_answers_witness:
  "\<exists>ids. distinct ids \<and> [PDict [(''event_id'', PStr ''a'')]] =
     map (\<lambda>i. PDict (without [''metadata_text''] (the (esm_searchable (the (es_client sample_index)) ''events'' i)))) (take 10 (drop 0 ids)) \<and>
     PInt 1 = PInt (int (length ids))"
proof -
  have client: "es_client sample_index = Some (the (es_client sample_index))" "es_index sample_index = ''events''"
    by (simp_all add: sample_index_def Let_def)
  from search_answers [OF esm_contract esm_query_contract client(1) sample_search] show ?thesis unfolding client(2)
    by (elim exE conjE, intro exI conjI)
qed

end
