(* ===== verification/Routes.thy ===== *)
theory Routes
  imports Redis_Cache Schemas Ingestion Mongo_Stats Es_Memory Dead_Letter_Queue
begin

text \<open>
  \<open>app/api/routes_events.py\<close>: the handlers of \<open>/events\<close>. A handler runs on the components it is given; an
  \<open>HTTPException\<close> is the error \<open>HTTPExc status detail\<close>, any other error is a 500. Query parameters arrive
  validated (bounds, pattern and types are FastAPI's).
\<close>

section \<open>Dependencies\<close>

definition enforce_rate_limit :: "'r redis_driver \<Rightarrow> settings \<Rightarrow> int \<Rightarrow> string option \<Rightarrow> ('r redis_cache, unit) io" where
  "enforce_rate_limit R cfg now client =
     (if rate_limit_per_minute cfg \<le> 0 then io_return ()
      else let client_ip = (case client of Some host \<Rightarrow> host | None \<Rightarrow> ''unknown'') in
        io_bind (check_rate_limit R now client_ip (rate_limit_per_minute cfg) 60) (\<lambda>allowed.
          if allowed then io_return () else io_raise (HTTPExc 429 ''Rate limit exceeded; slow down'')))"

text \<open>
  \<open>event.model_dump(mode="json", exclude_unset=True)\<close>: the fields that the request body set, in the order of
  the model. \<open>fields_set\<close> is pydantic's \<open>model_fields_set\<close>, which the field values alone do not determine (an
  omitted field and an explicit default are told apart), and \<open>json_form\<close> its JSON form of a value.
\<close>

definition dump_set :: "(pyval \<Rightarrow> pyval) \<Rightarrow> string list \<Rightarrow> event_create \<Rightarrow> pydict" where
  "dump_set json_form fields_set event =
     map (\<lambda>(k, v). (k, json_form v)) (filter (\<lambda>(k, v). k \<in> set fields_set) (dump_create event))"

definition idempotency_fingerprint :: "(pyval \<Rightarrow> pyval) \<Rightarrow> string list \<Rightarrow> event_create \<Rightarrow> string" where
  "idempotency_fingerprint json_form fields_set event =
     (let payload = dump_set json_form fields_set event; canonical = canonical_json (PDict payload) in sha256_hexdigest (utf8 canonical))"

section \<open>Handlers\<close>

abbreviation store_unavailable :: exn where
  "store_unavailable \<equiv> HTTPExc 503 ''Event store temporarily unavailable''"

text \<open>\<open>Model(**value)\<close> at the end of a handler.\<close>

definition io_of :: "exn + 'a \<Rightarrow> ('s, 'a) io" where
  "io_of r = (case r of Inl e \<Rightarrow> io_raise e | Inr x \<Rightarrow> io_return x)"

definition get_realtime_stats ::
  "'r redis_driver \<Rightarrow> 'm mongo_driver \<Rightarrow> models \<Rightarrow> settings \<Rightarrow> datetime \<Rightarrow>
   ('r redis_cache \<times> 'm mongo_store, realtime_stats_response) io" where
  "get_realtime_stats R D M cfg now =
     (let compute = io_bind (aggregate_recent_counts D now (realtime_window_seconds cfg)) (\<lambda>d. io_return (PDict d)) in
      io_bind
        (io_catch (get_or_set R ''events:stats:realtime'' (realtime_cache_ttl_seconds cfg) compute)
          is_PyMongoError (\<lambda>_. io_raise store_unavailable))
        (\<lambda>(data, hit). io_bind (io_of (mo_realtime M data)) (\<lambda>summary.
           io_return \<lparr>rr_data = summary, rr_cached = hit\<rparr>)))"

definition rollup_response :: "models \<Rightarrow> pydict \<Rightarrow> exn + stats_response" where
  "rollup_response M d =
     (if dict_get d ''counts'' = None then Inl (KeyErr ''counts'')
      else if dict_get d ''total'' = None then Inl (KeyErr ''total'')
      else if dict_get d ''computed_at'' = None then Inl (KeyErr ''computed_at'')
      else case mo_rollup M d of Inl e \<Rightarrow> Inl e
        | Inr (rows, n, stamp) \<Rightarrow> Inr \<lparr>st_data = rows, st_total = n, st_interval = None, st_source = ''rollup'', st_computed_at = stamp\<rparr>)"

definition live_response :: "models \<Rightarrow> string option \<Rightarrow> pydict list \<Rightarrow> exn + stats_response" where
  "live_response M interval rows = (case sum_counts rows of Inl e \<Rightarrow> Inl e
     | Inr n \<Rightarrow> (case map_all (mo_stat_count M) rows of Inl e \<Rightarrow> Inl e
        | Inr data \<Rightarrow> Inr \<lparr>st_data = data, st_total = n, st_interval = interval, st_source = ''live'', st_computed_at = None\<rparr>))"

definition get_stats ::
  "'m mongo_driver \<Rightarrow> models \<Rightarrow> datetime option \<Rightarrow> datetime option \<Rightarrow> string option \<Rightarrow> ('m mongo_store, stats_response) io" where
  "get_stats D M from_ts to_ts interval =
     io_bind
       (io_catch
          (io_bind
             (if from_ts = None \<and> to_ts = None \<and> interval = None then get_event_type_rollup D else io_return None)
             (\<lambda>rollup. case rollup of
                Some d \<Rightarrow> io_return (rollup_response M d)
              | None \<Rightarrow> io_bind (aggregate_counts D from_ts to_ts interval) (\<lambda>data. io_return (live_response M interval data))))
          is_PyMongoError (\<lambda>_. io_raise store_unavailable))
       io_of"

definition search_events ::
  "'e es_driver \<Rightarrow> models \<Rightarrow> string option \<Rightarrow> string option \<Rightarrow> string option \<Rightarrow> string option \<Rightarrow> datetime option \<Rightarrow>
   datetime option \<Rightarrow> nat \<Rightarrow> nat \<Rightarrow> ('e es_store, search_response) io" where
  "search_events E M q et uid url from_ts to_ts page offset =
     io_bind
       (io_catch (search E q et uid url from_ts to_ts page offset) is_Exception
          (\<lambda>_. io_raise (HTTPExc 502 ''Search backend unavailable'')))
       (\<lambda>(hits, n). io_bind (io_of (mo_search M hits n)) (\<lambda>(docs, tot).
          io_return \<lparr>se_hits = docs, se_total = tot, se_query = q, se_size = page, se_offset = offset\<rparr>))"

definition list_dead_letters_route ::
  "'m mongo_driver \<Rightarrow> models \<Rightarrow> nat \<Rightarrow> nat \<Rightarrow> ('m mongo_store, dead_letter_list_response) io" where
  "list_dead_letters_route D M limit offset =
     io_bind
       (io_catch (list_dead_letters D limit offset) is_PyMongoError (\<lambda>_. io_raise store_unavailable))
       (\<lambda>(entries, n). io_bind (io_of (map_all (mo_dead_letter M) entries)) (\<lambda>rows.
          io_return \<lparr>ll_entries = rows, ll_limit = limit, ll_offset = offset, ll_total = n\<rparr>))"

text \<open>The body of \<open>replay_dead_letter\<close>'s \<open>try\<close>; \<open>HTTPException\<close> passes, \<open>PyMongoError\<close> becomes a 503.\<close>

definition entry_event :: "models \<Rightarrow> pydict \<Rightarrow> exn + event_document" where
  "entry_event M entry = (case dict_get entry ''event'' of None \<Rightarrow> Inl (KeyErr ''event'')
     | Some (PDict ev) \<Rightarrow> mo_event M ev | Some _ \<Rightarrow> Inl TypeErr)"

definition redrive :: "'m mongo_driver \<Rightarrow> models \<Rightarrow> string \<Rightarrow> ('m mongo_store, unit) io" where
  "redrive D M eid =
     io_bind (get_dead_letter D eid) (\<lambda>found. case found of
         None \<Rightarrow> io_raise (HTTPExc 404 ''No dead-lettered event with that id'')
       | Some entry \<Rightarrow> io_bind (io_of (entry_event M entry)) (\<lambda>doc.
           io_bind (bulk_write D [doc]) (\<lambda>_.
           io_bind (delete_dead_letter D eid) (\<lambda>_. io_return ()))))"

definition replay_dead_letter :: "'m mongo_driver \<Rightarrow> models \<Rightarrow> string \<Rightarrow> ('m mongo_store, replay_response) io" where
  "replay_dead_letter D M eid =
     io_bind
       (io_catch (redrive D M eid) is_PyMongoError (\<lambda>_. io_raise (HTTPExc 503 ''Event store unavailable; event retained in the DLQ'')))
       (\<lambda>_. io_return \<lparr>rp_event_id = eid, rp_status = ''replayed''\<rparr>)"

definition list_events ::
  "'m mongo_driver \<Rightarrow> models \<Rightarrow> string option \<Rightarrow> string option \<Rightarrow> string option \<Rightarrow> datetime option \<Rightarrow> datetime option \<Rightarrow>
   nat \<Rightarrow> nat \<Rightarrow> bool \<Rightarrow> ('m mongo_store, event_list_response) io" where
  "list_events D M et uid url from_ts to_ts limit offset with_total =
     io_bind
       (io_catch (find_events D et uid url from_ts to_ts limit offset with_total) is_PyMongoError (\<lambda>_. io_raise store_unavailable))
       (\<lambda>(docs, has_more, tot). io_bind (io_of (map_all (mo_event M) docs)) (\<lambda>events.
          io_return \<lparr>el_events = events, el_limit = limit, el_offset = offset, el_has_more = has_more, el_total = tot\<rparr>))"

text \<open>
  \<open>create_event\<close> with its dependency (in the last detail a hyphen stands for the source's dash): the clock reading of the rate limit (\<open>clock\<close>), the client's address,
  the entropy of \<open>uuid4\<close>, the time stamp \<open>now\<close> and the fields the body set are arguments.
\<close>

definition claim_key ::
  "'r redis_driver \<Rightarrow> settings \<Rightarrow> (pyval \<Rightarrow> pyval) \<Rightarrow> string list \<Rightarrow> event_create \<Rightarrow> string option \<Rightarrow> ('r redis_cache, unit) io" where
  "claim_key R cfg json_form fields_set event idempotency_key = (case effective_key idempotency_key of
       None \<Rightarrow> io_return ()
     | Some key \<Rightarrow>
         io_bind (check_idempotency R key (idempotency_fingerprint json_form fields_set event) (idempotency_key_ttl_seconds cfg)) (\<lambda>verdict.
           if verdict = ''conflict''
           then io_raise (HTTPExc 409 ''Idempotency-Key was already used with a different request body'') else io_return ()))"

definition accept_event ::
  "byte list \<Rightarrow> datetime \<Rightarrow> event_create \<Rightarrow> string option \<Rightarrow> (ingestion_service, ingest_response) io" where
  "accept_event entropy now event idempotency_key s = (case ingest entropy now event idempotency_key s of
       (Inr doc, s') \<Rightarrow> (Inr \<lparr>ir_event_id = event_id doc, ir_received_at = received_at doc\<rparr>, s')
     | (Inl IngestionClosed, s') \<Rightarrow> (Inl (HTTPExc 503 ''Service is shutting down; not accepting new events''), s')
     | (Inl QueueFull, s') \<Rightarrow> (Inl (HTTPExc 429 ''Event queue is full - retry after a short backoff''), s')
     | (Inl e, s') \<Rightarrow> (Inl e, s'))"

definition create_event ::
  "'r redis_driver \<Rightarrow> settings \<Rightarrow> (pyval \<Rightarrow> pyval) \<Rightarrow> int \<Rightarrow> string option \<Rightarrow> byte list \<Rightarrow> datetime \<Rightarrow> string list \<Rightarrow> event_create \<Rightarrow>
   string option \<Rightarrow> ('r redis_cache \<times> ingestion_service, ingest_response) io" where
  "create_event R cfg json_form clock client entropy now fields_set event idempotency_key st = (case st of (c, s) \<Rightarrow>
     (case io_bind (enforce_rate_limit R cfg clock client) (\<lambda>_. claim_key R cfg json_form fields_set event idempotency_key) c of
        (Inl e, c') \<Rightarrow> (Inl e, c', s)
      | (Inr _, c') \<Rightarrow> (case accept_event entropy now event idempotency_key s of (r, s') \<Rightarrow> (r, c', s'))))"

section \<open>Lemmas: fingerprints and the Redis helpers\<close>

text \<open>What the fingerprint reads of an event: the fields the client set, and no other.\<close>

lemma dump_create_keys:
  "dump_create e = map (\<lambda>k. (k, the (dict_get (dump_create e) k)))
     [''event_type'', ''timestamp'', ''user_id'', ''source_url'', ''metadata'', ''schema_version'']"
  by (simp add: dump_create_def)

lemma dump_set_keys:
  "dump_set jf fs e = map (\<lambda>k. (k, jf (the (dict_get (dump_create e) k))))
     (filter (\<lambda>k. k \<in> set fs) [''event_type'', ''timestamp'', ''user_id'', ''source_url'', ''metadata'', ''schema_version''])"
  by (subst dump_set_def, subst dump_create_keys) (simp only: filter_map map_map comp_def prod.case)

lemma dump_set_cong:
  assumes "set fa = set fb" and "\<forall>k \<in> set fa. dict_get (dump_create a) k = dict_get (dump_create b) k"
  shows "dump_set jf fa a = dump_set jf fb b"
  using assms by (simp only: dump_set_keys) (intro map_cong refl, auto simp del: filter.simps)

text \<open>
  C16: what the idempotency fingerprint identifies. Two requests whose set fields are equal as JSON, in any
  order of the members and at any depth, have the same fingerprint; conversely equal fingerprints come from
  equal bodies, or exhibit a SHA-256 collision of two different canonical texts. A field that neither
  client set (an omitted \<open>timestamp\<close>, which differs per request) does not enter.
\<close>

theorem fingerprint_identifies_body:
  assumes "json_ok (PDict (dump_set jf fa a))" and "json_ok (PDict (dump_set jf fb b))"
  shows "(same_json (PDict (dump_set jf fa a)) (PDict (dump_set jf fb b)) \<longrightarrow>
      idempotency_fingerprint jf fa a = idempotency_fingerprint jf fb b) \<and>
    (idempotency_fingerprint jf fa a = idempotency_fingerprint jf fb b \<longrightarrow>
      same_json (PDict (dump_set jf fa a)) (PDict (dump_set jf fb b)) \<or>
      (let x = utf8 (canonical_json (PDict (dump_set jf fa a))); y = utf8 (canonical_json (PDict (dump_set jf fb b))) in
       x \<noteq> y \<and> sha256 x = sha256 y)) \<and>
    (set fa = set fb \<and> (\<forall>k \<in> set fa. dict_get (dump_create a) k = dict_get (dump_create b) k) \<longrightarrow>
      idempotency_fingerprint jf fa a = idempotency_fingerprint jf fb b)"
proof (intro conjI impI)
  note eq = canonical_json_eq [OF assms]
  show "idempotency_fingerprint jf fa a = idempotency_fingerprint jf fb b"
    if "same_json (PDict (dump_set jf fa a)) (PDict (dump_set jf fb b))"
    using that eq by (simp add: idempotency_fingerprint_def Let_def)
  show "same_json (PDict (dump_set jf fa a)) (PDict (dump_set jf fb b)) \<or>
      (let x = utf8 (canonical_json (PDict (dump_set jf fa a))); y = utf8 (canonical_json (PDict (dump_set jf fb b))) in
       x \<noteq> y \<and> sha256 x = sha256 y)"
    if "idempotency_fingerprint jf fa a = idempotency_fingerprint jf fb b"
    using that eq by (auto simp: idempotency_fingerprint_def Let_def sha256_hexdigest_def hex_inj utf8_inj)
  show "idempotency_fingerprint jf fa a = idempotency_fingerprint jf fb b"
    if "set fa = set fb \<and> (\<forall>k \<in> set fa. dict_get (dump_create a) k = dict_get (dump_create b) k)"
    using dump_set_cong [of fa fb a b jf] that by (simp add: idempotency_fingerprint_def)
qed

theorem fingerprint_identifies_body_witness:
  "idempotency_fingerprint id [''metadata''] (sample_create\<lparr>metadata := [(''a'', PInt 1), (''b'', PList [PNone])]\<rparr>) =
   idempotency_fingerprint id [''metadata''] (sample_create\<lparr>metadata := [(''b'', PList [PNone]), (''a'', PInt 1)]\<rparr>)"
  using fingerprint_identifies_body [of id "[''metadata'']" "sample_create\<lparr>metadata := [(''a'', PInt 1), (''b'', PList [PNone])]\<rparr>"
      "[''metadata'']" "sample_create\<lparr>metadata := [(''b'', PList [PNone]), (''a'', PInt 1)]\<rparr>", THEN conjunct1]
  by (auto simp: dump_set_def dump_create_def)

lemma ordinary_return [simp]: "ordinary (io_return x)"
  by (simp add: ordinary_def)

lemma ordinary_bind: "ordinary m \<Longrightarrow> (\<And>x. ordinary (f x)) \<Longrightarrow> ordinary (io_bind m f)"
  unfolding ordinary_def by (metis io_bind_cases sum.inject(1))

lemma ordinary_on_redis: "ordinary f \<Longrightarrow> ordinary (on_redis f)"
  by (auto simp: ordinary_def on_redis_def is_Exception_def split: option.splits prod.splits)

lemma caught_total: "ordinary m \<Longrightarrow> \<exists>y c'. io_catch m is_Exception (\<lambda>_. io_return x) c = (Inr y, c')"
  by (cases "m c") (auto simp: ordinary_def io_catch_def split: sum.splits)

lemma check_rate_limit_total:
  assumes "redis_contract keeps R V tm"
  shows "\<exists>b c'. check_rate_limit R now ident limit window c = (Inr b, c')"
proof -
  have "ordinary (count_request R now ident limit window)"
    unfolding count_request_def Let_def
    using contractD(9,10) [OF assms]
    by (auto intro!: ordinary_bind ordinary_on_redis) (simp add: ordinary_def is_Exception_def)
  then show ?thesis unfolding check_rate_limit_def by (rule caught_total)
qed

lemma check_idempotency_total:
  assumes "redis_contract keeps R V tm"
  shows "\<exists>v c'. check_idempotency R key fp ttl c = (Inr v, c')"
  unfolding check_idempotency_def Let_def
  using contractD(6,8) [OF assms] by (intro caught_total) (auto intro!: ordinary_bind ordinary_on_redis)

lemma enforce_rate_limit_cases:
  assumes "redis_contract keeps R V tm" and "enforce_rate_limit R cfg clock client c = (r, c')"
  shows "r = Inr () \<or> 0 < rate_limit_per_minute cfg \<and> (\<exists>d. r = Inl (HTTPExc 429 d))"
proof -
  obtain b c1 where "check_rate_limit R clock (case client of None \<Rightarrow> ''unknown'' | Some host \<Rightarrow> host) (rate_limit_per_minute cfg) 60 c = (Inr b, c1)"
    using check_rate_limit_total [OF assms(1)] by blast
  with assms(2) show ?thesis by (auto simp: enforce_rate_limit_def Let_def io_defs split: if_splits)
qed

lemma claim_key_cases:
  assumes "redis_contract keeps R V tm" and "claim_key R cfg jf fs ev k c = (r, c')"
  shows "r = Inr () \<or> effective_key k \<noteq> None \<and> (\<exists>d. r = Inl (HTTPExc 409 d))"
proof (cases "effective_key k")
  case (Some key)
  obtain v c1 where "check_idempotency R key (idempotency_fingerprint jf fs ev) (idempotency_key_ttl_seconds cfg) c = (Inr v, c1)"
    using check_idempotency_total [OF assms(1)] by blast
  with assms(2) Some show ?thesis by (auto simp: claim_key_def io_defs split: if_splits)
qed (use assms(2) in \<open>simp add: claim_key_def\<close>)

lemma accept_event_eq:
  "accept_event entropy now ev k s =
    (if \<not> is_accepting s then (Inl (HTTPExc 503 ''Service is shutting down; not accepting new events''), s)
     else if full (is_queue s) then (Inl (HTTPExc 429 ''Event queue is full - retry after a short backoff''), s)
     else let doc = EventDocument (event_id_for entropy k) now ev in
       (Inr \<lparr>ir_event_id = event_id_for entropy k, ir_received_at = now\<rparr>,
        s\<lparr>is_queue := (is_queue s)\<lparr>q_items := q_items (is_queue s) @ [doc], q_unfinished := Suc (q_unfinished (is_queue s))\<rparr>\<rparr>))"
  by (simp add: accept_event_def ingest_closed ingest_full ingest_ok Let_def)

text \<open>
  C10: \<open>POST /events\<close> on every branch, whatever Redis does. A 202 means that exactly one document, with the
  client's fields and the returned id and time, went to the end of the queue. Every other answer is an HTTP
  error that enqueued nothing: 503 only when the service is stopping, 409 only with an idempotency key, 429
  only with a full queue or a configured rate limit. No failure of Redis surfaces as an error.
\<close>

theorem create_event_outcome:
  assumes "redis_contract keeps R V tm" and "create_event R cfg jf clock client entropy now fs ev k (c, s) = (r, c', s')"
  shows "case r of
      Inr resp \<Rightarrow> is_accepting s \<and> \<not> full (is_queue s) \<and> resp = \<lparr>ir_event_id = event_id_for entropy k, ir_received_at = now\<rparr> \<and>
        s' = s\<lparr>is_queue := (is_queue s)\<lparr>q_items := q_items (is_queue s) @ [EventDocument (event_id_for entropy k) now ev],
          q_unfinished := Suc (q_unfinished (is_queue s))\<rparr>\<rparr>
    | Inl e \<Rightarrow> s' = s \<and> (\<exists>code detail. e = HTTPExc code detail \<and>
        (code = 503 \<and> \<not> is_accepting s \<or> code = 409 \<and> effective_key k \<noteq> None \<or>
         code = 429 \<and> (is_accepting s \<and> full (is_queue s) \<or> 0 < rate_limit_per_minute cfg)))"
proof -
  obtain r1 c1 where lim: "enforce_rate_limit R cfg clock client c = (r1, c1)" by (metis surj_pair)
  obtain r2 c2 where key: "claim_key R cfg jf fs ev k c1 = (r2, c2)" by (metis surj_pair)
  from enforce_rate_limit_cases [OF assms(1) lim] show ?thesis
  proof
    assume "r1 = Inr ()"
    with assms(2) lim key claim_key_cases [OF assms(1) key] show ?thesis
      by (auto simp: create_event_def io_bind_def accept_event_eq Let_def split: if_splits)
  next
    assume "0 < rate_limit_per_minute cfg \<and> (\<exists>d. r1 = Inl (HTTPExc 429 d))"
    with assms(2) lim show ?thesis by (auto simp: create_event_def io_bind_def)
  qed
qed

theorem create_event_outcome_witness:
  "\<exists>resp. fst (create_event (rm_driver True (rm_new 0 [])) default_settings id 0 None (replicate 16 0) (utc_datetime 7) [''user_id''] sample_create None
     (sample_redis [(0, 1)], \<lparr>is_queue = new_queue 1, is_accepting = True\<rparr>)) = Inr resp \<and> ir_received_at resp = utc_datetime 7"
proof -
  let ?run = "create_event (rm_driver True (rm_new 0 [])) default_settings id 0 None (replicate 16 0) (utc_datetime 7) [''user_id''] sample_create None
     (sample_redis [(0, 1)], \<lparr>is_queue = new_queue 1, is_accepting = True\<rparr>)"
  have "?run = (fst ?run, fst (snd ?run), snd (snd ?run))" by simp
  from create_event_outcome [OF rm_contract this] show ?thesis
    by (cases "fst ?run") (auto simp: new_queue_def full_def qsize_def effective_key_def)
qed

section \<open>Retries under one idempotency key\<close>

lemma claim_key_checked:
  "effective_key k = Some key \<Longrightarrow> check_idempotency R key (idempotency_fingerprint jf fs ev) (idempotency_key_ttl_seconds cfg) c = (Inr v, c') \<Longrightarrow>
    claim_key R cfg jf fs ev k c =
      (if v = ''conflict'' then Inl (HTTPExc 409 ''Idempotency-Key was already used with a different request body'') else Inr (), c')"
  by (simp add: claim_key_def io_defs)

lemma create_event_unlimited:
  "rate_limit_per_minute cfg \<le> 0 \<Longrightarrow> claim_key R cfg jf fs ev k c = (r1, c') \<Longrightarrow>
    create_event R cfg jf clock client entropy now fs ev k (c, s) =
      (case r1 of Inl e \<Rightarrow> (Inl e, c', s)
       | Inr _ \<Rightarrow> (fst (accept_event entropy now ev k s), c', snd (accept_event entropy now ev k s)))"
  by (simp add: create_event_def enforce_rate_limit_def io_bind_def split: sum.split prod.split)

text \<open>
  C17: the key is claimed before the event is accepted. After a first request with a fresh key was turned
  away (the queue was full, or the service was stopping), the key is taken although nothing was stored under
  it. A retry of the same body within the time to live, once there is room, is accepted with the id the key
  determines; a corrected body under the same key is refused with 409 and enqueues nothing. (Redis up,
  nothing evicted, no rate limit configured.)
\<close>

theorem create_event_retry:
  assumes contract: "redis_contract True R V tm" and up: "answers R V" and unlimited: "rate_limit_per_minute cfg \<le> 0"
    and c: "rc_redis c = Some w" and key: "effective_key k = Some key" and fresh: "V w (idem_key key) = None"
    and first: "create_event R cfg jf clock1 client1 ent1 now1 fs1 ev1 k (c, s) = (r1, c1, s1)"
    and refused: "\<not> is_accepting s \<or> full (is_queue s)"
    and room: "is_accepting s2" "\<not> full (is_queue s2)"
    and retry: "create_event R cfg jf clock2 client2 ent2 now2 fs2 ev2 k (c1, s2) = (r2, c2, s2')"
    and in_time: "rc_redis c2 = Some w2" "tm w2 < tm w + idempotency_key_ttl_seconds cfg"
  shows "(\<exists>code detail. r1 = Inl (HTTPExc code detail) \<and> code \<in> {429, 503}) \<and> s1 = s \<and>
    (if idempotency_fingerprint jf fs2 ev2 = idempotency_fingerprint jf fs1 ev1
     then r2 = Inr \<lparr>ir_event_id = uuid5_str IDEMPOTENCY_NAMESPACE key, ir_received_at = now2\<rparr> \<and>
       q_items (is_queue s2') = q_items (is_queue s2) @ [EventDocument (uuid5_str IDEMPOTENCY_NAMESPACE key) now2 ev2]
     else (\<exists>detail. r2 = Inl (HTTPExc 409 detail)) \<and> s2' = s2)"
proof -
  let ?fp = "idempotency_fingerprint jf" and ?ttl = "idempotency_key_ttl_seconds cfg"
  have id: "event_id_for e k = uuid5_str IDEMPOTENCY_NAMESPACE key" for e by (simp add: event_id_for_def key)
  obtain v1 ca where v1: "check_idempotency R key (?fp fs1 ev1) ?ttl c = (Inr v1, ca)" using check_idempotency_total [OF contract] by blast
  from first_claim [OF contract up c fresh v1] obtain wa d where
    a: "v1 = ''new''" "rc_redis ca = Some wa" "V wa (idem_key key) = Some (?fp fs1 ev1, Some d)" "tm w + ?ttl \<le> d" by auto
  have "claim_key R cfg jf fs1 ev1 k c = (Inr (), ca)" using claim_key_checked [OF key v1] a(1) by simp
  from create_event_unlimited [OF unlimited this] first refused
  have one: "c1 = ca" "s1 = s" "\<exists>code detail. r1 = Inl (HTTPExc code detail) \<and> code \<in> {429, 503}"
    by (auto simp: accept_event_eq)
  obtain v2 cb where v2: "check_idempotency R key (?fp fs2 ev2) ?ttl ca = (Inr v2, cb)" using check_idempotency_total [OF contract] by blast
  note claim2 = create_event_unlimited [OF unlimited claim_key_checked [OF key v2]]
  from claim2 retry one have "c2 = cb" by (auto split: if_splits)
  with in_time a have "rc_redis cb = Some w2" "tm w2 < d" by simp_all
  from later_claim [OF contract up a(2,3) v2 this] have v2: "v2 = (if ?fp fs2 ev2 = ?fp fs1 ev1 then ''replay'' else ''conflict'')" by simp
  from claim2 retry one v2 room show ?thesis
    by (auto simp: accept_event_eq id Let_def split: if_splits)
qed

definition full_service :: ingestion_service where
  "full_service = \<lparr>is_queue = (new_queue 1)\<lparr>q_items := [EventDocument ''x'' (utc_datetime 0) sample_create], q_unfinished := 1\<rparr>, is_accepting = True\<rparr>"

lemma live_none [simp]: "live t (\<lambda>_. None) = (\<lambda>_. None)"
  by (simp add: live_def fun_eq_iff)

definition claimed_redis :: "string \<Rightarrow> string \<Rightarrow> int \<Rightarrow> redis_mem redis_cache" where
  "claimed_redis key fp ttl = (sample_redis [])\<lparr>rc_redis := Some ((rm_new 120 [])\<lparr>rm_data := [idem_key key \<mapsto> (fp, Some (120 + ttl))]\<rparr>)\<rparr>"

lemma sample_claim:
  "check_idempotency (rm_driver False m0) key fp ttl (sample_redis []) = (Inr ''new'', claimed_redis key fp ttl)"
  by (simp add: check_idempotency_def Let_def io_defs on_redis_def sample_redis_def claimed_redis_def rm_driver_def rm_call_def rm_new_def)

lemma live_claimed: "0 < ttl \<Longrightarrow> live 120 [k \<mapsto> (fp, Some (120 + ttl))] = [k \<mapsto> (fp, Some (120 + ttl))]"
  by (simp add: live_def fun_eq_iff)

lemma sample_reclaim:
  "0 < ttl \<Longrightarrow> check_idempotency (rm_driver False m0) key fp ttl (claimed_redis key fp ttl) = (Inr ''replay'', claimed_redis key fp ttl)"
  by (simp add: check_idempotency_def Let_def io_defs on_redis_def sample_redis_def claimed_redis_def rm_driver_def rm_call_def rm_new_def live_claimed)

theorem create_event_retry_witness:
  "fst (create_event (rm_driver False (rm_new 0 [])) default_settings id 0 None [] (utc_datetime 8) [''user_id''] sample_create (Some ''k'')
     (fst (snd (create_event (rm_driver False (rm_new 0 [])) default_settings id 0 None [] (utc_datetime 7) [''user_id''] sample_create (Some ''k'') (sample_redis [], full_service))),
      new_ingestion (new_queue 1))) =
   Inr \<lparr>ir_event_id = uuid5_str IDEMPOTENCY_NAMESPACE ''k'', ir_received_at = utc_datetime 8\<rparr>"
proof -
  let ?R = "rm_driver False (rm_new 0 [])" and ?fp = "idempotency_fingerprint id [''user_id''] sample_create"
  have key: "effective_key (Some ''k'') = Some ''k''" by (simp add: effective_key_def strip_def py_space_def)
  note first = create_event_unlimited [of default_settings, OF _ claim_key_checked [OF key sample_claim], simplified]
  note again = create_event_unlimited [of default_settings, OF _ claim_key_checked [OF key sample_reclaim], simplified]
  have one: "create_event ?R default_settings id 0 None [] (utc_datetime 7) [''user_id''] sample_create (Some ''k'') (sample_redis [], full_service) =
      (fst (accept_event [] (utc_datetime 7) sample_create (Some ''k'') full_service), claimed_redis ''k'' ?fp 86400,
       snd (accept_event [] (utc_datetime 7) sample_create (Some ''k'') full_service))"
    by (rule first)
  let ?two = "create_event ?R default_settings id 0 None [] (utc_datetime 8) [''user_id''] sample_create (Some ''k'') (claimed_redis ''k'' ?fp 86400, new_ingestion (new_queue 1))"
  have two: "fst (snd ?two) = claimed_redis ''k'' ?fp 86400" by (simp add: again)
  have "?two = (fst ?two, fst (snd ?two), snd (snd ?two))" by simp
  from create_event_retry [OF rm_contract rm_answers _ _ key _ one _ _ _ this, of "rm_new 120 []"]
  show ?thesis
    by (simp add: one two) (simp add: sample_redis_def claimed_redis_def rm_new_def full_service_def full_def qsize_def new_queue_def new_ingestion_def)
qed

end
