(* ===== verification/Es_Indexer.thy ===== *)
theory Es_Indexer
  imports Es_Memory Mongo_Queries
begin

text \<open>
  \<open>app/worker/es_indexer.py\<close>: the background task that feeds Elasticsearch from the outbox in Mongo. The outbox
  interface (pending events, fetching a batch, marking it) is a locale; the Mongo store implements it.
\<close>

record es_indexer =
  xi_batch_size :: int
  xi_interval :: int
  xi_stop_event :: bool
  xi_events_indexed :: nat
  xi_index_failures :: nat

definition new_es_indexer :: "int \<Rightarrow> int \<Rightarrow> es_indexer" where
  "new_es_indexer batch_size interval = \<lparr>xi_batch_size = batch_size, xi_interval = interval, xi_stop_event = False,
     xi_events_indexed = 0, xi_index_failures = 0\<rparr>"

definition es_indexer_metrics :: "es_indexer \<Rightarrow> pydict" where
  "es_indexer_metrics k = [(''events_indexed'', PInt (int (xi_events_indexed k))), (''index_failures'', PInt (int (xi_index_failures k)))]"

text \<open>\<open>[EventDocument(**doc) for doc in docs]\<close>.\<close>

fun validate_all :: "validator \<Rightarrow> pydict list \<Rightarrow> exn + event_document list" where
  "validate_all validate [] = Inr []"
| "validate_all validate (d # ds) = (case validate d of Inl e \<Rightarrow> Inl e
     | Inr ev \<Rightarrow> (case validate_all validate ds of Inl e \<Rightarrow> Inl e | Inr evs \<Rightarrow> Inr (ev # evs)))"

definition index_pending ::
  "(nat \<Rightarrow> ('s, pydict list) io) \<Rightarrow> (string list \<Rightarrow> ('s, unit) io) \<Rightarrow> (event_document list \<Rightarrow> ('x, unit) io) \<Rightarrow> validator \<Rightarrow>
   (es_indexer \<times> 's \<times> 'x, bool) io" where
  "index_pending fetch mark bulk validate st = (case st of (k, s, x) \<Rightarrow>
     (case fetch (nat (xi_batch_size k)) s of
        (Inl e, s1) \<Rightarrow> (Inl e, k, s1, x)
      | (Inr docs, s1) \<Rightarrow>
          if docs = [] then (Inr False, k, s1, x)
          else (case validate_all validate docs of
              Inl e \<Rightarrow> (Inl e, k, s1, x)
            | Inr events \<Rightarrow>
                (case bulk events x of
                   (Inl e, x1) \<Rightarrow> (Inl e, k, s1, x1)
                 | (Inr _, x1) \<Rightarrow>
                     (case mark (map event_id events) s1 of
                        (Inl e, s2) \<Rightarrow> (Inl e, k, s2, x1)
                      | (Inr _, s2) \<Rightarrow> (Inr (int (length docs) = xi_batch_size k),
                          k\<lparr>xi_events_indexed := xi_events_indexed k + length events\<rparr>, s2, x1))))))"

text \<open>
  One round of \<open>_run\<close>'s loop: go on at once, wait for the interval (after a short batch or a failure), or
  leave because of an exception that is not an \<open>Exception\<close>.
\<close>

datatype pass = Again | Wait | Crash exn

definition index_pass ::
  "(nat \<Rightarrow> ('s, pydict list) io) \<Rightarrow> (string list \<Rightarrow> ('s, unit) io) \<Rightarrow> (event_document list \<Rightarrow> ('x, unit) io) \<Rightarrow> validator \<Rightarrow>
   es_indexer \<times> 's \<times> 'x \<Rightarrow> pass \<times> es_indexer \<times> 's \<times> 'x" where
  "index_pass fetch mark bulk validate st = (case index_pending fetch mark bulk validate st of
     (Inr again, st') \<Rightarrow> (if again then Again else Wait, st')
   | (Inl e, k, s, x) \<Rightarrow>
       if is_Exception e then (Wait, k\<lparr>xi_index_failures := Suc (xi_index_failures k)\<rparr>, s, x) else (Crash e, k, s, x))"

text \<open>
  The backlog is drained without waiting: as many rounds as answer \<open>Again\<close>, then one more, with fuel. The loop's
  test of the stop event before each round is in \<open>indexer_turn\<close> and \<open>indexer_step\<close>; here the indexer is not stopped.
\<close>

fun drain ::
  "nat \<Rightarrow> (nat \<Rightarrow> ('s, pydict list) io) \<Rightarrow> (string list \<Rightarrow> ('s, unit) io) \<Rightarrow> (event_document list \<Rightarrow> ('x, unit) io) \<Rightarrow> validator \<Rightarrow>
   es_indexer \<times> 's \<times> 'x \<Rightarrow> (pass \<times> es_indexer \<times> 's \<times> 'x) option" where
  "drain 0 fetch mark bulk validate st = None"
| "drain (Suc n) fetch mark bulk validate st = (case index_pass fetch mark bulk validate st of
     (Again, st') \<Rightarrow> drain n fetch mark bulk validate st'
   | (p, st') \<Rightarrow> Some (p, st'))"

section \<open>The outbox interface\<close>

text \<open>A dict that holds the fields of an event.\<close>

definition carries :: "event_document \<Rightarrow> pydict \<Rightarrow> bool" where
  "carries e d \<longleftrightarrow> event_ok e \<and> (\<forall>k \<in> set document_fields. dict_get d k = dict_get (model_dump e) k)"

lemma validate_all_carries:
  assumes "pydantic_contract validate"
  shows "list_all2 carries evs docs \<Longrightarrow> validate_all validate docs = Inr evs"
proof (induction rule: list_all2_induct)
  case (Cons e evs d docs)
  then have "validate d = Inr e" by (intro pydantic_contractD [OF assms]) (simp_all add: carries_def)
  with Cons show ?case by simp
qed simp

locale outbox =
  fixes good :: "'c \<Rightarrow> bool" and inv :: "'c \<Rightarrow> 's \<Rightarrow> bool" and pending sent :: "'c \<Rightarrow> 's \<Rightarrow> string set"
    and fetch :: "'c \<Rightarrow> nat \<Rightarrow> ('s, pydict list) io" and mark :: "'c \<Rightarrow> string list \<Rightarrow> ('s, unit) io"
  assumes finite_pending: "finite (pending c s)"
    and fetch_kept: "good c \<Longrightarrow> inv c s \<Longrightarrow> fetch c n s = (r, s') \<Longrightarrow>
      inv c s' \<and> pending c s' = pending c s \<and> sent c s' = sent c s"
    and fetch_batch: "good c \<Longrightarrow> inv c s \<Longrightarrow> 0 < n \<Longrightarrow> fetch c n s = (Inr docs, s') \<Longrightarrow>
      \<exists>evs. list_all2 carries evs docs \<and> distinct (map event_id evs) \<and> event_id ` set evs \<subseteq> pending c s \<and>
        length evs = min n (card (pending c s))"
    and mark_kept: "good c \<Longrightarrow> inv c s \<Longrightarrow> mark c ids s = (rm, s') \<Longrightarrow>
      inv c s' \<and> pending c s' \<subseteq> pending c s \<and> pending c s \<subseteq> pending c s' \<union> set ids \<and>
      sent c s' \<subseteq> sent c s \<union> set ids"
    and mark_done: "good c \<Longrightarrow> inv c s \<Longrightarrow> mark c ids s = (Inr (), s') \<Longrightarrow> pending c s' = pending c s - set ids"
begin

text \<open>What one round does to the outbox, for every outcome.\<close>

lemma index_pending_cases:
  assumes "good c" and "inv c s" and "pydantic_contract validate" and "0 < xi_batch_size k"
    and run: "index_pending (fetch c) (mark c) bulk validate (k, s, x) = (r, k', s', x')"
  obtains (idle) "inv c s'" "pending c s' = pending c s" "sent c s' = sent c s" "x' = x" "k' = k" "\<And>b. r = Inr b \<Longrightarrow> \<not> b \<and> pending c s = {}"
    | (tried) evs e where "evs \<noteq> []" "event_id ` set evs \<subseteq> pending c s" "length evs \<le> nat (xi_batch_size k)"
        "bulk evs x = (Inl e, x')" "r = Inl e" "inv c s'" "pending c s' = pending c s" "sent c s' = sent c s" "k' = k"
    | (handed) evs where "evs \<noteq> []" "event_id ` set evs \<subseteq> pending c s" "distinct (map event_id evs)"
        "length evs = min (nat (xi_batch_size k)) (card (pending c s))" "bulk evs x = (Inr (), x')" "inv c s'"
        "sent c s' \<subseteq> sent c s \<union> event_id ` set evs"
        "pending c s' \<subseteq> pending c s" "pending c s \<subseteq> pending c s' \<union> event_id ` set evs"
        "\<And>b. r = Inr b \<Longrightarrow> (b \<longleftrightarrow> int (length evs) = xi_batch_size k) \<and> pending c s' = pending c s - event_id ` set evs"
        "k' = (case r of Inl _ \<Rightarrow> k | Inr _ \<Rightarrow> k\<lparr>xi_events_indexed := xi_events_indexed k + length evs\<rparr>)"
proof -
  obtain r0 s1 where f: "fetch c (nat (xi_batch_size k)) s = (r0, s1)" by force
  note kept = fetch_kept [OF assms(1,2) f]
  show thesis
  proof (cases r0)
    case (Inl e)
    with run f kept show thesis by (intro idle) (auto simp: index_pending_def)
  next
    case (Inr docs)
    have "0 < nat (xi_batch_size k)" using assms(4) by simp
    from fetch_batch [OF assms(1,2) this f [unfolded Inr]] obtain evs where evs: "list_all2 carries evs docs"
      "distinct (map event_id evs)" "event_id ` set evs \<subseteq> pending c s"
      "length evs = min (nat (xi_batch_size k)) (card (pending c s))" by blast
    from evs(1) have len: "length docs = length evs" by (simp add: list_all2_lengthD)
    show thesis
    proof (cases "docs = []")
      case True
      with len evs(4) assms(4) have "card (pending c s) = 0" by (auto simp: min_def split: if_splits)
      with run f kept True Inr finite_pending show thesis by (intro idle) (auto simp: index_pending_def)
    next
      case False
      with len have ne: "evs \<noteq> []" by auto
      note val = validate_all_carries [OF assms(3) evs(1)]
      obtain rb x1 where b: "bulk evs x = (rb, x1)" by force
      show thesis
      proof (cases rb)
        case (Inl e)
        with run f Inr False val b kept ne evs show thesis by (intro tried [of evs e]) (auto simp: index_pending_def)
      next
        case rb: (Inr u)
        obtain rm s2 where mk: "mark c (map event_id evs) s1 = (rm, s2)" by force
        note kept2 = mark_kept [OF assms(1) conjunct1 [OF kept] mk]
        from run f Inr False val b rb mk len have eqs: "x' = x1" "s' = s2"
          "r = (case rm of Inl e \<Rightarrow> Inl e | Inr _ \<Rightarrow> Inr (int (length evs) = xi_batch_size k))"
          "k' = (case rm of Inl _ \<Rightarrow> k | Inr _ \<Rightarrow> k\<lparr>xi_events_indexed := xi_events_indexed k + length evs\<rparr>)"
          by (auto simp: index_pending_def split: sum.splits)
        have "pending c s' = pending c s - event_id ` set evs" if "rm = Inr ()"
          using mark_done [OF assms(1) conjunct1 [OF kept] mk [unfolded that]] kept eqs by simp
        with eqs kept kept2 b rb ne evs show thesis
          by (intro handed [of evs]) (auto split: sum.splits)
      qed
    qed
  qed
qed

text \<open>A round that answers \<open>Again\<close> takes a full batch out of the outbox.\<close>

lemma again_takes_batch:
  assumes "good c" and "inv c s" and "pydantic_contract validate" and "0 < xi_batch_size k"
    and "index_pass (fetch c) (mark c) bulk validate (k, s, x) = (Again, k', s', x')"
  shows "inv c s' \<and> card (pending c s) = card (pending c s') + nat (xi_batch_size k) \<and> xi_batch_size k' = xi_batch_size k \<and>
    int (xi_events_indexed k') = int (xi_events_indexed k) + xi_batch_size k"
proof -
  from assms(5) have run: "index_pending (fetch c) (mark c) bulk validate (k, s, x) = (Inr True, k', s', x')"
    by (auto simp: index_pass_def split: prod.splits sum.splits if_splits)
  show ?thesis
  proof (rule index_pending_cases [OF assms(1-4) run])
    fix evs
    assume h: "event_id ` set evs \<subseteq> pending c s" "distinct (map event_id evs)"
      "length evs = min (nat (xi_batch_size k)) (card (pending c s))" "inv c s'"
      "\<And>b. Inr True = Inr b \<Longrightarrow> (b \<longleftrightarrow> int (length evs) = xi_batch_size k) \<and> pending c s' = pending c s - event_id ` set evs"
      "k' = (case Inr True of Inl _ \<Rightarrow> k | Inr _ \<Rightarrow> k\<lparr>xi_events_indexed := xi_events_indexed k + length evs\<rparr>)"
    from h(5) [OF refl] have full: "int (length evs) = xi_batch_size k" and p: "pending c s' = pending c s - event_id ` set evs"
      by simp_all
    have "card (event_id ` set evs) = length evs" using h(2) by (metis distinct_card length_map list.set_map)
    then have "card (pending c s') = card (pending c s) - length evs"
      using h(1) by (simp add: p card_Diff_subset finite_subset [OF h(1) finite_pending])
    moreover have "length evs \<le> card (pending c s)" using h(3) by simp
    ultimately show ?thesis using h(4,6) full by simp
  qed auto
qed

text \<open>The rounds until the next wait are bounded by the size of the backlog.\<close>

lemma drain_terminates:
  assumes "good c" and "inv c s" and "pydantic_contract validate" and "0 < xi_batch_size k"
    and "card (pending c s) div nat (xi_batch_size k) < fuel"
  shows "\<exists>p st'. drain fuel (fetch c) (mark c) bulk validate (k, s, x) = Some (p, st') \<and> p \<noteq> Again"
  using assms(2,4,5)
proof (induction fuel arbitrary: k s x)
  case (Suc fuel)
  obtain p k' s' x' where pass: "index_pass (fetch c) (mark c) bulk validate (k, s, x) = (p, k', s', x')"
    by (metis prod.exhaust)
  show ?case
  proof (cases p)
    case Again
    note t = again_takes_batch [OF assms(1) Suc.prems(1) assms(3) Suc.prems(2) pass [unfolded Again]]
    have "0 < nat (xi_batch_size k)" using Suc.prems(2) by simp
    moreover from t have "card (pending c s) = card (pending c s') + nat (xi_batch_size k)" by blast
    ultimately have "card (pending c s') div nat (xi_batch_size k') < fuel" using Suc.prems(3) t
      by (simp only: div_add_self2 [OF less_imp_neq [THEN not_sym]])
    with t Suc.prems(2) Suc.IH [of s' k' x'] show ?thesis by (simp add: pass Again)
  qed (simp_all add: pass)
qed simp

text \<open>When the last round succeeded, nothing is pending.\<close>

lemma drained_empty:
  assumes "good c" and "inv c s" and "pydantic_contract validate" and "0 < xi_batch_size k"
    and "drain fuel (fetch c) (mark c) bulk validate (k, s, x) = Some (p, k', s', x')"
    and "xi_index_failures k' = xi_index_failures k" and "\<forall>e. p \<noteq> Crash e"
  shows "pending c s' = {} \<and> xi_events_indexed k' = xi_events_indexed k + card (pending c s)"
  using assms(2,4,5,6)
proof (induction fuel arbitrary: k s x)
  case (Suc fuel)
  obtain p1 k1 s1 x1 where pass: "index_pass (fetch c) (mark c) bulk validate (k, s, x) = (p1, k1, s1, x1)"
    by (metis prod.exhaust)
  show ?case
  proof (cases p1)
    case Again
    note t = again_takes_batch [OF assms(1) Suc.prems(1) assms(3) Suc.prems(2) pass [unfolded Again]]
    from pass Again have "xi_index_failures k1 = xi_index_failures k"
      by (auto simp: index_pass_def index_pending_def split: prod.splits sum.splits if_splits)
    with Suc.prems t have "pending c s' = {} \<and> xi_events_indexed k' = xi_events_indexed k1 + card (pending c s1)"
      by (intro Suc.IH [of s1 k1 x1]) (auto simp: pass Again)
    with t Suc.prems(2) show ?thesis by linarith
  next
    case Wait
    with Suc.prems(3) pass have eqs: "k' = k1" "s' = s1" "p = Wait" by auto
    obtain r k2 s2 x2 where run: "index_pending (fetch c) (mark c) bulk validate (k, s, x) = (r, k2, s2, x2)"
      by (metis prod.exhaust)
    from run have "xi_index_failures k2 = xi_index_failures k"
      by (auto simp: index_pending_def split: prod.splits sum.splits if_splits)
    with pass Wait run eqs Suc.prems(4) have r: "r = Inr False" "k1 = k2" "s1 = s2"
      by (auto simp: index_pass_def split: sum.splits if_splits)
    show ?thesis
    proof (rule index_pending_cases [OF assms(1) Suc.prems(1) assms(3) Suc.prems(2) run])
      assume h: "pending c s2 = pending c s" "k2 = k" "\<And>b. r = Inr b \<Longrightarrow> \<not> b \<and> pending c s = {}"
      from h(3) [OF r(1)] have "pending c s = {}" by simp
      with h r eqs show ?thesis by simp
    next
      fix evs
      assume h: "event_id ` set evs \<subseteq> pending c s" "distinct (map event_id evs)"
        "length evs = min (nat (xi_batch_size k)) (card (pending c s))"
        "\<And>b. r = Inr b \<Longrightarrow> (b \<longleftrightarrow> int (length evs) = xi_batch_size k) \<and> pending c s2 = pending c s - event_id ` set evs"
        "k2 = (case r of Inl _ \<Rightarrow> k | Inr _ \<Rightarrow> k\<lparr>xi_events_indexed := xi_events_indexed k + length evs\<rparr>)"
      have c: "card (event_id ` set evs) = length evs" using h(2) by (metis distinct_card length_map list.set_map)
      from h(4) [OF r(1)] have "int (length evs) \<noteq> xi_batch_size k" and p: "pending c s2 = pending c s - event_id ` set evs" by simp_all
      with h(3) Suc.prems(2) have full: "length evs = card (pending c s)" by (auto simp: min_def split: if_splits)
      with c h(1) finite_pending have "event_id ` set evs = pending c s" by (metis card_subset_eq)
      with p h(5) r eqs full show ?thesis by simp
    qed (use r in auto)
  qed (use Suc.prems(3) assms(7) pass in auto)
qed simp

end

section \<open>The outbox of the Mongo store\<close>

definition outbox_inv :: "'m mongo_ctx \<Rightarrow> 'm mongo_store \<Rightarrow> bool" where
  "outbox_inv c s \<longleftrightarrow> store_inv (snd c) s \<and> (\<forall>d \<in> set (store_docs (snd c) s COLLECTION). \<exists>e b. event_doc e b d \<and> event_ok e)"

definition outbox_good :: "'m mongo_ctx \<Rightarrow> bool" where
  "outbox_good c \<longleftrightarrow> mongo_contract (fst c) (snd c)"

definition marker_ids :: "bool \<Rightarrow> 'm mongo_ctx \<Rightarrow> 'm mongo_store \<Rightarrow> string set" where
  "marker_ids b c s = {i. \<exists>d \<in> set (store_docs (snd c) s COLLECTION). doc_id d = Some (PStr i) \<and> dict_get d ''es_indexed'' = Some (PBool b)}"

definition mongo_fetch :: "'m mongo_ctx \<Rightarrow> nat \<Rightarrow> ('m mongo_store, pydict list) io" where
  "mongo_fetch c = fetch_unindexed (fst c)"

definition mongo_mark :: "'m mongo_ctx \<Rightarrow> string list \<Rightarrow> ('m mongo_store, unit) io" where
  "mongo_mark c = mark_indexed (fst c)"

text \<open>The event a stored document is read back as: dates at millisecond precision, without an offset.\<close>

definition read_back :: "event_document \<Rightarrow> event_document" where
  "read_back e = e\<lparr>timestamp := bson_date (timestamp e), received_at := bson_date (received_at e),
     metadata := map (\<lambda>kv. (fst kv, bson (snd kv))) (metadata e)\<rparr>"

lemma read_back_id [simp]: "event_id (read_back e) = event_id e"
  by (simp add: read_back_def)

lemma event_doc_carries:
  assumes "event_doc e b d" and "event_ok e"
  shows "carries (read_back e) (hide_internal d)"
  using assms by (auto simp: carries_def read_back_def event_ok_def hide_internal_def dict_get_project_out event_doc_def
      to_doc_gets document_fields_def model_dump_def dump_create_def)

lemma marker_ids_finite: "finite (marker_ids b c s)"
proof -
  have "marker_ids b c s \<subseteq> {i. Some (PStr i) \<in> doc_id ` set (store_docs (snd c) s COLLECTION)}"
    by (force simp: marker_ids_def)
  moreover have "finite {i. Some (PStr i) \<in> doc_id ` set (store_docs (snd c) s COLLECTION)}"
    using finite_vimageI [of "doc_id ` set (store_docs (snd c) s COLLECTION)" "\<lambda>i. Some (PStr i)"]
    by (simp add: vimage_def inj_def)
  ultimately show ?thesis by (rule finite_subset)
qed

lemma unindexed_docs:
  assumes "outbox_inv c s"
  shows "card (marker_ids False c s) = length (filter (mongo_matches [(''es_indexed'', PBool False)]) (store_docs (snd c) s COLLECTION))"
    and "distinct (map doc_id (filter (mongo_matches [(''es_indexed'', PBool False)]) (store_docs (snd c) s COLLECTION)))"
    and "\<And>d. d \<in> set (store_docs (snd c) s COLLECTION) \<Longrightarrow> mongo_matches [(''es_indexed'', PBool False)] d \<Longrightarrow>
      doc_id d = Some (PStr i) \<Longrightarrow> i \<in> marker_ids False c s"
proof -
  let ?docs = "store_docs (snd c) s COLLECTION" and ?P = "mongo_matches [(''es_indexed'', PBool False)]"
  have match: "?P d \<longleftrightarrow> dict_get d ''es_indexed'' = Some (PBool False)" if "d \<in> set ?docs" for d
  proof -
    from assms that obtain e b where "event_doc e b d" by (auto simp: outbox_inv_def)
    then show ?thesis by (auto simp: mongo_matches_def event_doc_gets)
  qed
  from assms have "distinct (map doc_id ?docs)" by (simp add: outbox_inv_def store_inv_def)
  then show dist: "distinct (map doc_id (filter ?P ?docs))" by (rule distinct_map_filter_id)
  show "i \<in> marker_ids False c s" if "d \<in> set ?docs" "?P d" "doc_id d = Some (PStr i)" for d i
    using that match by (auto simp: marker_ids_def)
  have "doc_id ` set (filter ?P ?docs) = (\<lambda>i. Some (PStr i)) ` marker_ids False c s"
  proof (intro set_eqI iffI)
    fix v
    assume "v \<in> doc_id ` set (filter ?P ?docs)"
    then obtain d where d: "d \<in> set ?docs" "?P d" "v = doc_id d" by auto
    with assms obtain i where "doc_id d = Some (PStr i)" unfolding outbox_inv_def store_inv_def by blast
    with d match [OF d(1)] show "v \<in> (\<lambda>i. Some (PStr i)) ` marker_ids False c s" by (auto simp: marker_ids_def)
  next
    fix v
    assume "v \<in> (\<lambda>i. Some (PStr i)) ` marker_ids False c s"
    then obtain d where "d \<in> set ?docs" "doc_id d = v" "dict_get d ''es_indexed'' = Some (PBool False)"
      by (auto simp: marker_ids_def)
    with match show "v \<in> doc_id ` set (filter ?P ?docs)" by auto
  qed
  moreover have "card (doc_id ` set (filter ?P ?docs)) = length (filter ?P ?docs)"
    using distinct_card [OF dist] by (simp only: list.set_map length_map)
  ultimately have "card ((\<lambda>i. Some (PStr i)) ` marker_ids False c s) = length (filter ?P ?docs)" by simp
  moreover have "inj (\<lambda>i. Some (PStr i))" by (simp add: inj_def)
  ultimately show "card (marker_ids False c s) = length (filter ?P ?docs)" by (simp add: card_image inj_on_subset)
qed

lemma mongo_fetch_batch:
  assumes "outbox_good c" and inv: "outbox_inv c s" and "0 < n" and "mongo_fetch c n s = (Inr docs, s')"
  shows "\<exists>evs. list_all2 carries evs docs \<and> distinct (map event_id evs) \<and> event_id ` set evs \<subseteq> marker_ids False c s \<and>
    length evs = min n (card (marker_ids False c s))"
proof -
  let ?P = "mongo_matches [(''es_indexed'', PBool False)]" and ?docs = "store_docs (snd c) s COLLECTION"
  let ?q = "\<lparr>fq_filter = [(''es_indexed'', PBool False)], fq_projection = [(''_id'', PInt 0), (''es_indexed'', PInt 0)],
        fq_sort = (''received_at'', 1), fq_skip = 0, fq_limit = n\<rparr>"
  from assms(4) have find: "with_collection COLLECTION (\<lambda>ns. md_find (fst c) ns ?q) s = (Inr docs, s')"
    by (simp add: mongo_fetch_def fetch_unindexed_def)
  obtain ordered where o: "mset ordered = mset (filter ?P ?docs)" "docs = map hide_internal (take n ordered)"
    by (rule find_window [OF _ _ _ find, of "snd c"]) (use assms in \<open>simp_all add: outbox_good_def filter_covered_def hide_internal_def\<close>)
  from inv have "\<forall>d \<in> set ?docs. \<exists>e. \<exists>b. event_doc e b d \<and> event_ok e" by (simp add: outbox_inv_def)
  then obtain ev where ev: "\<forall>d \<in> set ?docs. \<exists>b. event_doc (ev d) b d \<and> event_ok (ev d)" by (rule bchoice [THEN exE])
  have set: "set ordered = set (filter ?P ?docs)" using o(1) by (metis set_mset_mset)
  let ?evs = "map (\<lambda>d. read_back (ev d)) (take n ordered)"
  have sub: "d \<in> set ?docs \<and> ?P d" if "d \<in> set (take n ordered)" for d
    using in_set_takeD [OF that] set by auto
  have ids: "doc_id d = Some (PStr (event_id (ev d)))" if "d \<in> set (take n ordered)" for d
    using sub [OF that] ev event_doc_gets(7) by blast
  have "list_all2 carries ?evs docs"
    unfolding o(2) list_all2_map1 list_all2_map2
    using sub ev event_doc_carries by (simp only: list_all2_same) blast
  moreover have "distinct (map event_id ?evs)"
  proof -
    have "distinct (map doc_id ordered)"
      using unindexed_docs(2) [OF inv] o(1) by (metis mset_eq_imp_distinct_iff mset_map)
    then have "distinct (map doc_id (take n ordered))" by (simp add: take_map [symmetric])
    moreover have "map doc_id (take n ordered) = map (\<lambda>i. Some (PStr i)) (map event_id ?evs)" using ids by simp
    ultimately show ?thesis by (simp only: distinct_map)
  qed
  moreover have "event_id ` set ?evs \<subseteq> marker_ids False c s"
  proof (simp add: image_subset_iff, intro ballI)
    fix d
    assume d: "d \<in> set (take n ordered)"
    show "event_id (ev d) \<in> marker_ids False c s"
      by (rule unindexed_docs(3) [OF inv conjunct1 [OF sub [OF d]] conjunct2 [OF sub [OF d]] ids [OF d]])
  qed
  moreover have "length ordered = card (marker_ids False c s)"
    using arg_cong [OF o(1), of size] unfolding unindexed_docs(1) [OF inv] size_mset .
  ultimately show ?thesis by (intro exI [of _ ?evs]) (simp add: min.commute)
qed

lemma list_all2_right: "list_all2 P xs ys \<Longrightarrow> y \<in> set ys \<Longrightarrow> \<exists>x \<in> set xs. P x y"
  by (induction rule: list_all2_induct) auto

lemma list_all2_left: "list_all2 P xs ys \<Longrightarrow> x \<in> set xs \<Longrightarrow> \<exists>y \<in> set ys. P x y"
  by (induction rule: list_all2_induct) auto

lemma marked_gets: "marked ids d d' \<Longrightarrow> dict_get d' ''es_indexed'' = Some (PBool True) \<and> doc_id d' = doc_id d \<and> (\<exists>i \<in> set ids. doc_id d = Some (PStr i))"
  by (auto simp: marked_def set_fields_def doc_id_def)

lemma mark_markers:
  assumes "outbox_good c" and inv: "outbox_inv c s" and "mongo_mark c ids s = (r, s')"
  shows "outbox_inv c s'" and "marker_ids False c s' \<subseteq> marker_ids False c s"
    and "marker_ids False c s \<subseteq> marker_ids False c s' \<union> set ids" and "marker_ids True c s' \<subseteq> marker_ids True c s \<union> set ids"
    and "r = Inr () \<Longrightarrow> marker_ids False c s' = marker_ids False c s - set ids"
proof -
  from assms have ct: "mongo_contract (fst c) (snd c)" and si: "store_inv (snd c) s" and run: "mark_indexed (fst c) ids s = (r, s')"
    by (simp_all add: outbox_good_def outbox_inv_def mongo_mark_def)
  note eff = mark_indexed_effect [OF ct si run, THEN conjunct2]
  show "outbox_inv c s'"
    unfolding outbox_inv_def
  proof (intro conjI ballI)
    show "store_inv (snd c) s'" by (rule same_idsD(2) [OF mark_indexed_same_ids [OF ct si run] si])
    fix d'
    assume "d' \<in> set (store_docs (snd c) s' COLLECTION)"
    from list_all2_right [OF eff this] obtain d where "d \<in> set (store_docs (snd c) s COLLECTION)" "marked ids d d' \<or> d' = d" by blast
    moreover from this(1) inv obtain e b where "event_doc e b d" "event_ok e" by (auto simp: outbox_inv_def)
    ultimately show "\<exists>e b. event_doc e b d' \<and> event_ok e" using marked_event_doc by blast
  qed
  show sub: "marker_ids False c s' \<subseteq> marker_ids False c s"
  proof
    fix i
    assume "i \<in> marker_ids False c s'"
    then obtain d' where d': "d' \<in> set (store_docs (snd c) s' COLLECTION)" "doc_id d' = Some (PStr i)" "dict_get d' ''es_indexed'' = Some (PBool False)"
      by (auto simp: marker_ids_def)
    from list_all2_right [OF eff d'(1)] obtain d where d: "d \<in> set (store_docs (snd c) s COLLECTION)" "marked ids d d' \<or> d' = d" by blast
    with d'(3) marked_gets [of ids d d'] have "d' = d" by auto
    with d d' show "i \<in> marker_ids False c s" by (auto simp: marker_ids_def)
  qed
  show sup: "marker_ids False c s \<subseteq> marker_ids False c s' \<union> set ids"
  proof
    fix i
    assume "i \<in> marker_ids False c s"
    then obtain d where d: "d \<in> set (store_docs (snd c) s COLLECTION)" "doc_id d = Some (PStr i)" "dict_get d ''es_indexed'' = Some (PBool False)"
      by (auto simp: marker_ids_def)
    from list_all2_left [OF eff d(1)] obtain d' where "d' \<in> set (store_docs (snd c) s' COLLECTION)" "marked ids d d' \<or> d' = d" by blast
    from this(2) show "i \<in> marker_ids False c s' \<union> set ids"
    proof
      assume "marked ids d d'"
      then have "\<exists>j \<in> set ids. doc_id d = Some (PStr j)" using marked_gets by blast
      with d(2) show ?thesis by auto
    next
      assume "d' = d"
      with \<open>d' \<in> _\<close> d show ?thesis by (auto simp: marker_ids_def)
    qed
  qed
  show "marker_ids True c s' \<subseteq> marker_ids True c s \<union> set ids"
  proof
    fix i
    assume "i \<in> marker_ids True c s'"
    then obtain d' where d': "d' \<in> set (store_docs (snd c) s' COLLECTION)" "doc_id d' = Some (PStr i)" "dict_get d' ''es_indexed'' = Some (PBool True)"
      by (auto simp: marker_ids_def)
    from list_all2_right [OF eff d'(1)] obtain d where d: "d \<in> set (store_docs (snd c) s COLLECTION)" "marked ids d d' \<or> d' = d" by blast
    from d(2) show "i \<in> marker_ids True c s \<union> set ids"
    proof
      assume "marked ids d d'"
      then have "\<exists>j \<in> set ids. doc_id d' = Some (PStr j)" using marked_gets [of ids d d'] by simp
      with d'(2) show ?thesis by auto
    next
      assume "d' = d"
      with d(1) d' show ?thesis by (auto simp: marker_ids_def)
    qed
  qed
  show "marker_ids False c s' = marker_ids False c s - set ids" if "r = Inr ()"
  proof -
    have "i \<notin> set ids" if i: "i \<in> marker_ids False c s'" for i
    proof
      assume ids: "i \<in> set ids"
      from i obtain d' where d': "d' \<in> set (store_docs (snd c) s' COLLECTION)" "doc_id d' = Some (PStr i)" "dict_get d' ''es_indexed'' = Some (PBool False)"
        by (auto simp: marker_ids_def)
      from list_all2_right [OF eff d'(1)] obtain d where "marked ids d d' \<or> (\<not> (\<exists>i \<in> set ids. doc_id d = Some (PStr i))) \<and> d' = d"
        using \<open>r = Inr ()\<close> by blast
      then show False
      proof
        assume "marked ids d d'"
        with marked_gets [of ids d d'] d'(3) show False by simp
      next
        assume "(\<not> (\<exists>i \<in> set ids. doc_id d = Some (PStr i))) \<and> d' = d"
        with ids d'(2) show False by blast
      qed
    qed
    with sub sup show ?thesis by blast
  qed
qed

lemma outbox_reads:
  assumes "store_docs (snd c) s' = store_docs (snd c) s"
  shows "outbox_inv c s' \<longleftrightarrow> outbox_inv c s" and "marker_ids b c s' = marker_ids b c s"
  using assms by (simp_all add: outbox_inv_def store_inv_def marker_ids_def)

lemma mongo_fetch_kept:
  assumes "outbox_good c" and "mongo_fetch c n s = (r, s')"
  shows "store_docs (snd c) s' = store_docs (snd c) s"
  using assms(2) unfolding mongo_fetch_def fetch_unindexed_def
  by (rule with_collection_kept [rotated]) (use assms(1) in \<open>simp add: outbox_good_def mongo_contractD\<close>)

interpretation mongo_outbox: outbox outbox_good outbox_inv "marker_ids False" "marker_ids True" mongo_fetch mongo_mark
proof
  fix c :: "'m mongo_ctx" and s s' :: "'m mongo_store" and n r docs ids rm
  show "finite (marker_ids False c s)" by (rule marker_ids_finite)
  assume good: "outbox_good c" and inv: "outbox_inv c s"
  show "outbox_inv c s' \<and> marker_ids False c s' = marker_ids False c s \<and> marker_ids True c s' = marker_ids True c s" if "mongo_fetch c n s = (r, s')"
    using outbox_reads [OF mongo_fetch_kept [OF good that]] inv by simp
  show "\<exists>evs. list_all2 carries evs docs \<and> distinct (map event_id evs) \<and> event_id ` set evs \<subseteq> marker_ids False c s \<and>
        length evs = min n (card (marker_ids False c s))" if "0 < n" "mongo_fetch c n s = (Inr docs, s')"
    by (rule mongo_fetch_batch [OF good inv that])
  show "outbox_inv c s' \<and> marker_ids False c s' \<subseteq> marker_ids False c s \<and> marker_ids False c s \<subseteq> marker_ids False c s' \<union> set ids \<and>
      marker_ids True c s' \<subseteq> marker_ids True c s \<union> set ids"
    if "mongo_mark c ids s = (rm, s')"
    using mark_markers(1-4) [OF good inv that] by blast
  show "marker_ids False c s' = marker_ids False c s - set ids" if "mongo_mark c ids s = (Inr (), s')"
    using mark_markers(5) [OF good inv that] by blast
qed

section \<open>The mirror\<close>

definition es_ids :: "'e es_view \<Rightarrow> 'e es_store \<Rightarrow> string set" where
  "es_ids W x = {i. \<exists>w. es_client x = Some w \<and> W w (es_index x) i \<noteq> None}"

lemma on_es_kept:
  assumes "es_kept W f" and "on_es f x = (r, x')"
  shows "es_ids W x' = es_ids W x" and "es_index x' = es_index x"
  using assms(2) by (cases rule: on_es_cases; use assms(1) in \<open>auto simp: es_ids_def es_kept_def\<close>)+

lemma ensure_mapping_kept:
  assumes "es_contract E W" and "ensure_mapping E x = (r, x')"
  shows "es_ids W x' = es_ids W x" and "es_index x' = es_index x" and "r = Inr () \<Longrightarrow> es_mapping_ready x'"
proof -
  have k: "es_kept W (es_index_exists E ix)" "es_kept W (es_index_create E ix m)" for ix m
    using assms(1) by (simp_all add: es_contract_def)
  have "es_ids W x' = es_ids W x \<and> es_index x' = es_index x \<and> (r = Inr () \<longrightarrow> es_mapping_ready x')"
    using assms(2) unfolding ensure_mapping_def
  proof (cases rule: io_bind_cases)
    case (raised e)
    with on_es_kept [OF k(1) raised(1)] show ?thesis by simp
  next
    case (returned found x1)
    note k1 = on_es_kept [OF k(1) returned(1)]
    have ready: "es_ids W (x2\<lparr>es_mapping_ready := True\<rparr>) = es_ids W x2" for x2 by (simp add: es_ids_def)
    show ?thesis
    proof (cases found)
      case True
      with returned(2) k1 ready show ?thesis by (auto simp: set_ready_def)
    next
      case False
      with returned(2) have "io_bind (on_es (es_index_create E (es_index x) MAPPING)) (\<lambda>_. set_ready) x1 = (r, x')" by simp
      then show ?thesis
      proof (cases rule: io_bind_cases)
        case (raised e)
        with k1 on_es_kept [OF k(2) raised(1)] show ?thesis by simp
      next
        case (returned u x2)
        with k1 on_es_kept [OF k(2) returned(1)] ready show ?thesis by (auto simp: set_ready_def)
      qed
    qed
  qed
  then show "es_ids W x' = es_ids W x" "es_index x' = es_index x" "r = Inr () \<Longrightarrow> es_mapping_ready x'" by simp_all
qed

lemma fold_put_dom: "{i. fold (put_doc ix) acts W ix i \<noteq> None} = fst ` set acts \<union> {i. W ix i \<noteq> None}"
  by (induction acts arbitrary: W) (auto simp: put_doc_def)

definition action_list :: "(event_document \<Rightarrow> pydict) \<Rightarrow> event_document list \<Rightarrow> (string \<times> pydict) list" where
  "action_list dump_json events =
     map (\<lambda>e. (event_id e, dict_set ''metadata_text'' (PStr (metadata_text (metadata e))) (dump_json e))) events"

lemma index_actions: "map (index_action dump_json ix) events = map (\<lambda>(i, src). es_action ix i src) (action_list dump_json events)"
  by (simp add: index_action_def action_list_def)

lemma bulk_call_effect:
  assumes "bulk_contract E W" and "on_es (es_bulk E (map (index_action dump_json (es_index x)) events)) x = (r, x')"
  shows "es_ids W x \<subseteq> es_ids W x'" and "no_item_errors E \<Longrightarrow> r = Inr (n, errs) \<Longrightarrow> event_id ` set events \<subseteq> es_ids W x'"
    and "es_index x' = es_index x"
proof -
  have "es_ids W x \<subseteq> es_ids W x' \<and> (no_item_errors E \<longrightarrow> r = Inr (n, errs) \<longrightarrow> event_id ` set events \<subseteq> es_ids W x') \<and> es_index x' = es_index x"
    using assms(2)
  proof (cases rule: on_es_cases)
    case (call w w')
    let ?acts = "action_list dump_json events"
    note run = call(2) [unfolded index_actions]
    from assms(1) [unfolded bulk_contract_def, THEN spec, THEN spec, THEN spec, THEN spec, THEN spec, THEN mp, OF run]
    obtain sel where sel: "sel \<subseteq> {..<length ?acts}" "W w' = fold (put_doc (es_index x)) (nths ?acts sel) (W w)"
      "\<forall>n errors. r = Inr (n, errors) \<longrightarrow> n = card sel \<and> length errors = length ?acts - card sel" by blast
    have ids: "es_ids W x' = fst ` set (nths ?acts sel) \<union> es_ids W x"
      using fold_put_dom [of "es_index x" "nths ?acts sel" "W w"] by (simp add: es_ids_def call sel(2))
    have "event_id ` set events \<subseteq> es_ids W x'" if "no_item_errors E" "r = Inr (n, errs)"
    proof -
      from that run have "errs = []" unfolding no_item_errors_def by blast
      with sel(3) that(2) have "length ?acts \<le> card sel" by simp
      then have "sel = {..<length ?acts}" using sel(1) by (metis card_lessThan card_seteq finite_lessThan)
      then have "nths ?acts sel = ?acts" by (simp add: nths_all)
      moreover have "event_id ` set events = fst ` set ?acts" by (simp add: action_list_def image_image)
      ultimately show ?thesis by (simp add: ids)
    qed
    with ids call(3) show ?thesis by auto
  qed simp
  then show "es_ids W x \<subseteq> es_ids W x'" "no_item_errors E \<Longrightarrow> r = Inr (n, errs) \<Longrightarrow> event_id ` set events \<subseteq> es_ids W x'"
    "es_index x' = es_index x" by blast+
qed

lemma bulk_index_effect:
  assumes "es_contract E W" and "bulk_index E dump_json events x = (r, x')"
  shows "es_ids W x \<subseteq> es_ids W x'" and "no_item_errors E \<Longrightarrow> r = Inr () \<Longrightarrow> event_id ` set events \<subseteq> es_ids W x'"
proof -
  from assms(1) have bc: "bulk_contract E W" by (simp add: es_contract_def)
  have "es_ids W x \<subseteq> es_ids W x' \<and> (no_item_errors E \<longrightarrow> r = Inr () \<longrightarrow> event_id ` set events \<subseteq> es_ids W x')"
  proof (cases "events = []")
    case True
    with assms(2) show ?thesis by (simp add: bulk_index_def)
  next
    case False
    let ?rest = "\<lambda>_ :: unit. io_bind (on_es (es_bulk E (map (index_action dump_json (es_index x)) events))) (\<lambda>_. io_return ())"
    from False assms(2) have "io_bind (if es_mapping_ready x then io_return () else ensure_mapping E) ?rest x = (r, x')"
      by (simp add: bulk_index_def)
    then show ?thesis
    proof (cases rule: io_bind_cases)
      case (raised e)
      then show ?thesis using ensure_mapping_kept [OF assms(1), of x "Inl e" x'] by (auto split: if_splits)
    next
      case (returned u x1)
      have x1: "es_ids W x1 = es_ids W x" "es_index x1 = es_index x"
        using returned(1) ensure_mapping_kept [OF assms(1), of x "Inr u" x1] by (auto split: if_splits)
      from returned(2) show ?thesis
      proof (cases rule: io_bind_cases)
        case (raised e)
        with bulk_call_effect(1) [OF bc, of dump_json x1 events "Inl e" x'] x1 show ?thesis by simp
      next
        case (returned v x2)
        obtain n errs where v: "v = (n, errs)" by force
        with returned bulk_call_effect(1) [OF bc, of dump_json x1 events "Inr v" x2]
          bulk_call_effect(2) [OF bc, of dump_json x1 events "Inr v" x2 n errs] x1 show ?thesis by auto
      qed
    qed
  qed
  then show "es_ids W x \<subseteq> es_ids W x'" "no_item_errors E \<Longrightarrow> r = Inr () \<Longrightarrow> event_id ` set events \<subseteq> es_ids W x'" by blast+
qed

section \<open>Properties\<close>

lemma mongo_outbox_context:
  "mongo_contract D V \<Longrightarrow> outbox_good (D, V)" "fetch_unindexed D = mongo_fetch (D, V)" "mark_indexed D = mongo_mark (D, V)"
  by (simp_all add: outbox_good_def mongo_fetch_def mongo_mark_def)

text \<open>
  The mirror never runs ahead of Elasticsearch. If the index rejects no document, then after a round of
  \<open>_index_pending\<close>, whatever failed in it, an event has left the outbox only when Elasticsearch holds it,
  every event marked as indexed is in the index if that was so before, and the index lost nothing.
\<close>

theorem indexer_keeps_mirror:
  assumes "mongo_contract D V" and "es_contract E W" and "no_item_errors E" and "pydantic_contract validate"
    and "outbox_inv (D, V) s" and "0 < xi_batch_size k" and mirror: "marker_ids True (D, V) s \<subseteq> es_ids W x"
    and run: "index_pending (fetch_unindexed D) (mark_indexed D) (bulk_index E dump_json) validate (k, s, x) = (r, k', s', x')"
  shows "outbox_inv (D, V) s' \<and> marker_ids True (D, V) s' \<subseteq> es_ids W x' \<and>
    marker_ids False (D, V) s - marker_ids False (D, V) s' \<subseteq> es_ids W x' \<and> es_ids W x \<subseteq> es_ids W x'"
proof (rule mongo_outbox.index_pending_cases [OF mongo_outbox_context(1) [OF assms(1)] assms(5,4,6) run [unfolded mongo_outbox_context(2,3) [of D V]]])
  fix evs
  assume bulk: "bulk_index E dump_json evs x = (Inr (), x')" and inv: "outbox_inv (D, V) s'"
    and sent: "marker_ids True (D, V) s' \<subseteq> marker_ids True (D, V) s \<union> event_id ` set evs"
    and pend: "marker_ids False (D, V) s \<subseteq> marker_ids False (D, V) s' \<union> event_id ` set evs"
  note eff = bulk_index_effect(1) [OF assms(2) bulk] bulk_index_effect(2) [OF assms(2) bulk assms(3) refl]
  with inv sent pend mirror show ?thesis by blast
next
  fix evs e
  assume bulk: "bulk_index E dump_json evs x = (Inl e, x')" and "outbox_inv (D, V) s'"
    "marker_ids True (D, V) s' = marker_ids True (D, V) s" "marker_ids False (D, V) s' = marker_ids False (D, V) s"
  with bulk_index_effect(1) [OF assms(2) bulk] mirror show ?thesis by auto
qed (use mirror in auto)

definition sample_es :: "bool list \<Rightarrow> esm es_store" where
  "sample_es fs = \<lparr>es_url = ''http://es'', es_index = ''events'', es_client = Some (esm_new fs), es_mapping_ready = True\<rparr>"

lemma mem_written_outbox: "outbox_inv (D, mem_view) (mem_written i)"
  by (auto simp: outbox_inv_def mem_written_inv mem_written_docs event_ok_def sample_event_def sample_create_def
      intro!: exI [of _ "sample_event i"] exI [of _ False] mem_written_event_doc [unfolded sample_event_def sample_create_def])

lemma mem_written_markers:
  "marker_ids True (D, mem_view) (mem_written i) = {}" "marker_ids False (D, mem_view) (mem_written i) = {i}"
  by (auto simp: marker_ids_def mem_written_docs doc_id_bson_doc bson_doc_gets to_doc_gets)

theorem indexer_keeps_mirror_witness:
  "marker_ids True (mem_driver True, mem_view) (fst (snd (snd (index_pending (fetch_unindexed (mem_driver True)) (mark_indexed (mem_driver True))
      (bulk_index (esm_driver (\<lambda>_. False) any_leaf) model_dump) strict_validate (new_es_indexer 10 5, mem_written ''a'', sample_es [True]))))) \<subseteq>
   es_ids esm_view (snd (snd (snd (index_pending (fetch_unindexed (mem_driver True)) (mark_indexed (mem_driver True))
      (bulk_index (esm_driver (\<lambda>_. False) any_leaf) model_dump) strict_validate (new_es_indexer 10 5, mem_written ''a'', sample_es [True])))))"
proof -
  let ?run = "index_pending (fetch_unindexed (mem_driver True)) (mark_indexed (mem_driver True))
      (bulk_index (esm_driver (\<lambda>_. False) any_leaf) model_dump) strict_validate (new_es_indexer 10 5, mem_written ''a'', sample_es [True])"
  obtain r k' s' x' where run: "?run = (r, k', s', x')" by (metis prod.exhaust)
  have "marker_ids True (mem_driver True, mem_view) s' \<subseteq> es_ids esm_view x'"
    by (rule indexer_keeps_mirror [OF mem_contract esm_contract esm_no_item_errors strict_validate_contract mem_written_outbox _ _ run,
          THEN conjunct2, THEN conjunct1]) (simp_all add: new_es_indexer_def mem_written_markers)
  then show ?thesis by (simp add: run)
qed

text \<open>
  C11: the backlog drains. The rounds the loop makes without waiting are at most \<open>pending div batch_size\<close>
  and one more, whatever fails and whatever the services answer; and if none of them failed, nothing is
  pending at the end and every pending event was counted exactly once.
\<close>

theorem indexer_drains_backlog:
  assumes "mongo_contract D V" and "pydantic_contract validate" and "outbox_inv (D, V) s" and "0 < xi_batch_size k"
    and "card (marker_ids False (D, V) s) div nat (xi_batch_size k) < fuel"
  shows "\<exists>p k' s' x'. drain fuel (fetch_unindexed D) (mark_indexed D) bulk validate (k, s, x) = Some (p, k', s', x') \<and> p \<noteq> Again \<and>
    ((\<forall>e. p \<noteq> Crash e) \<and> xi_index_failures k' = xi_index_failures k \<longrightarrow>
       marker_ids False (D, V) s' = {} \<and> xi_events_indexed k' = xi_events_indexed k + card (marker_ids False (D, V) s))"
proof -
  note ctx = mongo_outbox_context(1) [OF assms(1)]
  obtain p k' s' x' where run: "drain fuel (mongo_fetch (D, V)) (mongo_mark (D, V)) bulk validate (k, s, x) = Some (p, k', s', x')" "p \<noteq> Again"
    using mongo_outbox.drain_terminates [OF ctx assms(3,2,4,5), of bulk x] by auto
  have "marker_ids False (D, V) s' = {} \<and> xi_events_indexed k' = xi_events_indexed k + card (marker_ids False (D, V) s)"
    if "\<forall>e. p \<noteq> Crash e" "xi_index_failures k' = xi_index_failures k"
    by (rule mongo_outbox.drained_empty [OF ctx assms(3,2,4) run(1) that(2,1)])
  with run show ?thesis unfolding mongo_outbox_context(2,3) [of D V] by blast
qed

theorem indexer_drains_backlog_witness:
  "\<exists>p st'. drain 2 (fetch_unindexed (mem_driver True)) (mark_indexed (mem_driver True)) (bulk_index (esm_driver (\<lambda>_. False) any_leaf) model_dump)
     strict_validate (new_es_indexer 1 5, mem_written ''a'', sample_es []) = Some (p, st') \<and> p \<noteq> Again"
proof -
  have "card (marker_ids False (mem_driver True, mem_view) (mem_written ''a'')) div nat (xi_batch_size (new_es_indexer 1 5)) < 2"
    by (simp add: mem_written_markers new_es_indexer_def)
  from indexer_drains_backlog [OF mem_contract strict_validate_contract mem_written_outbox _ this,
      of "bulk_index (esm_driver (\<lambda>_. False) any_leaf) model_dump" "sample_es []"]
  show ?thesis by (auto simp: new_es_indexer_def)
qed

lemma mem_written_fetch:
  "fetch_unindexed (mem_driver b) (Suc n) (mem_written i) = (Inr [hide_internal (bson_doc (to_doc (sample_event i)))], mem_written i)"
proof -
  have "mongo_matches [(''es_indexed'', PBool False)] (bson_doc (to_doc (sample_event i)))"
    by (simp add: mongo_matches_def bson_doc_gets to_doc_gets)
  then show ?thesis
    by (simp add: fetch_unindexed_def mem_written_call mem_driver_def mem_find_def mem_written_same hide_internal_def)
qed

lemma mem_written_validate: "strict_validate (hide_internal (bson_doc (to_doc (sample_event i)))) = Inr (read_back (sample_event i))"
  using event_doc_carries [OF mem_written_event_doc, of i] pydantic_contractD [OF strict_validate_contract]
  by (simp add: carries_def event_ok_def sample_event_def sample_create_def)

text \<open>
  C37: a rejected document is lost to search. The index may reject single documents (a mapping conflict);
  \<open>async_bulk\<close> then returns, \<open>bulk_index\<close> only logs the errors and the indexer marks the whole batch: the
  event has left the outbox, is counted as indexed, and is not in Elasticsearch, so no later round retries
  it, although the outbox is meant to mark events only once they are indexed.
\<close>

theorem indexer_marks_rejected:
  "\<exists>(D :: mem mongo_driver) V (E :: esm es_driver) W s x k' s' x'.
     mongo_contract D V \<and> es_contract E W \<and> outbox_inv (D, V) s \<and> marker_ids False (D, V) s = {''a''} \<and>
     index_pending (fetch_unindexed D) (mark_indexed D) (bulk_index E model_dump) strict_validate (new_es_indexer 10 5, s, x) =
       (Inr False, k', s', x') \<and>
     marker_ids False (D, V) s' = {} \<and> xi_events_indexed k' = 1 \<and> ''a'' \<notin> es_ids W x'"
proof -
  let ?D = "mem_driver True" and ?V = mem_view and ?s = "mem_written ''a''" and ?k = "new_es_indexer 10 5"
  let ?E = "esm_driver (\<lambda>_. True) any_leaf" and ?x = "sample_es []" and ?e = "read_back (sample_event ''a'')"
  have bulk: "bulk_index ?E model_dump [?e] ?x = (Inr (), ?x)"
    by (simp add: bulk_index_def sample_es_def on_es_def esm_driver_def esm_call_def esm_new_def index_action_def es_action_def io_bind_def)
  obtain rm s' where mk: "mark_indexed ?D [''a''] ?s = (rm, s')" by force
  have rm: "rm = Inr ()"
    using mk by (simp add: mark_indexed_def mem_written_call mem_driver_def mem_update_many_def split: prod.splits)
  have run: "index_pending (fetch_unindexed ?D) (mark_indexed ?D) (bulk_index ?E model_dump) strict_validate (?k, ?s, ?x) =
      (Inr False, ?k\<lparr>xi_events_indexed := 1\<rparr>, s', ?x)"
    using mem_written_fetch [of True 9 "''a''"] mem_written_validate [of "''a''"] bulk mk rm
    by (simp add: index_pending_def new_es_indexer_def eval_nat_numeral)
  have "marker_ids False (?D, ?V) s' = {}"
    using mark_markers(5) [of "(?D, ?V)" ?s "[''a'']" rm s'] mk rm
    by (simp add: mongo_outbox_context(1) [OF mem_contract] mem_written_outbox mongo_mark_def mem_written_markers)
  moreover have "''a'' \<notin> es_ids esm_view ?x" by (simp add: es_ids_def sample_es_def esm_view_def esm_new_def)
  ultimately show ?thesis using run mem_contract [of True] esm_contract [of "\<lambda>_. True" any_leaf] mem_written_outbox [of ?D "''a''"] mem_written_markers(2) [of ?D "''a''"]
    by (intro exI [of _ ?D] exI [of _ ?V] exI [of _ ?E] exI [of _ esm_view] exI [of _ ?s] exI [of _ ?x]
        exI [of _ "?k\<lparr>xi_events_indexed := 1\<rparr>"] exI [of _ s'] exI [of _ ?x]) simp
qed

end
