(* ===== verification/Replay.thy ===== *)
theory Replay
  imports Routes Worker_Pool Es_Indexer
begin

text \<open>
  The replay of a dead letter (\<open>POST /events/dlq/{event_id}/replay\<close>): the event is rewritten to the source of
  truth before its dead letter is deleted, so that no outcome of the two calls loses it.
\<close>

section \<open>The dead letters\<close>

text \<open>What the dead-letter collection holds: stored forms of the DLQ's entries.\<close>

definition dead_letters_inv :: "'m mongo_view \<Rightarrow> 'm mongo_store \<Rightarrow> bool" where
  "dead_letters_inv V s \<longleftrightarrow> store_inv V s \<and>
     (\<forall>d \<in> set (store_docs V s DEAD_LETTER). \<exists>en. event_ok (de_event en) \<and> stored_as (entry_to_doc en) d)"

lemma persist_dead_letters_inv:
  assumes "mongo_contract D V" and "dead_letters_inv V s" and ok: "\<forall>en \<in> set entries. event_ok (de_event en)"
    and "persist_dead_letters D (map entry_to_doc entries) s = (r, s')"
  shows "dead_letters_inv V s'"
  using assms(4)
proof (cases rule: persist_cases)
  case 2
  have ids: "\<forall>d \<in> set (map entry_to_doc entries). \<exists>i. doc_id d = Some (PStr i)" by simp
  have "store_inv V s" using assms(2) by (simp add: dead_letters_inv_def)
  note inv = insert_skipping_inv [OF assms(1) ids 2(2) this]
  from assms(1) ids 2(2) show ?thesis
  proof (rule insert_skipping_news)
    fix news
    assume new: "store_docs V s' DEAD_LETTER = store_docs V s DEAD_LETTER @ news"
      and src: "\<And>n. n \<in> set news \<Longrightarrow> \<exists>d \<in> set (map entry_to_doc entries). stored_as d n"
    have "\<exists>en. event_ok (de_event en) \<and> stored_as (entry_to_doc en) n" if "n \<in> set news" for n
      using src [OF that] ok by auto
    with new inv assms(2) show ?thesis by (auto simp: dead_letters_inv_def)
  qed
qed (use assms(2) in simp)

lemma get_dead_letter_effect:
  assumes "mongo_contract D V" and inv: "store_inv V s" and "get_dead_letter D i s = (r, s')"
  shows "store_docs V s' = store_docs V s"
    and "r = Inr None \<Longrightarrow> i \<notin> stored_ids V s DEAD_LETTER"
    and "r = Inr (Some entry) \<Longrightarrow> \<exists>d \<in> set (store_docs V s DEAD_LETTER). doc_id d = Some (PStr i) \<and> entry = project_out [(''_id'', PInt 0)] d"
proof -
  let ?f = "[(''_id'', PStr i)]" and ?p = "[(''_id'', PInt 0)]"
  have call: "with_collection DEAD_LETTER (\<lambda>ns. md_find_one D ns ?f ?p) s = (r, s')" using assms(3) by (simp add: get_dead_letter_def)
  show kept: "store_docs V s' = store_docs V s"
    by (rule with_collection_kept [OF mongo_contractD(10) [OF assms(1)] call])
  have "(r = Inr None \<longrightarrow> i \<notin> stored_ids V s DEAD_LETTER) \<and>
    (r = Inr (Some entry) \<longrightarrow> (\<exists>d \<in> set (store_docs V s DEAD_LETTER). doc_id d = Some (PStr i) \<and> entry = project_out ?p d))"
    using call
  proof (cases rule: with_collection_cases)
    case (call m m')
    let ?docs = "V m (ms_db_name s, DEAD_LETTER)"
    have docs: "store_docs V s DEAD_LETTER = ?docs" using call by (simp add: store_docs_def)
    have match: "mongo_matches ?f d \<longleftrightarrow> doc_id d = Some (PStr i)" if "d \<in> set ?docs" for d
      using id_matches [OF inv, of d DEAD_LETTER] that by (simp add: docs)
    have cov: "filter_covered ?f" by (simp add: filter_covered_def)
    show ?thesis
    proof (intro conjI impI)
      assume "r = Inr None"
      with mongo_contractD(3) [OF assms(1)] call(2) cov have "filter (mongo_matches ?f) ?docs = []"
        unfolding find_one_contract_def by fastforce
      with match docs show "i \<notin> stored_ids V s DEAD_LETTER" by (auto simp: stored_ids_def filter_empty_conv)
    next
      assume "r = Inr (Some entry)"
      with mongo_contractD(3) [OF assms(1)] call(2) cov have "\<exists>d0 \<in> set ?docs. mongo_matches ?f d0 \<and> entry = project_out ?p d0"
        unfolding find_one_contract_def by fastforce
      with match docs show "\<exists>d \<in> set (store_docs V s DEAD_LETTER). doc_id d = Some (PStr i) \<and> entry = project_out ?p d" by auto
    qed
  qed simp
  then show "r = Inr None \<Longrightarrow> i \<notin> stored_ids V s DEAD_LETTER"
    "r = Inr (Some entry) \<Longrightarrow> \<exists>d \<in> set (store_docs V s DEAD_LETTER). doc_id d = Some (PStr i) \<and> entry = project_out ?p d"
    by simp_all
qed

text \<open>A stored dead letter validates to the event it was written for, with stored dates.\<close>

lemma entry_event_stored:
  assumes M: "pydantic_contract (mo_event M)" and ok: "event_ok (de_event en)" and d: "stored_as (entry_to_doc en) d"
  shows "entry_event M (project_out [(''_id'', PInt 0)] d) = Inr (read_back (de_event en))"
proof -
  let ?ev = "map (\<lambda>kv. (fst kv, bson (snd kv))) (model_dump (de_event en))"
  have "dict_get (project_out [(''_id'', PInt 0)] d) ''event'' = Some (PDict ?ev)"
    using d by (simp add: dict_get_project_out stored_as_def entry_to_doc_def)
  moreover have "mo_event M ?ev = Inr (read_back (de_event en))"
    using ok by (intro pydantic_contractD [OF M])
      (auto simp: read_back_def event_ok_def document_fields_def model_dump_def dump_create_def)
  ultimately show ?thesis by (simp add: entry_event_def)
qed

lemma stored_entry_id: "stored_as (entry_to_doc en) d \<Longrightarrow> doc_id d = Some (PStr i) \<Longrightarrow> event_id (de_event en) = i"
  by (auto simp: stored_as_def doc_id_def entry_to_doc_def entry_id_def)

section \<open>The handler\<close>

lemma redrive_cases:
  assumes "redrive D M i s = (r, s')"
  obtains (failed) e where "get_dead_letter D i s = (Inl e, s')" "r = Inl e"
    | (absent) "get_dead_letter D i s = (Inr None, s')" "r = Inl (HTTPExc 404 ''No dead-lettered event with that id'')"
    | (invalid) entry e where "get_dead_letter D i s = (Inr (Some entry), s')" "entry_event M entry = Inl e" "r = Inl e"
    | (refused) entry s1 doc e where "get_dead_letter D i s = (Inr (Some entry), s1)" "entry_event M entry = Inr doc"
      "bulk_write D [doc] s1 = (Inl e, s')" "r = Inl e"
    | (written) entry s1 doc s2 x where "get_dead_letter D i s = (Inr (Some entry), s1)" "entry_event M entry = Inr doc"
      "bulk_write D [doc] s1 = (Inr (), s2)" "delete_dead_letter D i s2 = (x, s')"
      "r = (case x of Inl e \<Rightarrow> Inl e | Inr _ \<Rightarrow> Inr ())"
proof -
  obtain g s1 where g: "get_dead_letter D i s = (g, s1)" by (metis surj_pair)
  show thesis
  proof (cases g)
    case (Inl e)
    with g assms show thesis by (intro failed [of e]) (auto simp: redrive_def io_bind_def)
  next
    case (Inr found)
    show thesis
    proof (cases found)
      case None
      with g Inr assms show thesis by (intro absent) (auto simp: redrive_def io_bind_def)
    next
      case (Some entry)
      show thesis
      proof (cases "entry_event M entry")
        case (Inl e)
        with g Inr Some assms show thesis by (intro invalid [of entry e]) (auto simp: redrive_def io_bind_def io_of_def)
      next
        case doc: (Inr doc)
        obtain y s2 where y: "bulk_write D [doc] s1 = (y, s2)" by (metis surj_pair)
        obtain x s3 where x: "delete_dead_letter D i s2 = (x, s3)" by (metis surj_pair)
        show thesis
        proof (cases y)
          case (Inl e)
          with g Inr Some doc y assms show thesis
            by (intro refused [of entry s1 doc e]) (auto simp: redrive_def io_bind_def io_of_def)
        next
          case ok: (Inr u)
          with g Inr Some doc y x assms show thesis
            by (intro written [of entry s1 doc s2 x]) (auto simp: redrive_def io_bind_def io_of_def split: sum.splits)
        qed
      qed
    qed
  qed
qed

lemma replay_result:
  assumes "replay_dead_letter D M i s = (r, s')"
  obtains r0 where "redrive D M i s = (r0, s')" "r0 = Inr () \<longleftrightarrow> (\<exists>resp. r = Inr resp)"
    "\<And>resp. r = Inr resp \<Longrightarrow> resp = \<lparr>rp_event_id = i, rp_status = ''replayed''\<rparr>"
    "\<And>d. r = Inl (HTTPExc 404 d) \<Longrightarrow> r0 = Inl (HTTPExc 404 d)"
  using assms by (cases "redrive D M i s")
    (auto simp: replay_dead_letter_def io_bind_def io_catch_def split: sum.splits if_splits)

text \<open>The dead letter found holds an event with that id.\<close>

lemma dead_letter_found:
  assumes ct: "mongo_contract D V" and inv: "dead_letters_inv V s" and M: "pydantic_contract (mo_event M)"
    and call: "get_dead_letter D i s = (Inr (Some entry), s1)"
  shows "\<exists>en :: dlq_entry. event_ok (de_event en) \<and> entry_event M entry = Inr (read_back (de_event en)) \<and>
    event_id (de_event en) = i \<and> i \<in> stored_ids V s DEAD_LETTER"
proof -
  have sinv: "store_inv V s" using inv by (simp add: dead_letters_inv_def)
  obtain d where d: "d \<in> set (store_docs V s DEAD_LETTER)" "doc_id d = Some (PStr i)" "entry = project_out [(''_id'', PInt 0)] d"
    using get_dead_letter_effect(3) [OF ct sinv call refl] by blast
  then obtain en where en: "event_ok (de_event en)" "stored_as (entry_to_doc en) d" using inv by (auto simp: dead_letters_inv_def)
  have "i \<in> stored_ids V s DEAD_LETTER" using d by (auto simp: stored_ids_def image_iff intro!: bexI [of _ d])
  with en(1) entry_event_stored [OF M en] stored_entry_id [OF en(2) d(2)] d(3) show ?thesis by (intro exI [of _ en]) simp
qed

text \<open>What a replay does to the documents of the collections: an event may be added, its dead letter may go.\<close>

definition replay_effect :: "'m mongo_view \<Rightarrow> string \<Rightarrow> 'm mongo_store \<Rightarrow> 'm mongo_store \<Rightarrow> bool" where
  "replay_effect V i s s' \<longleftrightarrow>
     (\<exists>news. store_docs V s' COLLECTION = store_docs V s COLLECTION @ news \<and> (\<forall>n \<in> set news. doc_id n = Some (PStr i))) \<and>
     (store_docs V s' DEAD_LETTER = store_docs V s DEAD_LETTER \<or>
      store_docs V s' DEAD_LETTER = filter (\<lambda>d. doc_id d \<noteq> Some (PStr i)) (store_docs V s DEAD_LETTER)) \<and>
     (\<forall>c. c \<noteq> COLLECTION \<and> c \<noteq> DEAD_LETTER \<longrightarrow> store_docs V s' c = store_docs V s c)"

lemma replay_effect_kept: "store_docs V s' = store_docs V s \<Longrightarrow> replay_effect V i s s'"
  by (simp add: replay_effect_def)

lemma redrive_docs:
  assumes ct: "mongo_contract D V" and inv: "dead_letters_inv V s"
    and M: "pydantic_contract (mo_event M)" and run: "redrive D M i s = (r, s')"
  shows "replay_effect V i s s'"
proof -
  have sinv: "store_inv V s" using inv by (simp add: dead_letters_inv_def)
  note got = get_dead_letter_effect(1) [OF ct sinv]
  have wrote: "store_inv V s2 \<and> (\<forall>c. c \<noteq> COLLECTION \<longrightarrow> store_docs V s2 c = store_docs V s c) \<and>
      (\<exists>news. store_docs V s2 COLLECTION = store_docs V s COLLECTION @ news \<and> (\<forall>n \<in> set news. doc_id n = Some (PStr i)))"
    if get: "get_dead_letter D i s = (Inr (Some entry), s1)" and ev: "entry_event M entry = Inr doc"
      and wr: "bulk_write D [doc] s1 = (y, s2)" for entry s1 doc y s2
  proof -
    from dead_letter_found [OF ct inv M get] ev have i: "event_id doc = i" by auto
    have "store_inv V s1" using got [OF get] sinv by (simp add: store_inv_def)
    from bulk_write_effect [OF ct this wr] have inv2: "store_inv V s2"
      and other: "\<forall>c. c \<noteq> COLLECTION \<longrightarrow> store_docs V s2 c = store_docs V s1 c"
      and news: "\<exists>news. store_docs V s2 COLLECTION = store_docs V s1 COLLECTION @ news \<and> (\<forall>n \<in> set news. stored_as (to_doc doc) n)" by auto
    have "stored_as (to_doc doc) n \<Longrightarrow> doc_id n = Some (PStr i)" for n
      using i by (auto simp: stored_as_def doc_id_def to_doc_gets)
    with inv2 other news got [OF get] show ?thesis by auto
  qed
  from run show ?thesis
  proof (cases rule: redrive_cases)
    case (refused entry s1 doc e)
    from wrote [OF refused(1-3)] show ?thesis by (simp add: replay_effect_def)
  next
    case (written entry s1 doc s2 x)
    note w = wrote [OF written(1-3)]
    from delete_dead_letter_effect [OF ct w [THEN conjunct1] written(4)] w show ?thesis by (auto simp: replay_effect_def)
  qed (use got in \<open>auto intro: replay_effect_kept\<close>)
qed

text \<open>What a replay does to the ids of the two collections.\<close>

lemma redrive_ids:
  assumes ct: "mongo_contract D V" and dup: "only_duplicate_errors D" and inv: "dead_letters_inv V s"
    and M: "pydantic_contract (mo_event M)" and run: "redrive D M i s = (r, s')"
  shows "stored_ids V s COLLECTION \<subseteq> stored_ids V s' COLLECTION \<and>
    stored_ids V s DEAD_LETTER - {i} \<subseteq> stored_ids V s' DEAD_LETTER \<and>
    (i \<in> stored_ids V s DEAD_LETTER \<longrightarrow> i \<in> stored_ids V s' DEAD_LETTER \<union> stored_ids V s' COLLECTION) \<and>
    (r = Inr () \<longrightarrow> i \<in> stored_ids V s DEAD_LETTER \<and> i \<in> stored_ids V s' COLLECTION \<and> i \<notin> stored_ids V s' DEAD_LETTER) \<and>
    (\<forall>d. r = Inl (HTTPExc 404 d) \<and> get_dead_letter D i s = (Inr None, s') \<longrightarrow> i \<notin> stored_ids V s DEAD_LETTER)"
proof -
  have sinv: "store_inv V s" using inv by (simp add: dead_letters_inv_def)
  note got = get_dead_letter_effect [OF ct sinv]
  note found = dead_letter_found [OF ct inv M]
  have kept: "stored_ids V s1 c = stored_ids V s c" "store_inv V s1" if "get_dead_letter D i s = (y, s1)" for y s1 c
    using got(1) [OF that] sinv by (simp_all add: stored_ids_def store_inv_def)
  have grown: "stored_ids V s1 c \<subseteq> stored_ids V s2 c" if "bulk_write D [doc] s1 = (y, s2)" for doc s1 y s2 c
    using that stored_ids_mono [OF ct bulk_docs_string_ids] by (cases rule: bulk_write_cases) (simp_all del: bulk_docs_single)
  from run show ?thesis
  proof (cases rule: redrive_cases)
    case (failed e)
    with kept got(2) show ?thesis by auto
  next
    case absent
    with kept got(2) show ?thesis by auto
  next
    case (invalid entry e)
    with kept found show ?thesis by fastforce
  next
    case (refused entry s1 doc e)
    from kept [OF refused(1)] grown [OF refused(3)] have "\<And>c. stored_ids V s c \<subseteq> stored_ids V s' c" by blast
    with refused show ?thesis by auto
  next
    case (written entry s1 doc s2 x)
    from found [OF written(1)] written(2) have i: "event_id doc = i" "i \<in> stored_ids V s DEAD_LETTER" by auto
    have sub: "\<And>c. stored_ids V s c \<subseteq> stored_ids V s2 c" using kept [OF written(1)] grown [OF written(3)] by blast
    have st: "i \<in> stored_ids V s2 COLLECTION"
      using bulk_write_event_ids [OF ct dup written(3)] i by (auto simp: event_ids_of_def)
    have inv2: "store_inv V s2"
      using written(3) kept(2) [OF written(1)] insert_skipping_inv [OF ct bulk_docs_string_ids]
      by (cases rule: bulk_write_cases) (simp_all del: bulk_docs_single)
    note del = delete_dead_letter_effect [OF ct inv2 written(4)]
    have col: "stored_ids V s' COLLECTION = stored_ids V s2 COLLECTION" using del by (simp add: stored_ids_def)
    have dead: "stored_ids V s2 DEAD_LETTER - {i} \<subseteq> stored_ids V s' DEAD_LETTER"
      using delete_dead_letter_ids(3) [OF ct inv2 written(4)] by blast
    from del have gone: "r = Inr () \<longrightarrow> i \<notin> stored_ids V s' DEAD_LETTER" using written(5) by (auto split: sum.splits)
    have sub2: "stored_ids V s COLLECTION \<subseteq> stored_ids V s' COLLECTION" using sub col by simp
    have "stored_ids V s DEAD_LETTER - {i} \<subseteq> stored_ids V s' DEAD_LETTER" using sub [of DEAD_LETTER] dead by blast
    with sub2 gone st col i written(1) show ?thesis by auto
  qed
qed

section \<open>Properties\<close>

text \<open>
  C9: a replay never loses an event, whatever Mongo answers to its three calls. If the event's id was
  dead-lettered, it is afterwards dead-lettered or stored; \<open>replayed\<close> is only answered for an id that was
  dead-lettered, and then the event is stored and its dead letter gone. Every stored event keeps its document
  (also its \<open>es_indexed\<close> mark), every other dead letter its, and the other collections stay as they are: at
  most an event with that id is added and a dead letter with that id removed. So retrying a failed replay is safe. (The server refuses documents for duplicate ids only.)
\<close>

theorem replay_never_loses:
  assumes "mongo_contract D V" and "only_duplicate_errors D" and "dead_letters_inv V s"
    and "pydantic_contract (mo_event M)" and run: "replay_dead_letter D M i s = (r, s')"
  shows "(i \<in> stored_ids V s DEAD_LETTER \<longrightarrow> i \<in> stored_ids V s' DEAD_LETTER \<union> stored_ids V s' COLLECTION) \<and>
    (\<forall>resp. r = Inr resp \<longrightarrow> resp = \<lparr>rp_event_id = i, rp_status = ''replayed''\<rparr> \<and> i \<in> stored_ids V s DEAD_LETTER \<and>
       i \<in> stored_ids V s' COLLECTION \<and> i \<notin> stored_ids V s' DEAD_LETTER) \<and>
    stored_ids V s DEAD_LETTER - {i} \<subseteq> stored_ids V s' DEAD_LETTER \<and>
    stored_ids V s COLLECTION \<subseteq> stored_ids V s' COLLECTION \<and>
    (\<exists>news. store_docs V s' COLLECTION = store_docs V s COLLECTION @ news \<and> (\<forall>n \<in> set news. doc_id n = Some (PStr i))) \<and>
    (store_docs V s' DEAD_LETTER = store_docs V s DEAD_LETTER \<or>
     store_docs V s' DEAD_LETTER = filter (\<lambda>d. doc_id d \<noteq> Some (PStr i)) (store_docs V s DEAD_LETTER)) \<and>
    (\<forall>c. c \<noteq> COLLECTION \<and> c \<noteq> DEAD_LETTER \<longrightarrow> store_docs V s' c = store_docs V s c)"
  using run
proof (rule replay_result)
  fix r0
  assume r0: "redrive D M i s = (r0, s')" "r0 = Inr () \<longleftrightarrow> (\<exists>resp. r = Inr resp)"
    "\<And>resp. r = Inr resp \<Longrightarrow> resp = \<lparr>rp_event_id = i, rp_status = ''replayed''\<rparr>"
  from redrive_ids [OF assms(1-4) r0(1)] redrive_docs [OF assms(1,3,4) r0(1)] r0(2,3) show ?thesis
    unfolding replay_effect_def by simp
qed

definition sample_entry :: "string \<Rightarrow> dlq_entry" where
  "sample_entry i = \<lparr>de_event = sample_event i, de_reason = ''down'', de_failed_at = utc_datetime 9000\<rparr>"

definition mem_dead :: "fault list \<Rightarrow> mem mongo_store" where
  "mem_dead fs = (mem_store [])\<lparr>ms_client := Some
     ((mem_new fs)\<lparr>mm_docs := (\<lambda>_. [])((''db'', DEAD_LETTER) := [bson_doc (entry_to_doc (sample_entry ''a''))])\<rparr>)\<rparr>"

lemma mem_dead_docs: "store_docs mem_view (mem_dead fs) c = (if c = DEAD_LETTER then [bson_doc (entry_to_doc (sample_entry ''a''))] else [])"
  by (simp add: store_docs_def mem_dead_def mem_store_def mem_view_def mem_new_def)

lemma mem_dead_inv: "dead_letters_inv mem_view (mem_dead fs)"
proof -
  have "event_ok (de_event (sample_entry ''a''))"
    by (simp add: sample_entry_def sample_event_def event_ok_def sample_create_def)
  then have "\<exists>en. event_ok (de_event en) \<and> stored_as (entry_to_doc en) (bson_doc (entry_to_doc (sample_entry ''a'')))" by auto
  then show ?thesis by (simp add: dead_letters_inv_def store_inv_def mem_dead_docs doc_id_bson_doc)
qed

lemma mem_dead_ids: "stored_ids mem_view (mem_dead fs) DEAD_LETTER = {''a''}"
  by (auto simp: stored_ids_def mem_dead_docs doc_id_bson_doc entry_id_def sample_entry_def)

theorem replay_never_loses_witness:
  "''a'' \<in> stored_ids mem_view (snd (replay_dead_letter (mem_driver True) strict_models ''a'' (mem_dead [NoFault, NoFault, Fail (PyMongoErr ''down'')]))) DEAD_LETTER \<union>
     stored_ids mem_view (snd (replay_dead_letter (mem_driver True) strict_models ''a'' (mem_dead [NoFault, NoFault, Fail (PyMongoErr ''down'')]))) COLLECTION"
proof -
  have "pydantic_contract (mo_event strict_models)" by (simp add: strict_models_def strict_validate_contract)
  from replay_never_loses [OF mem_contract mem_only_duplicates mem_dead_inv this prod.collapse [symmetric], THEN conjunct1] mem_dead_ids
  show ?thesis by blast
qed

text \<open>
  The assumption on refusals is needed: when the server refuses the document for another reason,
  \<open>bulk_write\<close> returns normally, and the dead letter is deleted although the event is not stored.
\<close>

lemma replay_silent_loss:
  "\<exists>s'. replay_dead_letter (mem_driver False) strict_models ''a'' (mem_dead [NoFault, Refuse 0 121]) =
      (Inr \<lparr>rp_event_id = ''a'', rp_status = ''replayed''\<rparr>, s') \<and>
    ''a'' \<notin> stored_ids mem_view s' DEAD_LETTER \<union> stored_ids mem_view s' COLLECTION"
proof -
  let ?e = "read_back (sample_event ''a'')" and ?d = "bson_doc (entry_to_doc (sample_entry ''a''))"
  let ?w = "\<lambda>fs docs. (mem_new fs)\<lparr>mm_docs := (\<lambda>_. [])((''db'', DEAD_LETTER) := docs)\<rparr>"
  have id: "doc_id ?d = Some (PStr ''a'')" by (simp add: doc_id_bson_doc entry_id_def sample_entry_def)
  then have match: "mongo_matches [(''_id'', PStr ''a'')] ?d" by (simp add: mongo_matches_def doc_id_def)
  have enc: "list_all (\<lambda>kv. bson_ok (snd kv)) (to_doc ?e)"
    by (simp add: to_doc_def model_dump_def dump_create_def read_back_def sample_event_def sample_create_def)
  have get: "get_dead_letter (mem_driver False) ''a'' (mem_dead [NoFault, Refuse 0 121]) =
      (Inr (Some (project_out [(''_id'', PInt 0)] ?d)), mem_dead [Refuse 0 121])"
    using match by (simp add: get_dead_letter_def with_collection_def on_client_def mem_dead_def mem_store_def mem_driver_def mem_find_one_def
        guarded_def next_fault_def mem_new_def Let_def)
  have "entry_event strict_models (project_out [(''_id'', PInt 0)] ?d) = Inr (read_back (de_event (sample_entry ''a'')))"
    by (rule entry_event_stored) (simp_all add: strict_models_def strict_validate_contract sample_entry_def sample_event_def event_ok_def sample_create_def)
  then have ev: "entry_event strict_models (project_out [(''_id'', PInt 0)] ?d) = Inr ?e" by (simp add: sample_entry_def)
  have "md_insert_many (mem_driver False) (''db'', COLLECTION) [to_doc ?e] False (?w [Refuse 0 121] [?d]) =
      (Inl (BulkWriteErr [(0, 121)]), ?w [] [?d])"
    using enc by (simp add: mem_driver_def mem_insert_def guarded_def next_fault_def mem_new_def Let_def fun_upd_idem)
  then have wr: "bulk_write (mem_driver False) [?e] (mem_dead [Refuse 0 121]) = (Inr (), mem_dead [])"
    by (simp add: bulk_write_insert insert_skipping_connected [where m = "?w [Refuse 0 121] [?d]"] mem_dead_def mem_store_def)
  have del: "delete_dead_letter (mem_driver False) ''a'' (mem_dead []) = (Inr True, (mem_dead [])\<lparr>ms_client := Some (?w [] [])\<rparr>)"
    using match by (simp add: delete_dead_letter_def io_bind_def with_collection_def on_client_def mem_dead_def mem_store_def mem_driver_def
        mem_delete_one_def Let_def)
  have "replay_dead_letter (mem_driver False) strict_models ''a'' (mem_dead [NoFault, Refuse 0 121]) =
      (Inr \<lparr>rp_event_id = ''a'', rp_status = ''replayed''\<rparr>, (mem_dead [])\<lparr>ms_client := Some (?w [] [])\<rparr>)"
    by (simp add: replay_dead_letter_def redrive_def io_bind_def io_catch_def io_of_def get ev wr del)
  moreover have "stored_ids mem_view ((mem_dead [])\<lparr>ms_client := Some (?w [] [])\<rparr>) c = {}" for c
    by (simp add: stored_ids_def store_docs_def mem_view_def mem_new_def)
  ultimately show ?thesis by simp
qed

end
