(* ===== verification/Typed_Runs.thy ===== *)
theory Typed_Runs
  imports Pipeline_Mongo Replay
begin

text \<open>
  Type soundness of what the pipeline stores. The code reads its own documents back through
  \<open>EventDocument(**d)\<close> in the indexer, the listing and the replay; here every event the pipeline holds satisfies
  the constraints of \<open>EventCreate\<close>, and so every document it leaves in Mongo validates.
\<close>

section \<open>Typed states\<close>

fun snapshot :: "task \<Rightarrow> dlq_entry list" where
  "snapshot (Pushing _ p) = p"
| "snapshot _ = []"

definition task_typed :: "task \<Rightarrow> bool" where
  "task_typed t \<longleftrightarrow> (\<forall>e \<in> set (in_flight t). event_ok e) \<and> (\<forall>en \<in> set (snapshot t). event_ok (de_event en))"

definition typed :: "'s pipeline \<Rightarrow> bool" where
  "typed st \<longleftrightarrow> (\<forall>e \<in> set (q_items (pl_queue st)). event_ok e) \<and> (\<forall>t \<in> set (pl_tasks st). task_typed t) \<and>
     (\<forall>en \<in> set (dq_unpersisted (pl_dlq st)). event_ok (de_event en))"

lemma task_typed_simps [simp]:
  "task_typed Idle" "task_typed Finished" "task_typed (Died e)"
  "task_typed (Writing b a) \<longleftrightarrow> (\<forall>e \<in> set b. event_ok e)" "task_typed (Sleeping b a) \<longleftrightarrow> (\<forall>e \<in> set b. event_ok e)"
  "task_typed (Pushing b p) \<longleftrightarrow> (\<forall>e \<in> set b. event_ok e) \<and> (\<forall>en \<in> set p. event_ok (de_event en))"
  by (simp_all add: task_typed_def)

lemma typed_task: "typed st \<Longrightarrow> i < length (pl_tasks st) \<Longrightarrow> task_typed (pl_tasks st ! i)"
  by (simp add: typed_def)

lemma typed_set_task [intro]: "typed st \<Longrightarrow> task_typed t \<Longrightarrow> typed (set_task i t st)"
  using set_update_subset_insert [of "pl_tasks st" i t] by (auto simp: typed_def)

lemma typed_fields [simp]:
  "typed (st\<lparr>pl_store := s\<rparr>) = typed st" "typed (st\<lparr>pl_pool := p\<rparr>) = typed st"
  by (simp_all add: typed_def)

lemma typed_acknowledge [intro]:
  assumes "typed st" and "t = Idle \<or> (\<exists>e. t = Died e)"
  shows "typed (acknowledge i b t st)"
proof (rule acknowledge_shape [of i b t st])
  fix t' q
  assume "acknowledge i b t st = set_task i t' (set_queue q st)" "t' = t \<or> (\<exists>e. t' = Died e)" "q_items q = q_items (pl_queue st)"
  moreover from this assms(1) have "typed (set_queue q st)" by (simp add: typed_def)
  ultimately show ?thesis using assms(2) by auto
qed

lemma typed_entries: "\<forall>e \<in> set b. event_ok e \<Longrightarrow> \<forall>en \<in> set (dlq_entries clock b reason). event_ok (de_event en)"
  by (auto simp: dlq_entries_def in_set_enumerate_eq)

section \<open>The interface\<close>

text \<open>A store in which documents written from typed events stay typed (\<open>shaped\<close>), whoever uses it.\<close>

locale typed_store =
  fixes good :: "'c \<Rightarrow> bool" and shaped :: "'c \<Rightarrow> 's \<Rightarrow> bool" and wr :: "'c \<Rightarrow> event_document list \<Rightarrow> ('s, unit) io"
    and persist :: "'c \<Rightarrow> pydict list \<Rightarrow> ('s, unit) io" and others :: "'c \<Rightarrow> 's \<Rightarrow> 's \<Rightarrow> bool"
  assumes wr_shaped: "good c \<Longrightarrow> shaped c s \<Longrightarrow> \<forall>e \<in> set b. event_ok e \<Longrightarrow> wr c b s = (r, s') \<Longrightarrow> shaped c s'"
    and persist_shaped: "good c \<Longrightarrow> shaped c s \<Longrightarrow> \<forall>en \<in> set p. event_ok (de_event en) \<Longrightarrow>
      persist c (map entry_to_doc p) s = (r, s') \<Longrightarrow> shaped c s'"
    and others_shaped: "good c \<Longrightarrow> shaped c s \<Longrightarrow> others c s s' \<Longrightarrow> shaped c s'"
begin

lemma worker_step_typed:
  assumes "good c" and "worker_step (wr c) (persist c) exn_str st st'" and "typed st" and "shaped c (pl_store st)"
  shows "typed st' \<and> shaped c (pl_store st')"
  using assms(2)
proof (cases rule: worker_step.cases)
  case (taking i)
  from taking(3) show ?thesis
  proof (cases rule: take_step_cases)
    case leave
    with assms show ?thesis by auto
  next
    case (batch b rest)
    with assms(3) have b: "\<forall>e \<in> set b. event_ok e" and st1: "typed (set_queue ((pl_queue st)\<lparr>q_items := rest\<rparr>) st)"
      by (auto simp: typed_def)
    with assms(4) show ?thesis unfolding batch(3) begin_batch_def by auto
  qed
next
  case (writing i b a clock f)
  have b: "\<forall>e \<in> set b. event_ok e" using typed_task [OF assms(3) writing(2)] writing(3) by simp
  obtain r s where call: "wr c b (pl_store st) = (r, s)" by (metis surj_pair)
  have buf: "typed (st\<lparr>pl_store := s', pl_dlq := (pl_dlq st)\<lparr>dq_recorded := m\<rparr>\<rparr>)" for m s' using assms(3) by (simp add: typed_def)
  have push: "task_typed (Pushing b (dq_unpersisted (pl_dlq st) @ dlq_entries clock b reason))" for reason
    using b typed_entries [OF b] assms(3) by (auto simp: typed_def)
  from wr_shaped [OF assms(1,4) b call] call b assms(3) buf push show ?thesis unfolding writing(1)
    by (auto simp: write_step_def push_begin_def Let_def split: sum.splits)
next
  case (waking i b a)
  with typed_task [OF assms(3) waking(2)] assms(3,4) show ?thesis by auto
next
  case (pushing i b p)
  have p: "\<forall>en \<in> set p. event_ok (de_event en)" using typed_task [OF assms(3) pushing(2)] pushing(3) by simp
  obtain r s where call: "persist c (map entry_to_doc p) (pl_store st) = (r, s)" by (metis surj_pair)
  obtain r' q where pe: "push_end r p (pl_dlq st) = (r', q)" by (metis surj_pair)
  have "typed (st\<lparr>pl_dlq := q, pl_store := s\<rparr>)"
    using pe assms(3) p by (auto simp: typed_def push_end_def split: sum.splits if_splits)
  with persist_shaped [OF assms(1,4) p call] call pe show ?thesis unfolding pushing(1) push_step_def
    by (auto split: sum.split)
qed

lemma env_step_typed:
  assumes "good c" and "env_step (others c) st st'" and "typed st" and "shaped c (pl_store st)"
  shows "typed st' \<and> shaped c (pl_store st')"
  using assms(2)
proof (cases rule: env_step.cases)
  case (accepted entropy now ev k doc svc)
  note i = ingest_Inr [OF accepted(2)]
  have "event_ok doc" using accepted(3) i(3) by (simp add: event_ok_def)
  with assms(3,4) i(4) accepted(1) show ?thesis by (auto simp: typed_def)
next
  case (rejected entropy now ev k e svc)
  then have "q_items (is_queue svc) = q_items (pl_queue st)"
    by (auto simp: ingest_def put_nowait_def Let_def split: if_splits)
  with rejected assms(3,4) show ?thesis by (simp add: typed_def)
next
  case (other_user s)
  with assms(3,4) others_shaped [OF assms(1,4)] show ?thesis by simp
qed (use assms(3,4) in \<open>simp_all add: typed_def stop_accepting_def\<close>)

lemma run_typed:
  assumes "good c" and "(pipeline_step (wr c) (persist c) exn_str (others c))\<^sup>*\<^sup>* st st'" and "typed st" and "shaped c (pl_store st)"
  shows "typed st' \<and> shaped c (pl_store st')"
  using assms(2)
proof (induction rule: rtranclp_induct)
  case (step st1 st2)
  then show ?case using worker_step_typed [OF assms(1)] env_step_typed [OF assms(1)] unfolding pipeline_step_def by blast
qed (use assms(3,4) in simp)

end

section \<open>The Mongo store is typed\<close>

definition mongo_shaped :: "'m mongo_ctx \<Rightarrow> 'm mongo_store \<Rightarrow> bool" where
  "mongo_shaped c s \<longleftrightarrow> outbox_inv c s \<and> dead_letters_inv (snd c) s"

definition event_shaped :: "pydict \<Rightarrow> bool" where
  "event_shaped d \<longleftrightarrow> (\<exists>e b. event_doc e b d \<and> event_ok e)"

definition entry_shaped :: "pydict \<Rightarrow> bool" where
  "entry_shaped d \<longleftrightarrow> (\<exists>en. event_ok (de_event en) \<and> stored_as (entry_to_doc en) d)"

lemma mongo_shaped_iff:
  "mongo_shaped c s \<longleftrightarrow> store_inv (snd c) s \<and> (\<forall>d \<in> set (store_docs (snd c) s COLLECTION). event_shaped d) \<and>
     (\<forall>d \<in> set (store_docs (snd c) s DEAD_LETTER). entry_shaped d)"
  by (auto simp: mongo_shaped_def outbox_inv_def dead_letters_inv_def event_shaped_def entry_shaped_def)

lemma mongo_shaped_inv: "mongo_shaped c s \<Longrightarrow> store_inv (snd c) s"
  by (simp add: mongo_shaped_iff)

text \<open>An operation keeps the shape when what it adds has the shape.\<close>

lemma mongo_shaped_step:
  assumes "mongo_shaped c s" and "store_inv (snd c) s'"
    and "set (store_docs (snd c) s' COLLECTION) \<subseteq> set (store_docs (snd c) s COLLECTION) \<union> Collect event_shaped"
    and "set (store_docs (snd c) s' DEAD_LETTER) \<subseteq> set (store_docs (snd c) s DEAD_LETTER) \<union> Collect entry_shaped"
  shows "mongo_shaped c s'"
  using assms unfolding mongo_shaped_iff by blast

lemma mongo_write_shaped:
  assumes "outbox_good c" and "mongo_shaped c s" and "\<forall>e \<in> set b. event_ok e" and "bulk_write (fst c) b s = (r, s')"
  shows "mongo_shaped c s'"
proof -
  from assms(1) have ct: "mongo_contract (fst c) (snd c)" by (simp add: outbox_good_def)
  note eff = bulk_write_effect [OF ct mongo_shaped_inv [OF assms(2)] assms(4)]
  obtain news where new: "store_docs (snd c) s' COLLECTION = store_docs (snd c) s COLLECTION @ news"
    and src: "\<forall>n \<in> set news. \<exists>e \<in> set b. stored_as (to_doc e) n"
    using eff [THEN conjunct2, THEN conjunct2, THEN conjunct1] by blast
  have "set news \<subseteq> Collect event_shaped" using src assms(3) stored_event_doc unfolding event_shaped_def by blast
  moreover have "store_docs (snd c) s' DEAD_LETTER = store_docs (snd c) s DEAD_LETTER"
    using eff [THEN conjunct2, THEN conjunct1] by simp
  ultimately show ?thesis
    by (intro mongo_shaped_step [OF assms(2) eff [THEN conjunct1]]) (simp_all only: new set_append, blast+)
qed

lemma mongo_persist_shaped:
  assumes "outbox_good c" and "mongo_shaped c s" and "\<forall>en \<in> set p. event_ok (de_event en)"
    and "persist_dead_letters (fst c) (map entry_to_doc p) s = (r, s')"
  shows "mongo_shaped c s'"
  using assms(4)
proof (cases rule: persist_cases)
  case 2
  from assms(1) have ct: "mongo_contract (fst c) (snd c)" by (simp add: outbox_good_def)
  have ids: "\<forall>d \<in> set (map entry_to_doc p). \<exists>i. doc_id d = Some (PStr i)" by simp
  note inv = insert_skipping_inv [OF ct ids 2(2) mongo_shaped_inv [OF assms(2)]]
  from ct ids 2(2) show ?thesis
  proof (rule insert_skipping_news)
    fix news
    assume new: "store_docs (snd c) s' DEAD_LETTER = store_docs (snd c) s DEAD_LETTER @ news"
      and src: "\<And>n. n \<in> set news \<Longrightarrow> \<exists>d \<in> set (map entry_to_doc p). stored_as d n"
      and other: "\<And>k. k \<noteq> DEAD_LETTER \<Longrightarrow> store_docs (snd c) s' k = store_docs (snd c) s k"
    have "set news \<subseteq> Collect entry_shaped" using src assms(3) unfolding entry_shaped_def by fastforce
    with new other [of COLLECTION] show ?thesis by (intro mongo_shaped_step [OF assms(2) inv]) auto
  qed
qed (use assms(2) in simp)

lemma marked_shaped:
  assumes "list_all2 (\<lambda>d d'. marked ids d d' \<or> (P d \<and> d' = d)) ds ds'" and "\<forall>d \<in> set ds. event_shaped d"
  shows "\<forall>d' \<in> set ds'. event_shaped d'"
  using assms
proof (induction rule: list_all2_induct)
  case (Cons d ds d' ds')
  then have "event_shaped d'" unfolding event_shaped_def using marked_event_doc by (metis list.set_intros(1))
  with Cons show ?case by simp
qed simp

lemma mongo_user_shaped:
  assumes "outbox_good c" and "mongo_shaped c s" and "mongo_user c s s'"
  shows "mongo_shaped c s'"
proof -
  from assms(1) have ct: "mongo_contract (fst c) (snd c)" by (simp add: outbox_good_def)
  note inv = mongo_shaped_inv [OF assms(2)] and step = mongo_shaped_step [OF assms(2)]
  from assms(3) show ?thesis
  proof (cases rule: mongo_user.cases)
    case (marking ids r)
    note eff = mark_indexed_effect [OF ct inv marking]
    have "\<forall>d \<in> set (store_docs (snd c) s' COLLECTION). event_shaped d"
      using marked_shaped [OF eff [THEN conjunct2]] assms(2) unfolding mongo_shaped_iff by blast
    then show ?thesis
      using eff [THEN conjunct1, rule_format, of DEAD_LETTER] same_idsD(2) [OF mark_indexed_same_ids [OF ct inv marking] inv]
      by (intro step) auto
  next
    case (refreshing now r)
    note k = refresh_keeps_others [OF ct inv refreshing]
    from k(1) k(2) [of COLLECTION] k(2) [of DEAD_LETTER] show ?thesis by (intro step) simp_all
  next
    case (rewriting events r)
    from mongo_write_shaped [OF assms(1,2) rewriting(2,1)] show ?thesis .
  next
    case (deleting i r)
    note eff = delete_dead_letter_effect [OF ct inv deleting(2)]
    from eff [THEN conjunct1, rule_format, of COLLECTION] eff [THEN conjunct2, THEN conjunct1]
      delete_dead_letter_ids(1) [OF ct inv deleting(2)]
    show ?thesis by (intro step) auto
  next
    case reading
    with inv show ?thesis by (intro step) (simp_all add: store_inv_def)
  qed
qed

interpretation mongo_typed: typed_store outbox_good mongo_shaped mongo_write mongo_persist mongo_user
  by unfold_locales (simp_all only: mongo_write_def mongo_persist_def, (fact mongo_write_shaped mongo_persist_shaped mongo_user_shaped)+)

lemma boot_typed: "typed (boot cfg s)"
  by (simp add: typed_def new_ingestion_def new_queue_def new_dlq_def)

text \<open>
  C22: what the pipeline stores is typed. In every state the running pipeline can reach, overlapping pushes
  included, the constraints of \<open>EventCreate\<close> hold of every event queued, in hand or buffered, and every document
  of the events and the dead-letter collections validates to such an event: the indexer, the listing and the
  replay never meet a document they cannot read.
\<close>

theorem stored_documents_typed:
  assumes "mongo_contract D V" and "pydantic_contract (mo_event M)"
    and "outbox_inv (D, V) s" and "dead_letters_inv V s" and "(mongo_step D V exn_str)\<^sup>*\<^sup>* (boot cfg s) st"
  shows "typed st \<and>
    (\<forall>d \<in> set (store_docs V (pl_store st) COLLECTION). \<exists>e. mo_event M (hide_internal d) = Inr e \<and> event_ok e) \<and>
    (\<forall>d \<in> set (store_docs V (pl_store st) DEAD_LETTER). \<exists>e. entry_event M (project_out [(''_id'', PInt 0)] d) = Inr e \<and> event_ok e)"
proof -
  have good: "outbox_good (D, V)" and shaped: "mongo_shaped (D, V) s" using assms(1,3,4) by (simp_all add: outbox_good_def mongo_shaped_def)
  have run: "typed st \<and> mongo_shaped (D, V) (pl_store st)"
    using mongo_typed.run_typed [OF good assms(5) [unfolded mongo_step_ctx] boot_typed] shaped by simp
  have "\<exists>e. mo_event M (hide_internal d) = Inr e \<and> event_ok e" if "d \<in> set (store_docs V (pl_store st) COLLECTION)" for d
  proof -
    from run that obtain e b where "event_doc e b d" "event_ok e" by (auto simp: mongo_shaped_def outbox_inv_def)
    from event_doc_carries [OF this] have c: "carries (read_back e) (hide_internal d)" .
    then have "mo_event M (hide_internal d) = Inr (read_back e)"
      by (intro pydantic_contractD [OF assms(2)]) (simp_all add: carries_def)
    with c show ?thesis by (auto simp: carries_def)
  qed
  moreover have "\<exists>e. entry_event M (project_out [(''_id'', PInt 0)] d) = Inr e \<and> event_ok e"
    if "d \<in> set (store_docs V (pl_store st) DEAD_LETTER)" for d
  proof -
    from run that obtain en where en: "event_ok (de_event en)" "stored_as (entry_to_doc en) d"
      by (auto simp: mongo_shaped_def dead_letters_inv_def)
    from entry_event_stored [OF assms(2) this] en(1) show ?thesis by (simp add: read_back_def event_ok_def)
  qed
  ultimately show ?thesis using run by blast
qed

theorem stored_documents_typed_witness:
  "typed run_stored \<and> store_docs mem_view (pl_store run_stored) COLLECTION = [bson_doc (to_doc (sample_event keyed_id))] \<and>
   (\<exists>e. strict_validate (hide_internal (bson_doc (to_doc (sample_event keyed_id)))) = Inr e \<and> event_ok e)"
proof -
  have "outbox_inv (mem_driver True, mem_view) (mem_store [])" "dead_letters_inv mem_view (mem_store [])"
    using mem_store_inv by (simp_all add: outbox_inv_def dead_letters_inv_def store_docs_def mem_store_def mem_view_def mem_new_def)
  from stored_documents_typed [OF mem_contract, of strict_models, OF _ this run_step] show ?thesis
    by (simp add: strict_models_def strict_validate_contract run_stored_fields mem_written_docs)
qed

end
