(* ===== verification/Background.thy ===== *)
theory Background
  imports Es_Indexer Mongo_Stats
begin

text \<open>
  The background loops as tasks: \<open>RollupScheduler\<close> (\<open>app/worker/rollup.py\<close>) and the start, the loop and the
  stop of \<open>EsIndexer\<close> (\<open>app/worker/es_indexer.py\<close>), whose passes are in \<open>Es_Indexer\<close>. Both loops wait on a stop
  event with the interval as the timeout; the scheduler's choice of what ends the wait is an argument.
\<close>

section \<open>Tasks\<close>

text \<open>A task is in its loop, has returned, or has ended with an exception; \<open>None\<close> is \<open>self._task = None\<close>.\<close>

datatype loop_task = Looping | Returned | Ended exn

text \<open>What ends \<open>wait_for(self._stop_event.wait(), timeout=self._interval)\<close>.\<close>

datatype wake = Elapsed | Signalled | Cancelled

text \<open>
  \<open>task.cancel()\<close> and \<open>gather(..., return_exceptions=True)\<close>: a loop cancelled in its wait returns, one
  cancelled in a call ends with \<open>CancelledError\<close>, which \<open>except Exception\<close> lets through; nothing is raised here.
\<close>

definition cancel_loop :: "bool \<Rightarrow> loop_task option \<Rightarrow> loop_task option" where
  "cancel_loop in_wait t = (if t = Some Looping then Some (if in_wait then Returned else Ended CancelledErr) else t)"

section \<open>The rollup scheduler\<close>

record rollup_scheduler =
  ro_interval :: int
  ro_stop_event :: bool
  ro_task :: "loop_task option"

definition new_rollup :: "int \<Rightarrow> rollup_scheduler" where
  "new_rollup interval_seconds = \<lparr>ro_interval = interval_seconds, ro_stop_event = False, ro_task = None\<rparr>"

text \<open>\<open>_refresh\<close>: a failure is logged, not raised.\<close>

definition rollup_refresh :: "'m mongo_driver \<Rightarrow> datetime \<Rightarrow> ('m mongo_store, unit) io" where
  "rollup_refresh D now =
     io_catch (io_bind (refresh_event_type_rollup D now) (\<lambda>_. io_return ())) is_Exception (\<lambda>_. io_return ())"

definition rollup_start :: "'m mongo_driver \<Rightarrow> datetime \<Rightarrow> (rollup_scheduler \<times> 'm mongo_store, unit) io" where
  "rollup_start D now ks = (case ks of (k, s) \<Rightarrow> (case rollup_refresh D now s of
       (Inl e, s') \<Rightarrow> (Inl e, k, s')
     | (Inr _, s') \<Rightarrow> (Inr (), k\<lparr>ro_task := Some Looping\<rparr>, s')))"

definition rollup_stop :: "bool \<Rightarrow> rollup_scheduler \<Rightarrow> rollup_scheduler" where
  "rollup_stop in_wait k = k\<lparr>ro_stop_event := True, ro_task := cancel_loop in_wait (ro_task k)\<rparr>"

text \<open>
  One turn of \<open>_run\<close>, from the loop's test through its wait to the next test. The stop event is set whenever
  the wait ends because it was signalled, and may be set when the interval elapsed.
\<close>

definition rollup_turn :: "'m mongo_driver \<Rightarrow> wake \<Rightarrow> datetime \<Rightarrow> rollup_scheduler \<times> 'm mongo_store \<Rightarrow> rollup_scheduler \<times> 'm mongo_store" where
  "rollup_turn D w now ks = (case ks of (k, s) \<Rightarrow>
     if w = Cancelled \<or> ro_stop_event k then (k\<lparr>ro_task := Some Returned\<rparr>, s)
     else (case rollup_refresh D now s of
         (Inl e, s') \<Rightarrow> (k\<lparr>ro_task := Some (Ended e)\<rparr>, s')
       | (Inr _, s') \<Rightarrow> (k, s')))"

text \<open>Consecutive turns with the times at which their waits end.\<close>

fun rollup_turns :: "'m mongo_driver \<Rightarrow> datetime list \<Rightarrow> rollup_scheduler \<times> 'm mongo_store \<Rightarrow> rollup_scheduler \<times> 'm mongo_store" where
  "rollup_turns D [] ks = ks"
| "rollup_turns D (now # nows) ks = rollup_turns D nows (rollup_turn D Elapsed now ks)"

section \<open>The ES indexer's task\<close>

record indexer_task =
  it_indexer :: es_indexer
  it_task :: "loop_task option"

definition es_indexer_start :: "indexer_task \<Rightarrow> indexer_task" where
  "es_indexer_start k = k\<lparr>it_task := Some Looping\<rparr>"

definition es_indexer_stop :: "bool \<Rightarrow> indexer_task \<Rightarrow> indexer_task" where
  "es_indexer_stop in_wait k =
     k\<lparr>it_indexer := (it_indexer k)\<lparr>xi_stop_event := True\<rparr>, it_task := cancel_loop in_wait (it_task k)\<rparr>"

text \<open>
  One turn of \<open>_run\<close>: the loop's test, a pass and, unless the pass asks to go on, the wait, which returns
  on cancellation and otherwise leads back to the test.
\<close>

definition indexer_turn ::
  "(nat \<Rightarrow> ('s, pydict list) io) \<Rightarrow> (string list \<Rightarrow> ('s, unit) io) \<Rightarrow> (event_document list \<Rightarrow> ('x, unit) io) \<Rightarrow> validator \<Rightarrow> wake \<Rightarrow>
   indexer_task \<times> 's \<times> 'x \<Rightarrow> indexer_task \<times> 's \<times> 'x" where
  "indexer_turn fetch mark bulk validate w st = (case st of (k, s, x) \<Rightarrow>
     if xi_stop_event (it_indexer k) then (k\<lparr>it_task := Some Returned\<rparr>, s, x)
     else (case index_pass fetch mark bulk validate (it_indexer k, s, x) of
         (Crash e, i, s', x') \<Rightarrow> (k\<lparr>it_indexer := i, it_task := Some (Ended e)\<rparr>, s', x')
       | (Again, i, s', x') \<Rightarrow> (k\<lparr>it_indexer := i\<rparr>, s', x')
       | (Wait, i, s', x') \<Rightarrow> (if w = Cancelled then k\<lparr>it_indexer := i, it_task := Some Returned\<rparr> else k\<lparr>it_indexer := i\<rparr>, s', x')))"

section \<open>Lemmas\<close>

lemma rollup_refresh_cases:
  assumes "rollup_refresh D now s = (r, s')"
  obtains (ok) x r0 where "r = Inr ()" "refresh_event_type_rollup D now s = (r0, s')"
    | (cancelled) "r = Inl CancelledErr" "refresh_event_type_rollup D now s = (Inl CancelledErr, s')"
  using assms by (cases "refresh_event_type_rollup D now s") (auto simp: rollup_refresh_def io_defs is_Exception_def split: sum.splits if_splits)

lemma rollup_refresh_keeps:
  assumes "mongo_contract D V" and "store_inv V s" and "rollup_refresh D now s = (r, s')"
  shows "store_inv V s'" and "c \<noteq> ROLLUPS \<Longrightarrow> store_docs V s' c = store_docs V s c"
proof -
  from assms(3) obtain r0 where "refresh_event_type_rollup D now s = (r0, s')" by (cases rule: rollup_refresh_cases) auto
  note k = refresh_keeps_others [OF assms(1,2) this]
  show "store_inv V s'" "c \<noteq> ROLLUPS \<Longrightarrow> store_docs V s' c = store_docs V s c" by (fact k)+
qed

text \<open>Whatever the database raises short of a cancellation, the scheduler keeps its task looping.\<close>

lemma rollup_turn_survives:
  assumes "\<And>s. fst (refresh_event_type_rollup D now s) \<noteq> Inl CancelledErr" and "\<not> ro_stop_event k"
  shows "fst (rollup_turn D Elapsed now (k, s)) = k"
proof -
  obtain r s' where ref: "rollup_refresh D now s = (r, s')" by (metis surj_pair)
  from this assms(1) [of s] have "r = Inr ()" by (cases rule: rollup_refresh_cases) auto
  with ref assms(2) show ?thesis by (simp add: rollup_turn_def)
qed

lemma rollup_turns_survive:
  assumes "\<And>now s. fst (refresh_event_type_rollup D now s) \<noteq> Inl CancelledErr" and "\<not> ro_stop_event k"
  shows "fst (rollup_turns D nows (k, s)) = k"
proof (induction nows arbitrary: s)
  case (Cons now nows)
  have "fst (rollup_turn D Elapsed now (k, s)) = k" by (rule rollup_turn_survives) (use assms in auto)
  with Cons show ?case by (cases "rollup_turn D Elapsed now (k, s)") simp
qed simp

text \<open>A stopped scheduler or indexer ends at its next turn, without touching the stores.\<close>

lemma stopped_turns:
  "ro_stop_event k \<Longrightarrow> rollup_turn D w now (k, s) = (k\<lparr>ro_task := Some Returned\<rparr>, s)"
  "xi_stop_event (it_indexer i) \<Longrightarrow> indexer_turn fetch mark bulk validate w (i, s, x) = (i\<lparr>it_task := Some Returned\<rparr>, s, x)"
  by (simp_all add: rollup_turn_def indexer_turn_def)

text \<open>The indexer's task outlives every failed pass: only a stop, a cancellation or a non-\<open>Exception\<close> ends it.\<close>

lemma indexer_turn_survives:
  assumes "\<not> xi_stop_event (it_indexer k)" and "w \<noteq> Cancelled"
    and "\<And>e t. index_pass fetch mark bulk validate (it_indexer k, s, x) \<noteq> (Crash e, t)"
    and "indexer_turn fetch mark bulk validate w (k, s, x) = (k', s', x')"
  shows "it_task k' = it_task k"
  using assms by (auto simp: indexer_turn_def split: prod.splits pass.splits)

end
