(* ===== verification/Lifespan.thy ===== *)
theory Lifespan
  imports Pipeline_Mongo Background Redis_Cache
begin

text \<open>
  \<open>app/main.py\<close>'s \<open>lifespan\<close>: the components it wires together, the order in which it starts them and what a
  failure of each start does, and the shutdown; with the probes of \<open>app/api/routes_health.py\<close> and the snapshot
  of \<open>app/api/routes_metrics.py\<close>, which read the components it exposes.
\<close>

section \<open>The application\<close>

text \<open>\<open>app.state\<close>; the pipeline holds the queue, the ingestion service, the DLQ, the worker pool and Mongo.\<close>

record ('m, 'e, 'r) app =
  ap_settings :: settings
  ap_pipeline :: "'m mongo_store pipeline"
  ap_es :: "'e es_store"
  ap_redis :: "'r redis_cache"
  ap_indexer :: indexer_task
  ap_rollup :: rollup_scheduler

definition new_app :: "settings \<Rightarrow> ('m, 'e, 'r) app" where
  "new_app cfg = \<lparr>ap_settings = cfg, ap_pipeline = wired cfg (new_mongo_store (mongodb_uri cfg) (mongodb_db cfg)),
     ap_es = new_es_store (elasticsearch_url cfg) (elasticsearch_index cfg), ap_redis = new_redis_cache (redis_url cfg),
     ap_indexer = \<lparr>it_indexer = new_es_indexer (worker_batch_size cfg) (es_index_interval_seconds cfg), it_task = None\<rparr>,
     ap_rollup = new_rollup (rollup_interval_seconds cfg)\<rparr>"

definition on_mongo :: "('m mongo_store, 'a) io \<Rightarrow> (('m, 'e, 'r) app, 'a) io" where
  "on_mongo f ap = (case f (pl_store (ap_pipeline ap)) of (r, s) \<Rightarrow> (r, ap\<lparr>ap_pipeline := (ap_pipeline ap)\<lparr>pl_store := s\<rparr>\<rparr>))"

definition on_search :: "('e es_store, 'a) io \<Rightarrow> (('m, 'e, 'r) app, 'a) io" where
  "on_search f ap = (case f (ap_es ap) of (r, x) \<Rightarrow> (r, ap\<lparr>ap_es := x\<rparr>))"

definition on_cache :: "('r redis_cache, 'a) io \<Rightarrow> (('m, 'e, 'r) app, 'a) io" where
  "on_cache f ap = (case f (ap_redis ap) of (r, c) \<Rightarrow> (r, ap\<lparr>ap_redis := c\<rparr>))"

section \<open>Startup\<close>

text \<open>The \<open>try\<close> around Elasticsearch: a down mirror does not stop the startup.\<close>

definition es_startup :: "'e es_driver \<Rightarrow> (('m, 'e, 'r) app, unit) io" where
  "es_startup E = io_catch (on_search (io_bind (es_connect E) (\<lambda>_. ensure_mapping E))) is_Exception (\<lambda>_. io_return ())"

definition start_workers :: "(('m, 'e, 'r) app, unit) io" where
  "start_workers ap = (Inr (), ap\<lparr>ap_pipeline := start_pool (nat (worker_concurrency (ap_settings ap))) (ap_pipeline ap)\<rparr>)"

definition start_indexer :: "(('m, 'e, 'r) app, unit) io" where
  "start_indexer ap = (Inr (), ap\<lparr>ap_indexer := es_indexer_start (ap_indexer ap)\<rparr>)"

definition start_rollup :: "'m mongo_driver \<Rightarrow> datetime \<Rightarrow> (('m, 'e, 'r) app, unit) io" where
  "start_rollup D now ap = (case rollup_start D now (ap_rollup ap, pl_store (ap_pipeline ap)) of
     (r, k, s) \<Rightarrow> (r, ap\<lparr>ap_rollup := k, ap_pipeline := (ap_pipeline ap)\<lparr>pl_store := s\<rparr>\<rparr>))"

text \<open>
  Everything before \<open>yield\<close>. The consumers find an empty queue; the indexer's first pass, which may run while
  the first rollup is awaited, is left to the steps after the startup.
\<close>

definition startup ::
  "'m mongo_driver \<Rightarrow> 'e es_driver \<Rightarrow> 'r redis_driver \<Rightarrow> datetime \<Rightarrow> settings \<Rightarrow> (exn + unit) \<times> ('m, 'e, 'r) app" where
  "startup D E R now cfg =
     io_bind (on_mongo (connect D)) (\<lambda>_.
     io_bind (on_mongo (ensure_indexes D)) (\<lambda>_.
     io_bind (es_startup E) (\<lambda>_.
     io_bind (on_cache (redis_connect R)) (\<lambda>_.
     io_bind start_workers (\<lambda>_.
     io_bind start_indexer (\<lambda>_.
     start_rollup D now)))))) (new_app cfg)"

section \<open>Shutdown\<close>

text \<open>The clients are closed last; an exception of \<open>es.close()\<close> skips Redis. (The rest of the shutdown is in \<open>Shutdown\<close>.)\<close>

definition close_clients :: "'m mongo_driver \<Rightarrow> 'e es_driver \<Rightarrow> 'r redis_driver \<Rightarrow> (('m, 'e, 'r) app, unit) io" where
  "close_clients D E R =
     io_bind (on_mongo (\<lambda>s. (Inr (), close D s))) (\<lambda>_.
     io_bind (on_search (es_close E)) (\<lambda>_. on_cache (redis_close R)))"

section \<open>Probes and metrics\<close>

definition health :: pydict where
  "health = [(''status'', PStr ''ok'')]"

record readiness =
  rd_status_code :: nat
  rd_status :: string
  rd_checks :: "(string \<times> bool) list"

definition health_ready :: "'m mongo_driver \<Rightarrow> 'e es_driver \<Rightarrow> 'r redis_driver \<Rightarrow> (('m, 'e, 'r) app, readiness) io" where
  "health_ready D E R =
     io_bind (on_mongo (ping D)) (\<lambda>mongodb.
     io_bind (on_search (es_ping E)) (\<lambda>elasticsearch.
     io_bind (on_cache (redis_ping R)) (\<lambda>redis.
     let checks = [(''mongodb'', mongodb), (''elasticsearch'', elasticsearch), (''redis'', redis)];
         status = (if \<not> mongodb then ''unavailable'' else if list_all snd checks then ''ready'' else ''degraded'') in
     io_return \<lparr>rd_status_code = (if mongodb then 200 else 503), rd_status = status, rd_checks = checks\<rparr>)))"

record metrics_snapshot =
  mt_queue :: pydict
  mt_dlq :: pydict
  mt_worker :: pydict
  mt_es_indexer :: pydict
  mt_cache :: cache_snapshot

definition app_metrics :: "('m, 'e, 'r) app \<Rightarrow> metrics_snapshot" where
  "app_metrics ap = (let q = pl_queue (ap_pipeline ap) in
     \<lparr>mt_queue = [(''depth'', PInt (int (qsize q))), (''capacity'', PInt (maxsize q))],
      mt_dlq = dlq_metrics (pl_dlq (ap_pipeline ap)), mt_worker = worker_metrics (pl_pool (ap_pipeline ap)),
      mt_es_indexer = es_indexer_metrics (it_indexer (ap_indexer ap)), mt_cache = cache_metrics (ap_redis ap)\<rparr>)"

section \<open>What the startup establishes\<close>

text \<open>The Elasticsearch client raises ordinary exceptions only: the startup is not being cancelled.\<close>

definition es_ordinary :: "'e es_driver \<Rightarrow> bool" where
  "es_ordinary E \<longleftrightarrow> raises_ordinary (es_info E) \<and> (\<forall>ix. raises_ordinary (es_index_exists E ix)) \<and>
     (\<forall>ix m. raises_ordinary (es_index_create E ix m))"

lemma raises_ordinaryD: "raises_ordinary f \<Longrightarrow> f s = (Inl e, s') \<Longrightarrow> is_Exception e"
  by (auto simp: raises_ordinary_def)

lemma on_es_ordinary: "raises_ordinary f \<Longrightarrow> on_es f x = (Inl e, x') \<Longrightarrow> is_Exception e"
  by (auto simp: on_es_def is_Exception_def dest: raises_ordinaryD split: option.splits prod.splits)

definition es_connected :: "'e es_store \<Rightarrow> bool" where
  "es_connected x \<longleftrightarrow> es_client x \<noteq> None"

lemma on_es_connected: "io_keeps es_connected (on_es f)"
  by (rule io_keepsI) (auto simp: es_connected_def on_es_def split: option.splits prod.splits)

lemma ensure_mapping_connected: "io_keeps es_connected (ensure_mapping E)"
proof (rule io_keepsI)
  fix x :: "'a es_store" and r x'
  have ready: "io_keeps es_connected set_ready" by (rule io_keepsI) (auto simp: set_ready_def es_connected_def)
  have "io_keeps es_connected (io_bind (on_es (es_index_exists E (es_index x))) (\<lambda>found.
       if found then set_ready else io_bind (on_es (es_index_create E (es_index x) MAPPING)) (\<lambda>_. set_ready)))"
    by (intro inv_intro on_es_connected) (simp add: ready io_keeps_bind on_es_connected)
  then show "ensure_mapping E x = (r, x') \<Longrightarrow> es_connected x \<Longrightarrow> es_connected x'"
    unfolding ensure_mapping_def by (rule io_keepsD)
qed

lemma ensure_mapping_ordinary:
  assumes "es_ordinary E" and "ensure_mapping E x = (Inl e, x')"
  shows "is_Exception e"
proof -
  have ord: "raises_ordinary (es_index_exists E ix)" "raises_ordinary (es_index_create E ix m)" for ix m
    using assms(1) by (simp_all add: es_ordinary_def)
  from assms(2) show ?thesis unfolding ensure_mapping_def
    by (cases rule: io_bind_cases)
      (auto simp: set_ready_def elim!: io_bind_cases dest: on_es_ordinary [OF ord(1)] on_es_ordinary [OF ord(2)] split: if_splits)
qed

lemma es_startup_total:
  assumes "es_ordinary E"
  shows "\<exists>x. es_startup E ap = (Inr (), ap\<lparr>ap_es := x\<rparr>) \<and> es_client x \<noteq> None"
proof -
  obtain r x where run: "io_bind (es_connect E) (\<lambda>_. ensure_mapping E) (ap_es ap) = (r, x)" by (metis surj_pair)
  have connected: "(\<forall>e. q = Inl e \<longrightarrow> is_Exception e) \<and> es_client y \<noteq> None" if "es_connect E (ap_es ap) = (q, y)" for q y
    using that assms by (auto simp: es_connect_def es_ordinary_def on_es_def dest: raises_ordinaryD elim!: io_bind_cases split: prod.splits)
  from run have "(\<forall>e. r = Inl e \<longrightarrow> is_Exception e) \<and> es_client x \<noteq> None"
  proof (cases rule: io_bind_cases)
    case (raised e)
    with connected [of "Inl e" x] show ?thesis by simp
  next
    case (returned u y)
    with connected [of "Inr u" y] ensure_mapping_ordinary [OF assms, of y _ x] io_keepsD [OF ensure_mapping_connected returned(2)]
    show ?thesis by (auto simp: es_connected_def)
  qed
  with run show ?thesis
    by (cases r) (auto simp: es_startup_def io_catch_def on_search_def)
qed

text \<open>Operations that neither read nor change the Elasticsearch store.\<close>

definition es_blind :: "(('m, 'e, 'r) app, 'a) io \<Rightarrow> bool" where
  "es_blind f \<longleftrightarrow> (\<forall>ap x. f (ap\<lparr>ap_es := x\<rparr>) = (case f ap of (r, ap') \<Rightarrow> (r, ap'\<lparr>ap_es := x\<rparr>)))"

lemma es_blind_bind: "es_blind f \<Longrightarrow> (\<And>y. es_blind (g y)) \<Longrightarrow> es_blind (io_bind f g)"
  by (simp add: es_blind_def io_bind_def split: prod.splits sum.splits)

lemma es_blind_ops:
  "es_blind (on_mongo f)" "es_blind (on_cache h)" "es_blind start_workers" "es_blind start_indexer" "es_blind (start_rollup D now)"
  by (auto simp: es_blind_def on_mongo_def on_cache_def start_workers_def start_indexer_def start_rollup_def split: prod.splits)

definition after_es :: "'m mongo_driver \<Rightarrow> 'r redis_driver \<Rightarrow> datetime \<Rightarrow> (('m, 'e, 'r) app, unit) io" where
  "after_es D R now = io_bind (on_cache (redis_connect R)) (\<lambda>_. io_bind start_workers (\<lambda>_. io_bind start_indexer (\<lambda>_. start_rollup D now)))"

lemma after_es_blind: "es_blind (after_es D R now)"
  unfolding after_es_def by (intro es_blind_bind es_blind_ops)

definition mongo_connected :: "'m mongo_store \<Rightarrow> bool" where
  "mongo_connected s \<longleftrightarrow> ms_client s \<noteq> None"

lemma with_collection_connected: "io_keeps mongo_connected (with_collection coll f)"
  by (rule io_keepsI) (auto simp: mongo_connected_def elim: with_collection_cases)

lemma ensure_indexes_connected: "io_keeps mongo_connected (ensure_indexes D)"
  unfolding ensure_indexes_def Let_def by (intro inv_intro with_collection_connected)

lemma rollup_refresh_connected: "io_keeps mongo_connected (rollup_refresh D now)"
  unfolding rollup_refresh_def refresh_event_type_rollup_def aggregate_counts_def Let_def
  by (intro inv_intro with_collection_connected) (auto split: sum.split intro!: inv_intro with_collection_connected)

lemma io_bind_assoc: "io_bind (io_bind f g) h = io_bind f (\<lambda>x. io_bind (g x) h)"
  by (auto simp: io_bind_def fun_eq_iff split: prod.splits sum.splits)

definition before_es :: "'m mongo_driver \<Rightarrow> (('m, 'e, 'r) app, unit) io" where
  "before_es D = io_bind (on_mongo (connect D)) (\<lambda>_. on_mongo (ensure_indexes D))"

lemma startup_phases:
  "startup D E R now cfg = io_bind (before_es D) (\<lambda>_. io_bind (es_startup E) (\<lambda>_. after_es D R now)) (new_app cfg)"
  by (simp add: startup_def before_es_def after_es_def io_bind_assoc)

lemma before_es_effect:
  assumes "before_es D ap = (r, ap')"
  shows "\<exists>s. ap' = ap\<lparr>ap_pipeline := (ap_pipeline ap)\<lparr>pl_store := s\<rparr>\<rparr> \<and> (r = Inr () \<longrightarrow> mongo_connected s)"
  using assms unfolding before_es_def
proof (cases rule: io_bind_cases)
  case (raised e)
  then show ?thesis by (auto simp: on_mongo_def split: prod.splits)
next
  case (returned u ap1)
  then have "mongo_connected (pl_store (ap_pipeline ap1))"
    by (auto simp: on_mongo_def connect_def on_client_def mongo_connected_def split: prod.splits)
  with returned show ?thesis
    by (auto simp: on_mongo_def split: prod.splits dest!: io_keepsD [OF ensure_indexes_connected])
qed

lemma after_es_success:
  assumes "after_es D R now ap = (Inr (), ap')" and "mongo_connected (pl_store (ap_pipeline ap))"
  shows "(\<exists>s. ap_pipeline ap' = (start_pool (nat (worker_concurrency (ap_settings ap))) (ap_pipeline ap))\<lparr>pl_store := s\<rparr> \<and> mongo_connected s)"
    and "ap_es ap' = ap_es ap" and "rc_redis (ap_redis ap') \<noteq> None"
    and "it_task (ap_indexer ap') = Some Looping" and "ro_task (ap_rollup ap') = Some Looping"
proof -
  obtain c s where redis: "redis_connect R (ap_redis ap) = (Inr (), c)"
    and refresh: "rollup_refresh D now (pl_store (ap_pipeline ap)) = (Inr (), s)"
    and ap': "ap' = ap\<lparr>ap_redis := c, ap_pipeline := (start_pool (nat (worker_concurrency (ap_settings ap))) (ap_pipeline ap))\<lparr>pl_store := s\<rparr>,
      ap_indexer := es_indexer_start (ap_indexer ap), ap_rollup := (ap_rollup ap)\<lparr>ro_task := Some Looping\<rparr>\<rparr>"
    using assms(1) unfolding after_es_def
    by (auto simp: on_cache_def start_workers_def start_indexer_def start_rollup_def rollup_start_def start_pool_def
        elim!: io_bind_cases split: prod.splits sum.splits)
  have "rc_redis c \<noteq> None"
    using redis by (auto simp: redis_connect_def on_redis_def elim!: io_bind_cases split: prod.splits)
  with ap' io_keepsD [OF rollup_refresh_connected refresh assms(2)]
  show "(\<exists>s. ap_pipeline ap' = (start_pool (nat (worker_concurrency (ap_settings ap))) (ap_pipeline ap))\<lparr>pl_store := s\<rparr> \<and> mongo_connected s)"
    "ap_es ap' = ap_es ap" "rc_redis (ap_redis ap') \<noteq> None" "it_task (ap_indexer ap') = Some Looping" "ro_task (ap_rollup ap') = Some Looping"
    by (auto simp: start_pool_def es_indexer_start_def)
qed

lemma after_es_failure:
  assumes "after_es D R now ap = (Inl e, ap')" and "is_Exception e"
  shows "ap_pipeline ap' = ap_pipeline ap \<and> ap_indexer ap' = ap_indexer ap \<and> ap_rollup ap' = ap_rollup ap"
proof -
  have "rollup_refresh D now s \<noteq> (Inl e, s')" for s s'
    using assms(2) by (auto elim: rollup_refresh_cases)
  with assms(1) show ?thesis unfolding after_es_def
    by (auto simp: on_cache_def start_workers_def start_indexer_def start_rollup_def rollup_start_def
        elim!: io_bind_cases split: prod.splits sum.splits)
qed

text \<open>What the startup answers: the first failure of Mongo's ping, the indexes, Redis's ping or the first rollup.\<close>

definition startup_verdict :: "'m mongo_driver \<Rightarrow> 'r redis_driver \<Rightarrow> datetime \<Rightarrow> settings \<Rightarrow> exn + unit" where
  "startup_verdict D R now cfg =
     (case md_ping D (md_client D (mongodb_uri cfg)) of (Inl e, _) \<Rightarrow> Inl e | (Inr _, m) \<Rightarrow>
     (case ensure_indexes D ((new_mongo_store (mongodb_uri cfg) (mongodb_db cfg))\<lparr>ms_client := Some m\<rparr>) of (Inl e, _) \<Rightarrow> Inl e | (Inr _, s) \<Rightarrow>
     (case rd_ping R (rd_new R (redis_url cfg)) of (Inl e, _) \<Rightarrow> Inl e | (Inr _, _) \<Rightarrow> fst (rollup_refresh D now s))))"

lemma before_es_new:
  "before_es D (new_app cfg :: ('m, 'e, 'r) app) =
    (case md_ping D (md_client D (mongodb_uri cfg)) of (r, m) \<Rightarrow>
     let s = (new_mongo_store (mongodb_uri cfg) (mongodb_db cfg))\<lparr>ms_client := Some m\<rparr> in
     case r of Inl e \<Rightarrow> (Inl e, (new_app cfg)\<lparr>ap_pipeline := wired cfg s\<rparr>)
     | Inr _ \<Rightarrow> (case ensure_indexes D s of (r', s') \<Rightarrow> (r', (new_app cfg)\<lparr>ap_pipeline := wired cfg s'\<rparr>)))"
  by (simp add: before_es_def on_mongo_def connect_def on_client_def io_bind_def new_app_def wired_def new_mongo_store_def Let_def
      split: prod.split sum.split)

lemma after_es_result:
  "fst (after_es D R now ap) = (case rd_ping R (rd_new R (rc_url (ap_redis ap))) of (Inl e, _) \<Rightarrow> Inl e
     | (Inr _, _) \<Rightarrow> fst (rollup_refresh D now (pl_store (ap_pipeline ap))))"
  by (auto simp: after_es_def on_cache_def redis_connect_def on_redis_def start_workers_def start_indexer_def start_rollup_def
      rollup_start_def start_pool_def io_bind_def io_return_def split: prod.split sum.split)

lemma startup_result:
  fixes D :: "'m mongo_driver" and E :: "'e es_driver" and R :: "'r redis_driver"
  assumes "es_ordinary E"
  shows "fst (startup D E R now cfg) = startup_verdict D R now cfg"
proof -
  obtain r m where ping: "md_ping D (md_client D (mongodb_uri cfg)) = (r, m)" by (metis surj_pair)
  let ?s = "(new_mongo_store (mongodb_uri cfg) (mongodb_db cfg))\<lparr>ms_client := Some m\<rparr>"
  obtain r' s where idx: "ensure_indexes D ?s = (r', s)" by (metis surj_pair)
  let ?ap = "(new_app cfg :: ('m, 'e, 'r) app)\<lparr>ap_pipeline := wired cfg s\<rparr>"
  note before = before_es_new [of D cfg, unfolded ping Let_def idx prod.case]
  obtain x where x: "es_startup E ?ap = (Inr (), ?ap\<lparr>ap_es := x\<rparr>)" using es_startup_total [OF assms] by blast
  have after: "fst (after_es D R now (?ap\<lparr>ap_es := x\<rparr>)) = (case rd_ping R (rd_new R (redis_url cfg)) of (Inl e, _) \<Rightarrow> Inl e
     | (Inr _, _) \<Rightarrow> fst (rollup_refresh D now s))"
  proof -
    have "rc_url (ap_redis (?ap\<lparr>ap_es := x\<rparr>)) = redis_url cfg" "pl_store (ap_pipeline (?ap\<lparr>ap_es := x\<rparr>)) = s"
      by (simp_all add: new_app_def new_redis_cache_def wired_def)
    then show ?thesis unfolding after_es_result by (simp only:)
  qed
  show ?thesis
  proof (cases r)
    case (Inl e)
    then show ?thesis by (simp add: startup_phases io_bind_def before startup_verdict_def ping)
  next
    case (Inr u)
    then show ?thesis
      by (cases r') (simp_all add: startup_phases io_bind_def before startup_verdict_def ping idx x after)
  qed
qed

text \<open>
  C23: the startup. When it completes, the pipeline is the booted one over a connected Mongo store, every
  client exists (Elasticsearch's too, however its calls went) and both background loops run. The startup fails
  fast: it answers the exception of Mongo's ping, of the creation of the indexes or of Redis's ping, whichever
  comes first, and completes when none of them fails (and the first rollup is not cancelled). After such an
  exception no consumer and no loop was started. Elasticsearch decides nothing: with any other cluster behind
  the client, the outcome and all other components are the same.
\<close>

theorem startup_outcome:
  fixes D :: "'m mongo_driver" and E :: "'e es_driver" and R :: "'r redis_driver"
  assumes "es_ordinary E" and "es_ordinary E'" and "startup D E R now cfg = (r, ap)"
  shows "(r = Inr () \<longrightarrow> (\<exists>s. ap_pipeline ap = boot cfg s \<and> ms_client s \<noteq> None) \<and> es_client (ap_es ap) \<noteq> None \<and>
      rc_redis (ap_redis ap) \<noteq> None \<and> it_task (ap_indexer ap) = Some Looping \<and> ro_task (ap_rollup ap) = Some Looping) \<and>
    r = (case md_ping D (md_client D (mongodb_uri cfg)) of (Inl e, _) \<Rightarrow> Inl e | (Inr _, m) \<Rightarrow>
      (case ensure_indexes D ((new_mongo_store (mongodb_uri cfg) (mongodb_db cfg))\<lparr>ms_client := Some m\<rparr>) of (Inl e, _) \<Rightarrow> Inl e | (Inr _, s) \<Rightarrow>
      (case rd_ping R (rd_new R (redis_url cfg)) of (Inl e, _) \<Rightarrow> Inl e | (Inr _, _) \<Rightarrow> fst (rollup_refresh D now s)))) \<and>
    (\<forall>e. r = Inl e \<and> is_Exception e \<longrightarrow>
      pl_tasks (ap_pipeline ap) = [] \<and> it_task (ap_indexer ap) = None \<and> ro_task (ap_rollup ap) = None) \<and>
    (\<exists>x. startup D E' R now cfg = (r, ap\<lparr>ap_es := x\<rparr>))"
proof -
  let ?new = "new_app cfg :: ('m, 'e, 'r) app"
  have verdict: "r = startup_verdict D R now cfg"
    using startup_result [OF assms(1), of D R now cfg] assms(3) by simp
  obtain r1 ap1 where before: "before_es D ?new = (r1, ap1)" by (metis surj_pair)
  from before_es_effect [OF this] obtain s where
    ap1: "ap1 = ?new\<lparr>ap_pipeline := (ap_pipeline ?new)\<lparr>pl_store := s\<rparr>\<rparr>" "r1 = Inr () \<Longrightarrow> mongo_connected s" by blast
  show ?thesis
  proof (cases r1)
    case (Inl e)
    with before have "startup D F R now cfg = (Inl e, ap1)" for F :: "'e es_driver"
      unfolding startup_phases by (simp add: io_bind_Inl)
    from this [of E] this [of E'] assms(3) have "r = Inl e" "ap = ap1" "startup D E' R now cfg = (r, ap\<lparr>ap_es := ap_es ap1\<rparr>)"
      by simp_all
    with verdict show ?thesis by (auto simp: startup_verdict_def ap1 new_app_def wired_def new_rollup_def)
  next
    case (Inr u)
    then have s: "mongo_connected s" by (intro ap1(2)) simp
    obtain x where x: "es_startup E ap1 = (Inr (), ap1\<lparr>ap_es := x\<rparr>)" "es_client x \<noteq> None" using es_startup_total [OF assms(1)] by blast
    obtain x' where x': "es_startup E' ap1 = (Inr (), ap1\<lparr>ap_es := x'\<rparr>)" using es_startup_total [OF assms(2)] by blast
    from before Inr x x' assms(3) have after: "after_es D R now (ap1\<lparr>ap_es := x\<rparr>) = (r, ap)"
      and other: "startup D E' R now cfg = after_es D R now (ap1\<lparr>ap_es := x'\<rparr>)"
      by (simp_all add: startup_phases io_bind_Inr)
    have "after_es D R now (ap1\<lparr>ap_es := x'\<rparr>) = (r, ap\<lparr>ap_es := x'\<rparr>)"
      using after_es_blind [of D R now, unfolded es_blind_def, rule_format, of x' "ap1\<lparr>ap_es := x\<rparr>"] after by simp
    then have "\<exists>x. startup D E' R now cfg = (r, ap\<lparr>ap_es := x\<rparr>)" unfolding other by blast
    moreover have "pl_tasks (ap_pipeline ap) = [] \<and> it_task (ap_indexer ap) = None \<and> ro_task (ap_rollup ap) = None"
      if "r = Inl e" "is_Exception e" for e
      using after_es_failure [OF after [unfolded that(1)] that(2)] by (simp add: ap1 new_app_def wired_def new_rollup_def)
    moreover have "(\<exists>s. ap_pipeline ap = boot cfg s \<and> ms_client s \<noteq> None) \<and> es_client (ap_es ap) \<noteq> None \<and>
      rc_redis (ap_redis ap) \<noteq> None \<and> it_task (ap_indexer ap) = Some Looping \<and> ro_task (ap_rollup ap) = Some Looping" if "r = Inr ()"
      using after_es_success [OF after [unfolded that]] s x(2)
      by (auto simp: ap1 new_app_def boot_def start_pool_def wired_def mongo_connected_def)
    ultimately show ?thesis using verdict unfolding startup_verdict_def by blast
  qed
qed

definition sample_es_driver :: "bool \<Rightarrow> esm es_driver" where
  "sample_es_driver down = (if down then (esm_driver (\<lambda>_. False) (\<lambda>_ _ _. False))\<lparr>es_info := \<lambda>w. (Inl (TransportErr ''down''), w)\<rparr>
     else esm_driver (\<lambda>_. False) (\<lambda>_ _ _. False))"

lemma sample_es_ordinary: "es_ordinary (sample_es_driver down)"
  by (auto simp: es_ordinary_def sample_es_driver_def esm_driver_def raises_ordinary_def esm_call_def Let_def is_Exception_def split: if_splits)

definition sample_startup :: "bool \<Rightarrow> (exn + unit) \<times> (mem, esm, redis_mem) app" where
  "sample_startup down = startup (mem_driver True) (sample_es_driver down) (rm_driver False (rm_new 0 [])) (utc_datetime 0) default_settings"

lemma sample_before_es:
  "before_es (mem_driver True) (new_app default_settings) =
    (Inr (), (new_app default_settings)\<lparr>ap_pipeline := wired default_settings (new_mongo_store (mongodb_uri default_settings)
       (mongodb_db default_settings)\<lparr>ms_client := Some (mem_new [])\<rparr>)\<rparr>)"
  by (simp add: before_es_def on_mongo_def connect_def on_client_def ensure_indexes_def with_collection_def io_bind_def io_catch_def
      mem_driver_def guarded_def next_fault_def mem_new_def Let_def new_app_def wired_def new_mongo_store_def)

lemma sum_counts_ordinary: "sum_counts rows \<noteq> Inl CancelledErr"
  by (induction rows rule: sum_counts.induct) (auto split: option.splits pyval.splits sum.splits)

lemma sample_refresh: "fst (rollup_refresh (mem_driver True) now (new_mongo_store u d\<lparr>ms_client := Some (mem_new [])\<rparr>)) = Inr ()"
  by (simp add: rollup_refresh_def refresh_event_type_rollup_def aggregate_counts_def with_collection_def on_client_def io_bind_def io_catch_def
      mem_driver_def mem_aggregate_def mem_update_one_def guarded_def next_fault_def mem_new_def Let_def is_Exception_def new_mongo_store_def sum_counts_ordinary
      split: prod.splits sum.splits)

lemma sample_startup_returns: "fst (sample_startup down) = Inr ()"
proof -
  let ?D = "mem_driver True" and ?R = "rm_driver False (rm_new 0 [])"
  let ?s = "new_mongo_store (mongodb_uri default_settings) (mongodb_db default_settings)\<lparr>ms_client := Some (mem_new [])\<rparr>"
  let ?ap = "(new_app default_settings :: (mem, esm, redis_mem) app)\<lparr>ap_pipeline := wired default_settings ?s\<rparr>"
  obtain x where es: "es_startup (sample_es_driver down) ?ap = (Inr (), ?ap\<lparr>ap_es := x\<rparr>)"
    using es_startup_total [OF sample_es_ordinary] by blast
  obtain c where c: "redis_connect ?R (ap_redis ?ap) = (Inr (), c)"
    by (auto simp: redis_connect_def on_redis_def io_bind_def rm_driver_def rm_call_def rm_new_def Let_def)
  obtain s where s: "rollup_refresh ?D (utc_datetime 0) ?s = (Inr (), s)"
    using sample_refresh by (metis prod.collapse)
  have "fst (after_es ?D ?R (utc_datetime 0) (?ap\<lparr>ap_es := x\<rparr>)) = Inr ()"
    using c s by (simp add: after_es_def io_bind_def on_cache_def start_workers_def start_indexer_def start_rollup_def rollup_start_def
        start_pool_def wired_def)
  then show ?thesis
    by (simp add: sample_startup_def startup_phases io_bind_Inr [where m = "before_es (mem_driver True)", OF sample_before_es]
        io_bind_Inr [where m = "es_startup (sample_es_driver down)", OF es])
qed

theorem startup_outcome_witness:
  "fst (sample_startup True) = Inr () \<and> es_client (ap_es (snd (sample_startup True))) \<noteq> None \<and>
   (\<exists>s. ap_pipeline (snd (sample_startup True)) = boot default_settings s)"
proof -
  have run: "startup (mem_driver True) (sample_es_driver True) (rm_driver False (rm_new 0 [])) (utc_datetime 0) default_settings =
      (Inr (), snd (sample_startup True))"
    using sample_startup_returns [of True] by (simp add: sample_startup_def prod_eq_iff)
  from startup_outcome [OF sample_es_ordinary sample_es_ordinary [of False] this] sample_startup_returns [of True] show ?thesis by blast
qed

end
