(* ===== verification/Indexer_Steps.thy ===== *)
theory Indexer_Steps
  imports Background
begin

text \<open>
  \<open>EsIndexer._run\<close> (\<open>app/worker/es_indexer.py\<close>) cut at its awaits, so that the rest of the application can run between
  reading the outbox, sending the batch and marking it; and that an uninterrupted round is the pass of \<open>Es_Indexer\<close>.
\<close>

section \<open>Steps\<close>

text \<open>
  Where the task is: awaiting \<open>fetch_unindexed\<close>, \<open>bulk_index\<close> or \<open>mark_indexed\<close> with the batch in hand, waiting for the
  interval, or ended (by a return, or by an exception).
\<close>

datatype indexer_phase =
    Fetching
  | Indexing "event_document list"
  | Marking "event_document list"
  | Waiting
  | Left "exn option"

text \<open>The test of the loop.\<close>

definition next_round :: "es_indexer \<Rightarrow> indexer_phase" where
  "next_round k = (if xi_stop_event k then Left None else Fetching)"

text \<open>\<open>except Exception\<close> around \<open>_index_pending\<close>: count the failure and wait; anything else ends the task.\<close>

definition pass_failed :: "exn \<Rightarrow> es_indexer \<Rightarrow> es_indexer \<times> indexer_phase" where
  "pass_failed e k = (if is_Exception e then (k\<lparr>xi_index_failures := Suc (xi_index_failures k)\<rparr>, Waiting) else (k, Left (Some e)))"

text \<open>From one await to the next: the awaited call is performed, then the code runs on.\<close>

fun indexer_step ::
  "(nat \<Rightarrow> ('s, pydict list) io) \<Rightarrow> (string list \<Rightarrow> ('s, unit) io) \<Rightarrow> (event_document list \<Rightarrow> ('x, unit) io) \<Rightarrow> validator \<Rightarrow>
   es_indexer \<times> indexer_phase \<times> 's \<times> 'x \<Rightarrow> es_indexer \<times> indexer_phase \<times> 's \<times> 'x" where
  "indexer_step fetch mark bulk validate (k, Fetching, s, x) = (case fetch (nat (xi_batch_size k)) s of
     (Inl e, s1) \<Rightarrow> (case pass_failed e k of (k', ph) \<Rightarrow> (k', ph, s1, x))
   | (Inr docs, s1) \<Rightarrow>
       if docs = [] then (k, Waiting, s1, x)
       else (case validate_all validate docs of
           Inl e \<Rightarrow> (case pass_failed e k of (k', ph) \<Rightarrow> (k', ph, s1, x))
         | Inr events \<Rightarrow> (k, Indexing events, s1, x)))"
| "indexer_step fetch mark bulk validate (k, Indexing events, s, x) = (case bulk events x of
     (Inl e, x1) \<Rightarrow> (case pass_failed e k of (k', ph) \<Rightarrow> (k', ph, s, x1))
   | (Inr _, x1) \<Rightarrow> (k, Marking events, s, x1))"
| "indexer_step fetch mark bulk validate (k, Marking events, s, x) = (case mark (map event_id events) s of
     (Inl e, s1) \<Rightarrow> (case pass_failed e k of (k', ph) \<Rightarrow> (k', ph, s1, x))
   | (Inr _, s1) \<Rightarrow>
       let k' = k\<lparr>xi_events_indexed := xi_events_indexed k + length events\<rparr> in
       (k', if int (length events) = xi_batch_size k then next_round k' else Waiting, s1, x))"
| "indexer_step fetch mark bulk validate (k, Waiting, s, x) = (k, next_round k, s, x)"
| "indexer_step fetch mark bulk validate (k, Left r, s, x) = (k, Left r, s, x)"

text \<open>
  \<open>stop()\<close>: the stop event, and \<open>CancelledError\<close> at the await. The wait returns on it; a cancelled call may have taken
  effect, and the error ends the task.
\<close>

definition left_on_cancel :: "indexer_phase \<Rightarrow> indexer_phase" where
  "left_on_cancel ph = (case ph of Left r \<Rightarrow> Left r | Waiting \<Rightarrow> Left None | _ \<Rightarrow> Left (Some CancelledErr))"

text \<open>What \<open>self._task\<close> is in each phase.\<close>

definition task_of :: "indexer_phase \<Rightarrow> loop_task" where
  "task_of ph = (case ph of Left None \<Rightarrow> Returned | Left (Some e) \<Rightarrow> Ended e | _ \<Rightarrow> Looping)"

lemma stop_task_of:
  "es_indexer_stop (ph = Waiting) \<lparr>it_indexer = k, it_task = Some (task_of ph)\<rparr> =
   \<lparr>it_indexer = k\<lparr>xi_stop_event := True\<rparr>, it_task = Some (task_of (left_on_cancel ph))\<rparr>"
  by (auto simp: es_indexer_stop_def cancel_loop_def task_of_def left_on_cancel_def split: indexer_phase.split option.split)

section \<open>An uninterrupted round\<close>

text \<open>Where a pass leaves the task.\<close>

definition phase_after :: "pass \<Rightarrow> es_indexer \<Rightarrow> indexer_phase" where
  "phase_after p k = (case p of Again \<Rightarrow> next_round k | Wait \<Rightarrow> Waiting | Crash e \<Rightarrow> Left (Some e))"

lemma pass_failed_pass:
  "pass_failed e k = (case if is_Exception e then (Wait, k\<lparr>xi_index_failures := Suc (xi_index_failures k)\<rparr>) else (Crash e, k) of
     (p, k') \<Rightarrow> (k', phase_after p k'))"
  by (simp add: pass_failed_def phase_after_def)

lemma validate_all_length: "validate_all validate docs = Inr evs \<Longrightarrow> length evs = length docs"
  by (induction docs arbitrary: evs) (auto split: sum.splits)

lemma steps_are_pass:
  assumes "index_pass fetch mark bulk validate (k, s, x) = (p, k', s', x')"
  shows "\<exists>n \<le> 3. (indexer_step fetch mark bulk validate ^^ n) (k, Fetching, s, x) = (k', phase_after p k', s', x')"
proof -
  let ?step = "indexer_step fetch mark bulk validate"
  have within: "\<exists>n \<le> 3. (?step ^^ n) (k, Fetching, s, x) = t"
    if "?step (k, Fetching, s, x) = t \<or> ?step (?step (k, Fetching, s, x)) = t \<or> ?step (?step (?step (k, Fetching, s, x))) = t" for t
    using that
  proof (elim disjE)
    assume "?step (k, Fetching, s, x) = t"
    then show ?thesis by (intro exI [of _ 1]) simp
  next
    assume "?step (?step (k, Fetching, s, x)) = t"
    then show ?thesis by (intro exI [of _ 2]) (simp add: numeral_2_eq_2)
  next
    assume "?step (?step (?step (k, Fetching, s, x))) = t"
    then show ?thesis by (intro exI [of _ 3]) (simp add: numeral_3_eq_3)
  qed
  obtain r s1 where f: "fetch (nat (xi_batch_size k)) s = (r, s1)" by (metis surj_pair)
  show ?thesis
  proof (cases r)
    case (Inl e)
    with f assms show ?thesis by (intro within disjI1) (auto simp: index_pass_def index_pending_def pass_failed_pass split: if_splits)
  next
    case docs: (Inr docs)
    show ?thesis
    proof (cases "docs = []")
      case True
      with f docs assms show ?thesis by (intro within disjI1) (auto simp: index_pass_def index_pending_def phase_after_def)
    next
      case False
      show ?thesis
      proof (cases "validate_all validate docs")
        case (Inl e)
        with f docs False assms show ?thesis
          by (intro within disjI1) (auto simp: index_pass_def index_pending_def pass_failed_pass split: if_splits)
      next
        case evs: (Inr evs)
        obtain rb x1 where b: "bulk evs x = (rb, x1)" by (metis surj_pair)
        obtain rm s2 where m: "mark (map event_id evs) s1 = (rm, s2)" by (metis surj_pair)
        note run = f docs False evs b m validate_all_length [OF evs] assms
        show ?thesis
        proof (cases rb)
          case (Inl e)
          with run show ?thesis
            by - (rule within, rule disjI2, rule disjI1, auto simp: index_pass_def index_pending_def pass_failed_pass split: if_splits)
        next
          case (Inr u)
          with run show ?thesis
            by (intro within disjI2) (auto simp: index_pass_def index_pending_def pass_failed_pass phase_after_def Let_def split: if_splits sum.splits)
        qed
      qed
    qed
  qed
qed

lemma index_pass_stop:
  assumes "index_pass fetch mark bulk validate (k, s, x) = (p, k', s', x')"
  shows "xi_stop_event k' = xi_stop_event k"
  using assms by (auto simp: index_pass_def index_pending_def split: prod.splits sum.splits if_splits)

text \<open>
  The steps add up to the turn, so the two models of \<open>_run\<close> agree. From the loop's test, at most three steps of the indexer alone lead to
  exactly the counters, the stores and the end of the round that \<open>indexer_turn\<close> gives, on every branch: an empty
  outbox, a document that does not validate, a failure of either service, a short and a full batch.
\<close>

theorem indexer_steps_are_turn:
  assumes "\<not> xi_stop_event k"
    and "indexer_turn fetch mark bulk validate w (\<lparr>it_indexer = k, it_task = Some Looping\<rparr>, s, x) = (t, s', x')"
  shows "\<exists>n ph. n \<le> 3 \<and> (indexer_step fetch mark bulk validate ^^ n) (k, Fetching, s, x) = (it_indexer t, ph, s', x') \<and>
    it_task t = Some (task_of (if w = Cancelled \<and> ph = Waiting then left_on_cancel ph else ph))"
proof -
  obtain p k' s1 x1 where pass: "index_pass fetch mark bulk validate (k, s, x) = (p, k', s1, x1)" by (metis prod.exhaust)
  from steps_are_pass [OF pass] obtain n where "n \<le> 3"
    "(indexer_step fetch mark bulk validate ^^ n) (k, Fetching, s, x) = (k', phase_after p k', s1, x1)" by blast
  moreover have "it_indexer t = k' \<and> s' = s1 \<and> x' = x1 \<and>
      it_task t = Some (task_of (if w = Cancelled \<and> phase_after p k' = Waiting then left_on_cancel Waiting else phase_after p k'))"
    using assms(2) pass assms(1) index_pass_stop [OF pass]
    by (cases p) (auto simp: indexer_turn_def phase_after_def next_round_def task_of_def left_on_cancel_def split: if_splits)
  ultimately show ?thesis by (intro exI [of _ n] exI [of _ "phase_after p k'"]) auto
qed

theorem indexer_steps_are_turn_witness:
  "\<exists>n ph. n \<le> 3 \<and>
     (indexer_step (fetch_unindexed (mem_driver True)) (mark_indexed (mem_driver True)) (bulk_index (esm_driver (\<lambda>_. False) any_leaf) model_dump)
       strict_validate ^^ n) (new_es_indexer 1 5, Fetching, mem_written ''a'', sample_es []) =
     (it_indexer (fst (indexer_turn (fetch_unindexed (mem_driver True)) (mark_indexed (mem_driver True)) (bulk_index (esm_driver (\<lambda>_. False) any_leaf) model_dump)
        strict_validate Elapsed (\<lparr>it_indexer = new_es_indexer 1 5, it_task = Some Looping\<rparr>, mem_written ''a'', sample_es []))), ph,
      snd (indexer_turn (fetch_unindexed (mem_driver True)) (mark_indexed (mem_driver True)) (bulk_index (esm_driver (\<lambda>_. False) any_leaf) model_dump)
        strict_validate Elapsed (\<lparr>it_indexer = new_es_indexer 1 5, it_task = Some Looping\<rparr>, mem_written ''a'', sample_es [])))"
proof -
  have "\<not> xi_stop_event (new_es_indexer 1 5)" by (simp add: new_es_indexer_def)
  from indexer_steps_are_turn [OF this] show ?thesis by (metis prod.exhaust_sel)
qed

end
