(* ===== verification/Application.thy ===== *)
theory Application
  imports Typed_Runs Lifespan Indexer_Steps
begin

text \<open>
  The whole application running: the consumers and requests of \<open>Pipeline\<close>, the ES indexer cut at its awaits, the
  rollup scheduler, searches, probes, replays and the users of Redis, interleaved in any order over the components
  \<open>lifespan\<close> (\<open>app/main.py\<close>) wires together; and what then holds of Mongo and Elasticsearch together.
\<close>

section \<open>Steps of the application\<close>

text \<open>The components, and where the indexer's task is.\<close>

type_synonym ('m, 'e, 'r) running = "('m, 'e, 'r) app \<times> indexer_phase"

abbreviation pipe :: "('m, 'e, 'r) running \<Rightarrow> 'm mongo_store pipeline" where
  "pipe a \<equiv> ap_pipeline (fst a)"

abbreviation store_of :: "('m, 'e, 'r) running \<Rightarrow> 'm mongo_store" where
  "store_of a \<equiv> pl_store (pipe a)"

abbreviation search_of :: "('m, 'e, 'r) running \<Rightarrow> 'e es_store" where
  "search_of a \<equiv> ap_es (fst a)"

definition set_store :: "'m mongo_store \<Rightarrow> ('m, 'e, 'r) app \<Rightarrow> ('m, 'e, 'r) app" where
  "set_store s ap = ap\<lparr>ap_pipeline := (ap_pipeline ap)\<lparr>pl_store := s\<rparr>\<rparr>"

definition put_indexer :: "es_indexer \<times> indexer_phase \<times> 'm mongo_store \<times> 'e es_store \<Rightarrow> ('m, 'e, 'r) app \<Rightarrow> ('m, 'e, 'r) running" where
  "put_indexer st ap = (case st of (k, ph, s, x) \<Rightarrow>
     (set_store s (ap\<lparr>ap_indexer := \<lparr>it_indexer = k, it_task = Some (task_of ph)\<rparr>, ap_es := x\<rparr>), ph))"

text \<open>What the handlers do to Mongo beside the ingestion: replays write an event and then delete its dead letter; the rest reads.\<close>

inductive api_user :: "'m mongo_ctx \<Rightarrow> 'm mongo_store \<Rightarrow> 'm mongo_store \<Rightarrow> bool" for c where
  replaying: "bulk_write (fst c) events s = (r, s') \<Longrightarrow> \<forall>e \<in> set events. event_ok e \<Longrightarrow> api_user c s s'"
| replayed: "i \<in> event_ids_stored c s \<Longrightarrow> delete_dead_letter (fst c) i s = (r, s') \<Longrightarrow> api_user c s s'"
| queried: "store_docs (snd c) s' = store_docs (snd c) s \<Longrightarrow> api_user c s s'"

definition indexer_task_step ::
  "'m mongo_driver \<Rightarrow> 'e es_driver \<Rightarrow> (event_document \<Rightarrow> pydict) \<Rightarrow> validator \<Rightarrow> es_indexer \<times> indexer_phase \<times> 'm mongo_store \<times> 'e es_store \<Rightarrow>
   es_indexer \<times> indexer_phase \<times> 'm mongo_store \<times> 'e es_store" where
  "indexer_task_step D E dump_json validate = indexer_step (fetch_unindexed D) (mark_indexed D) (bulk_index E dump_json) validate"

text \<open>Everything that runs beside the pipeline; the Redis calls of the handlers are any change of the cache object.\<close>

inductive side_step ::
  "'m mongo_driver \<Rightarrow> 'm mongo_view \<Rightarrow> 'e es_driver \<Rightarrow> (event_document \<Rightarrow> pydict) \<Rightarrow> validator \<Rightarrow>
   ('m, 'e, 'r) running \<Rightarrow> ('m, 'e, 'r) running \<Rightarrow> bool"
  for D V E dump_json validate where
  indexing: "side_step D V E dump_json validate (ap, ph)
     (put_indexer (indexer_task_step D E dump_json validate (it_indexer (ap_indexer ap), ph, pl_store (ap_pipeline ap), ap_es ap)) ap)"
| rolling: "ro_task (ap_rollup ap) = Some Looping \<Longrightarrow> w \<noteq> Cancelled \<Longrightarrow>
     rollup_turn D w now (ap_rollup ap, pl_store (ap_pipeline ap)) = (k, s) \<Longrightarrow>
     side_step D V E dump_json validate (ap, ph) (set_store s (ap\<lparr>ap_rollup := k\<rparr>), ph)"
| calling: "api_user (D, V) (pl_store (ap_pipeline ap)) s \<Longrightarrow> side_step D V E dump_json validate (ap, ph) (set_store s ap, ph)"
| searching: "search E q et uid url from_ts to_ts size_max offset (ap_es ap) = (r, x) \<Longrightarrow>
     side_step D V E dump_json validate (ap, ph) (ap\<lparr>ap_es := x\<rparr>, ph)"
| probing: "es_ping E (ap_es ap) = (b, x) \<Longrightarrow> side_step D V E dump_json validate (ap, ph) (ap\<lparr>ap_es := x\<rparr>, ph)"
| caching: "side_step D V E dump_json validate (ap, ph) (ap\<lparr>ap_redis := c\<rparr>, ph)"

inductive app_step ::
  "'m mongo_driver \<Rightarrow> 'm mongo_view \<Rightarrow> 'e es_driver \<Rightarrow> (exn \<Rightarrow> string) \<Rightarrow> (event_document \<Rightarrow> pydict) \<Rightarrow> validator \<Rightarrow>
   ('m, 'e, 'r) running \<Rightarrow> ('m, 'e, 'r) running \<Rightarrow> bool"
  for D V E exn_str dump_json validate where
  consuming: "worker_step (bulk_write D) (persist_dead_letters D) exn_str (ap_pipeline ap) st \<Longrightarrow>
     app_step D V E exn_str dump_json validate (ap, ph) (ap\<lparr>ap_pipeline := st\<rparr>, ph)"
| requesting: "env_step (\<lambda>_ _. False) (ap_pipeline ap) st \<Longrightarrow>
     app_step D V E exn_str dump_json validate (ap, ph) (ap\<lparr>ap_pipeline := st\<rparr>, ph)"
| beside: "side_step D V E dump_json validate a a' \<Longrightarrow> app_step D V E exn_str dump_json validate a a'"

text \<open>A step in a state where no two dead-letter pushes overlap.\<close>

definition app_orderly ::
  "'m mongo_driver \<Rightarrow> 'm mongo_view \<Rightarrow> 'e es_driver \<Rightarrow> (exn \<Rightarrow> string) \<Rightarrow> (event_document \<Rightarrow> pydict) \<Rightarrow> validator \<Rightarrow>
   ('m, 'e, 'r) running \<Rightarrow> ('m, 'e, 'r) running \<Rightarrow> bool" where
  "app_orderly D V E exn_str dump_json validate a a' \<longleftrightarrow> one_push (pipe a) \<and> app_step D V E exn_str dump_json validate a a'"

section \<open>The application refines its pipeline\<close>

lemma pipe_set_store [simp]: "ap_pipeline (set_store s ap) = (ap_pipeline ap)\<lparr>pl_store := s\<rparr>"
  by (simp add: set_store_def)

lemma set_store_fields [simp]:
  "ap_es (set_store s ap) = ap_es ap" "ap_indexer (set_store s ap) = ap_indexer ap" "ap_rollup (set_store s ap) = ap_rollup ap"
  "ap_redis (set_store s ap) = ap_redis ap"
  by (simp_all add: set_store_def)

lemma put_indexer_fields [simp]:
  "pipe (put_indexer (k, ph, s, x) ap) = (ap_pipeline ap)\<lparr>pl_store := s\<rparr>" "search_of (put_indexer (k, ph, s, x) ap) = x"
  "snd (put_indexer (k, ph, s, x) ap) = ph" "ap_indexer (fst (put_indexer (k, ph, s, x) ap)) = \<lparr>it_indexer = k, it_task = Some (task_of ph)\<rparr>"
  by (simp_all add: put_indexer_def)

lemma api_user_mongo_user: "api_user c s s' \<Longrightarrow> mongo_user c s s'"
  by (induction rule: api_user.induct) (blast intro: mongo_user.rewriting mongo_user.deleting mongo_user.reading)+

text \<open>
  A replay is such a sequence of steps: what \<open>redrive\<close> does to Mongo is a read, then the write of the event found, and
  the dead letter is deleted only when the event is stored. Writes and pushes of others in between keep it stored.
\<close>

lemma event_ok_read_back: "event_ok e \<Longrightarrow> event_ok (read_back e)"
  by (simp add: event_ok_def read_back_def)

lemma redrive_users:
  assumes ct: "mongo_contract D V" and dup: "only_duplicate_errors D" and inv: "dead_letters_inv V s"
    and M: "pydantic_contract (mo_event M)" and run: "redrive D M i s = (r, s')"
  shows "(api_user (D, V))\<^sup>*\<^sup>* s s'"
proof -
  have sinv: "store_inv V s" using inv by (simp add: dead_letters_inv_def)
  have got: "api_user (D, V) s s1" if "get_dead_letter D i s = (y, s1)" for y s1
    using get_dead_letter_effect(1) [OF ct sinv that] by (intro api_user.queried) simp
  have wrote: "api_user (D, V) s1 s2 \<and> (y = Inr () \<longrightarrow> i \<in> event_ids_stored (D, V) s2)"
    if get: "get_dead_letter D i s = (Inr (Some entry), s1)" and ev: "entry_event M entry = Inr doc"
      and wr: "bulk_write D [doc] s1 = (y, s2)" for entry s1 doc y s2
  proof -
    from dead_letter_found [OF ct inv M get] ev have i: "event_id doc = i" and ok: "event_ok doc"
      by (auto simp: event_ok_read_back)
    have "api_user (D, V) s1 s2" using wr ok by (intro api_user.replaying [of "(D, V)" "[doc]" s1 y]) simp_all
    moreover have "y = Inr () \<longrightarrow> i \<in> event_ids_stored (D, V) s2"
      using bulk_write_event_ids [OF ct dup, of "[doc]" s1 s2] wr i by (auto simp: event_ids_stored_def event_ids_of_def)
    ultimately show ?thesis by blast
  qed
  from run show ?thesis
  proof (cases rule: redrive_cases)
    case (refused entry s1 doc e)
    from got [OF refused(1)] wrote [OF refused(1-3)] show ?thesis by (meson converse_rtranclp_into_rtranclp rtranclp.rtrancl_refl)
  next
    case (written entry s1 doc s2 x)
    have "api_user (D, V) s2 s'"
      using wrote [OF written(1-3)] written(4) by (intro api_user.replayed [of i "(D, V)"]) simp_all
    with got [OF written(1)] wrote [OF written(1-3)] show ?thesis
      by (meson converse_rtranclp_into_rtranclp rtranclp.rtrancl_refl)
  qed (use got in \<open>blast intro: r_into_rtranclp\<close>)+
qed

text \<open>What an indexer step does to Mongo, to Elasticsearch and to the phase.\<close>

lemma indexer_task_cases:
  assumes "indexer_task_step D E dump_json validate (k, ph, s, x) = (k', ph', s', x')"
  obtains (fetched) r n where "ph = Fetching" "fetch_unindexed D n s = (r, s')" "x' = x" "\<And>evs. ph' \<noteq> Marking evs"
    | (failed) evs e where "ph = Indexing evs" "bulk_index E dump_json evs x = (Inl e, x')" "s' = s" "\<And>evs. ph' \<noteq> Marking evs"
    | (indexed) evs where "ph = Indexing evs" "bulk_index E dump_json evs x = (Inr (), x')" "s' = s" "ph' = Marking evs"
    | (marking) evs r where "ph = Marking evs" "mark_indexed D (map event_id evs) s = (r, s')" "x' = x" "\<And>evs. ph' \<noteq> Marking evs"
    | (still) "s' = s" "x' = x" "\<And>evs. ph' \<noteq> Marking evs"
proof (cases ph)
  case Fetching
  obtain r s1 where "fetch_unindexed D (nat (xi_batch_size k)) s = (r, s1)" by (metis surj_pair)
  with assms Fetching show thesis
    by (intro fetched [of "nat (xi_batch_size k)" r]) (auto simp: indexer_task_step_def pass_failed_def split: prod.splits sum.splits if_splits)
next
  case (Indexing evs)
  obtain r x1 where b: "bulk_index E dump_json evs x = (r, x1)" by (metis surj_pair)
  show thesis
  proof (cases r)
    case (Inl e)
    with assms Indexing b show thesis by (intro failed [of evs e]) (auto simp: indexer_task_step_def pass_failed_def split: if_splits)
  next
    case (Inr u)
    with assms Indexing b show thesis by (intro indexed [of evs]) (auto simp: indexer_task_step_def)
  qed
next
  case (Marking evs)
  obtain r s1 where "mark_indexed D (map event_id evs) s = (r, s1)" by (metis surj_pair)
  with assms Marking show thesis
    by (intro marking [of evs r]) (auto simp: indexer_task_step_def pass_failed_def next_round_def Let_def split: prod.splits sum.splits if_splits)
qed (use assms in \<open>auto simp: indexer_task_step_def next_round_def intro: still split: if_splits\<close>)

lemma indexer_task_user:
  assumes "mongo_contract D V" and "indexer_task_step D E dump_json validate (k, ph, s, x) = (k', ph', s', x')"
  shows "mongo_user (D, V) s s'"
  using assms(2)
proof (cases rule: indexer_task_cases)
  case (fetched r n)
  have "store_docs V s' = store_docs V s"
    using mongo_fetch_kept [of "(D, V)" n s r s'] fetched assms(1) by (simp add: outbox_good_def mongo_fetch_def)
  then show ?thesis by (intro mongo_user.reading) simp
next
  case (marking evs r)
  then show ?thesis by (intro mongo_user.marking [of "(D, V)"]) simp
qed (auto intro: mongo_user.reading)

lemma rollup_turn_user:
  assumes "rollup_turn D w now (k, s) = (k', s')"
  shows "mongo_user (D, V) s s'"
proof (cases "w = Cancelled \<or> ro_stop_event k")
  case True
  with assms show ?thesis by (auto simp: rollup_turn_def intro: mongo_user.reading)
next
  case False
  obtain r s1 where run: "rollup_refresh D now s = (r, s1)" by (metis surj_pair)
  from run obtain r0 where "refresh_event_type_rollup D now s = (r0, s1)" by (cases rule: rollup_refresh_cases) auto
  moreover have "s' = s1" using assms False run by (auto simp: rollup_turn_def split: sum.splits)
  ultimately show ?thesis by (intro mongo_user.refreshing [of "(D, V)"]) simp
qed

lemma side_step_user:
  assumes "mongo_contract D V" and "side_step D V E dump_json validate a a'"
  shows "\<exists>s. mongo_user (D, V) (store_of a) s \<and> pipe a' = (pipe a)\<lparr>pl_store := s\<rparr>"
  using assms(2)
proof (cases rule: side_step.cases)
  case (indexing ap ph)
  obtain k ph' s x where step: "indexer_task_step D E dump_json validate (it_indexer (ap_indexer ap), ph, pl_store (ap_pipeline ap), ap_es ap) = (k, ph', s, x)"
    by (metis prod.exhaust)
  from indexer_task_user [OF assms(1) step] indexing step show ?thesis by auto
next
  case (rolling ap w now k s ph)
  with rollup_turn_user [OF rolling(5), of V] show ?thesis by auto
next
  case (calling ap s ph)
  from api_user_mongo_user [OF calling(3)] calling show ?thesis by auto
qed (auto intro: exI [of _ "store_of a"] mongo_user.reading)

lemma env_step_mono: "env_step p st st' \<Longrightarrow> (\<And>s s'. p s s' \<Longrightarrow> q s s') \<Longrightarrow> env_step q st st'"
  unfolding env_step_iff by blast

text \<open>Each step of the application is a step of the pipeline over the shared store.\<close>

lemma app_step_pipeline:
  assumes "mongo_contract D V" and "app_step D V E exn_str dump_json validate a a'"
  shows "mongo_step D V exn_str (pipe a) (pipe a')"
  using assms(2)
proof (cases rule: app_step.cases)
  case (consuming ap st ph)
  then show ?thesis by (simp add: mongo_step_def pipeline_step_def)
next
  case (requesting ap st ph)
  then show ?thesis using env_step_mono [of "\<lambda>_ _. False"] by (auto simp: mongo_step_def pipeline_step_def)
next
  case beside
  from side_step_user [OF assms(1) this] show ?thesis
    by (auto simp: mongo_step_def pipeline_step_def intro: env_step.other_user)
qed

lemma app_orderly_pipeline:
  assumes "mongo_contract D V" and "app_orderly D V E exn_str dump_json validate a a'"
  shows "mongo_orderly D V exn_str (pipe a) (pipe a')"
  using assms(2) app_step_pipeline [OF assms(1), of E exn_str dump_json validate a a']
  by (simp add: app_orderly_def mongo_orderly_def orderly_step_def mongo_step_def)

lemma app_run_pipeline:
  assumes "mongo_contract D V"
  shows "(app_step D V E exn_str dump_json validate)\<^sup>*\<^sup>* a a' \<Longrightarrow> (mongo_step D V exn_str)\<^sup>*\<^sup>* (pipe a) (pipe a')"
    and "(app_orderly D V E exn_str dump_json validate)\<^sup>*\<^sup>* a a' \<Longrightarrow> (mongo_orderly D V exn_str)\<^sup>*\<^sup>* (pipe a) (pipe a')"
proof -
  show "(mongo_step D V exn_str)\<^sup>*\<^sup>* (pipe a) (pipe a')" if "(app_step D V E exn_str dump_json validate)\<^sup>*\<^sup>* a a'"
    using that by (induction rule: rtranclp_induct) (auto intro: rtranclp.rtrancl_into_rtrancl dest!: app_step_pipeline [OF assms])
  show "(mongo_orderly D V exn_str)\<^sup>*\<^sup>* (pipe a) (pipe a')" if "(app_orderly D V E exn_str dump_json validate)\<^sup>*\<^sup>* a a'"
    using that by (induction rule: rtranclp_induct) (auto intro: rtranclp.rtrancl_into_rtrancl dest!: app_orderly_pipeline [OF assms])
qed

section \<open>Mongo and the search mirror\<close>

text \<open>
  A second reading of the interface of \<open>Typed_Runs\<close>: the events marked as indexed stay within a given set, as no
  one but the indexer marks events.
\<close>

type_synonym 'm marked_ctx = "'m mongo_ctx \<times> string set"

definition marked_good :: "'m marked_ctx \<Rightarrow> bool" where
  "marked_good c \<longleftrightarrow> outbox_good (fst c)"

definition marked_within :: "'m marked_ctx \<Rightarrow> 'm mongo_store \<Rightarrow> bool" where
  "marked_within c s \<longleftrightarrow> mongo_shaped (fst c) s \<and> marker_ids True (fst c) s \<subseteq> snd c"

lemma markers_of_news:
  assumes "store_docs (snd c) s' COLLECTION = store_docs (snd c) s COLLECTION @ news"
    and "\<forall>d \<in> set news. dict_get d ''es_indexed'' = Some (PBool False)"
  shows "marker_ids True c s' = marker_ids True c s"
  using assms by (auto simp: marker_ids_def)

lemma write_marks_nothing:
  assumes "outbox_good c" and "mongo_shaped c s" and "bulk_write (fst c) b s = (r, s')"
  shows "marker_ids True c s' = marker_ids True c s"
proof -
  from assms(1) have ct: "mongo_contract (fst c) (snd c)" by (simp add: outbox_good_def)
  note eff = bulk_write_effect [OF ct mongo_shaped_inv [OF assms(2)] assms(3)]
  obtain news where "store_docs (snd c) s' COLLECTION = store_docs (snd c) s COLLECTION @ news"
    "\<forall>n \<in> set news. dict_get n ''es_indexed'' = Some (PBool False)"
    using eff [THEN conjunct2, THEN conjunct2, THEN conjunct1] by blast
  then show ?thesis by (rule markers_of_news)
qed

lemma persist_marks_nothing:
  assumes "outbox_good c" and "persist_dead_letters (fst c) (map entry_to_doc p) s = (r, s')"
  shows "marker_ids True c s' = marker_ids True c s"
  using assms(2)
proof (cases rule: persist_cases)
  case 2
  from assms(1) have ct: "mongo_contract (fst c) (snd c)" by (simp add: outbox_good_def)
  have ids: "\<forall>d \<in> set (map entry_to_doc p). \<exists>i. doc_id d = Some (PStr i)" by simp
  from ct ids 2(2) show ?thesis
  proof (rule insert_skipping_news)
    assume "\<And>k. k \<noteq> DEAD_LETTER \<Longrightarrow> store_docs (snd c) s' k = store_docs (snd c) s k"
    from this [of COLLECTION] show ?thesis by (simp add: marker_ids_def)
  qed
qed simp

lemma api_user_marks_nothing:
  assumes "outbox_good c" and "mongo_shaped c s" and "api_user c s s'"
  shows "marker_ids True c s' = marker_ids True c s"
  using assms(3)
proof (cases rule: api_user.cases)
  case (replaying events r)
  show ?thesis by (rule write_marks_nothing [OF assms(1,2) replaying(1)])
next
  case (replayed i r)
  from assms(1) have "mongo_contract (fst c) (snd c)" by (simp add: outbox_good_def)
  from delete_dead_letter_effect [OF this mongo_shaped_inv [OF assms(2)] replayed(2)]
  have "store_docs (snd c) s' COLLECTION = store_docs (snd c) s COLLECTION" by simp
  then show ?thesis by (simp add: marker_ids_def)
qed (simp add: marker_ids_def)

interpretation mongo_marked: typed_store marked_good marked_within "\<lambda>c. mongo_write (fst c)" "\<lambda>c. mongo_persist (fst c)" "\<lambda>c. api_user (fst c)"
proof
  fix c :: "'m marked_ctx" and s s' :: "'m mongo_store" and b p r
  assume good: "marked_good c" and within: "marked_within c s"
  note inv = good [unfolded marked_good_def] within [unfolded marked_within_def, THEN conjunct1]
  show "marked_within c s'" if "\<forall>e \<in> set b. event_ok e" "mongo_write (fst c) b s = (r, s')"
    using that(2) mongo_write_shaped [OF inv that(1), of r s'] write_marks_nothing [OF inv, of b r s'] within
    by (simp add: marked_within_def mongo_write_def)
  show "marked_within c s'" if "\<forall>en \<in> set p. event_ok (de_event en)" "mongo_persist (fst c) (map entry_to_doc p) s = (r, s')"
    using that(2) mongo_persist_shaped [OF inv that(1), of r s'] persist_marks_nothing [OF inv(1), of p s r s'] within
    by (simp add: marked_within_def mongo_persist_def)
  show "marked_within c s'" if "api_user (fst c) s s'"
    using mongo_user_shaped [OF inv api_user_mongo_user [OF that]] api_user_marks_nothing [OF inv that] within
    by (simp add: marked_within_def)
qed

end
