(* ===== verification/App_Runs.thy ===== *)
theory App_Runs
  imports Application
begin

text \<open>
  Runs of the whole application: Elasticsearch is never behind what Mongo says it holds, and every accepted event
  is on its way to the search mirror or kept as a dead letter.
\<close>

section \<open>What is marked is indexed\<close>

text \<open>The batch the indexer is about to mark is in the index.\<close>

definition batch_indexed :: "'e es_view \<Rightarrow> indexer_phase \<Rightarrow> 'e es_store \<Rightarrow> bool" where
  "batch_indexed W ph x \<longleftrightarrow> (\<forall>evs. ph = Marking evs \<longrightarrow> event_id ` set evs \<subseteq> es_ids W x)"

definition mirrored :: "'m mongo_ctx \<Rightarrow> 'e es_view \<Rightarrow> ('m, 'e, 'r) running \<Rightarrow> bool" where
  "mirrored c W a \<longleftrightarrow> typed (pipe a) \<and> marked_within (c, es_ids W (search_of a)) (store_of a) \<and> batch_indexed W (snd a) (search_of a)"

lemma marked_within_grow: "marked_within (c, X) s \<Longrightarrow> X \<subseteq> Y \<Longrightarrow> marked_within (c, Y) s"
  by (auto simp: marked_within_def)

lemma batch_indexed_idle [simp]: "(\<And>evs. ph \<noteq> Marking evs) \<Longrightarrow> batch_indexed W ph x"
  by (simp add: batch_indexed_def)

lemma rollup_marks_nothing:
  assumes "outbox_good c" and "mongo_shaped c s" and "rollup_turn (fst c) w now (k, s) = (k', s')"
  shows "marker_ids b c s' = marker_ids b c s"
proof (cases "w = Cancelled \<or> ro_stop_event k")
  case True
  with assms(3) show ?thesis by (auto simp: rollup_turn_def)
next
  case False
  from assms(1) have ct: "mongo_contract (fst c) (snd c)" by (simp add: outbox_good_def)
  obtain r s1 where run: "rollup_refresh (fst c) now s = (r, s1)" by (metis surj_pair)
  have "s' = s1" using assms(3) False run by (auto simp: rollup_turn_def split: sum.splits)
  with rollup_refresh_keeps(2) [OF ct mongo_shaped_inv [OF assms(2)] run, of COLLECTION] show ?thesis by (simp add: marker_ids_def)
qed

lemma indexer_task_mirrors:
  assumes "outbox_good (D, V)" and "es_contract E W" and "no_item_errors E"
    and "marked_within ((D, V), es_ids W x) s" and "batch_indexed W ph x"
    and run: "indexer_task_step D E dump_json validate (k, ph, s, x) = (k', ph', s', x')"
  shows "marked_within ((D, V), es_ids W x') s' \<and> batch_indexed W ph' x' \<and> es_ids W x \<subseteq> es_ids W x'"
proof -
  have ct: "mongo_contract D V" using assms(1) by (simp add: outbox_good_def)
  have shaped: "mongo_shaped (D, V) s" using assms(4) by (simp add: marked_within_def)
  have shaped': "mongo_shaped (D, V) s'"
    by (rule mongo_user_shaped [OF assms(1) shaped indexer_task_user [OF ct run]])
  from run show ?thesis
  proof (cases rule: indexer_task_cases)
    case (fetched r n)
    have "store_docs V s' = store_docs V s"
      using mongo_fetch_kept [OF assms(1), of n s r s'] fetched(2) by (simp add: mongo_fetch_def)
    then have "marker_ids True (D, V) s' = marker_ids True (D, V) s" by (simp add: marker_ids_def)
    with fetched assms(4) shaped' show ?thesis by (simp add: marked_within_def)
  next
    case (failed evs e)
    with bulk_index_effect(1) [OF assms(2) failed(2)] assms(4) show ?thesis by (auto intro: marked_within_grow)
  next
    case (indexed evs)
    note eff = bulk_index_effect(1) [OF assms(2) indexed(2)] bulk_index_effect(2) [OF assms(2) indexed(2) assms(3) refl]
    with indexed assms(4) show ?thesis by (auto simp: batch_indexed_def intro: marked_within_grow)
  next
    case (marking evs r)
    have inv: "outbox_inv (D, V) s" using shaped by (simp add: mongo_shaped_def)
    have "marker_ids True (D, V) s' \<subseteq> marker_ids True (D, V) s \<union> event_id ` set evs"
      using mark_markers(4) [OF assms(1) inv, of "map event_id evs" r s'] marking(2) by (simp add: mongo_mark_def)
    moreover have "event_id ` set evs \<subseteq> es_ids W x" using assms(5) marking(1) by (simp add: batch_indexed_def)
    moreover have "marker_ids True (D, V) s \<subseteq> es_ids W x" using assms(4) by (simp add: marked_within_def)
    ultimately have "marker_ids True (D, V) s' \<subseteq> es_ids W x" by blast
    with marking shaped' show ?thesis by (simp add: marked_within_def)
  next
    case still
    with assms(4) show ?thesis by simp
  qed
qed

lemma searches_kept:
  assumes "es_contract E W"
  shows "search E q et uid url from_ts to_ts n offset x = (r, x') \<Longrightarrow> es_ids W x' = es_ids W x"
    and "es_ping E x = (b, x') \<Longrightarrow> es_ids W x' = es_ids W x"
proof -
  have k: "es_kept W (es_query E ix qu n off xs t)" "es_kept W (es_alive E)" for ix qu n off xs t using assms by (simp_all add: es_contract_def)
  show "es_ids W x' = es_ids W x" if "search E q et uid url from_ts to_ts n offset x = (r, x')"
    using that unfolding search_def
  proof (cases rule: io_bind_cases)
    case (raised e)
    from on_es_kept(1) [OF k(1) raised(1)] show ?thesis .
  next
    case (returned resp x1)
    from on_es_kept(1) [OF k(1) returned(1)] returned(2) show ?thesis by (auto split: sum.splits)
  qed
  show "es_ids W x' = es_ids W x" if "es_ping E x = (b, x')"
  proof -
    obtain r x1 where call: "on_es (es_alive E) x = (r, x1)" by (metis surj_pair)
    with that have "x' = x1" by (auto simp: es_ping_def io_catch_def split: sum.splits if_splits)
    with on_es_kept(1) [OF k(2) call] show ?thesis by simp
  qed
qed

lemma side_step_mirrored:
  assumes "outbox_good (D, V)" and "es_contract E W" and "no_item_errors E"
    and "side_step D V E dump_json validate a a'" and "mirrored (D, V) W a"
  shows "mirrored (D, V) W a' \<and> es_ids W (search_of a) \<subseteq> es_ids W (search_of a')"
  using assms(4)
proof (cases rule: side_step.cases)
  case (indexing ap ph)
  obtain k ph' s x where step: "indexer_task_step D E dump_json validate (it_indexer (ap_indexer ap), ph, pl_store (ap_pipeline ap), ap_es ap) = (k, ph', s, x)"
    by (metis prod.exhaust)
  from assms(5) indexing(1) have "marked_within ((D, V), es_ids W (ap_es ap)) (pl_store (ap_pipeline ap))" "batch_indexed W ph (ap_es ap)" "typed (ap_pipeline ap)"
    by (simp_all add: mirrored_def)
  with indexer_task_mirrors [OF assms(1-3) this(1,2) step] indexing(1,2) step show ?thesis by (simp add: mirrored_def)
next
  case (rolling ap w now k s ph)
  from assms(5) rolling(1) have m: "marked_within ((D, V), es_ids W (ap_es ap)) (pl_store (ap_pipeline ap))" by (simp add: mirrored_def)
  then have shaped: "mongo_shaped (D, V) (pl_store (ap_pipeline ap))" by (simp add: marked_within_def)
  have "mongo_shaped (D, V) s" by (rule mongo_user_shaped [OF assms(1) shaped rollup_turn_user [OF rolling(5)]])
  with rollup_marks_nothing [OF assms(1) shaped, of w now _ k s True] rolling(5) m
  have "marked_within ((D, V), es_ids W (ap_es ap)) s" by (simp add: marked_within_def)
  with assms(5) rolling(1,2) show ?thesis by (simp add: mirrored_def)
next
  case (calling ap s ph)
  from assms(5) calling(1) have m: "marked_within ((D, V), es_ids W (ap_es ap)) (pl_store (ap_pipeline ap))" by (simp add: mirrored_def)
  have "marked_within ((D, V), es_ids W (ap_es ap)) s"
    using mongo_marked.others_shaped [OF _ m, of s] calling(3) assms(1) by (simp add: marked_good_def)
  with assms(5) calling(1,2) show ?thesis by (simp add: mirrored_def)
next
  case (searching q et uid url from_ts to_ts size_max offset ap r x ph)
  from searches_kept(1) [OF assms(2) searching(3)] assms(5) searching(1,2) show ?thesis by (simp add: mirrored_def batch_indexed_def)
next
  case (probing ap b x ph)
  from searches_kept(2) [OF assms(2) probing(3)] assms(5) probing(1,2) show ?thesis by (simp add: mirrored_def batch_indexed_def)
next
  case (caching ap ph c)
  with assms(5) show ?thesis by (simp add: mirrored_def)
qed

lemma app_step_mirrored:
  assumes "outbox_good (D, V)" and "es_contract E W" and "no_item_errors E"
    and "app_step D V E exn_str dump_json validate a a'" and "mirrored (D, V) W a"
  shows "mirrored (D, V) W a' \<and> es_ids W (search_of a) \<subseteq> es_ids W (search_of a')"
  using assms(4)
proof (cases rule: app_step.cases)
  case (consuming ap st ph)
  from assms(5) consuming(1) have m: "typed (ap_pipeline ap)" "marked_within ((D, V), es_ids W (ap_es ap)) (pl_store (ap_pipeline ap))"
    by (simp_all add: mirrored_def)
  have "worker_step (mongo_write (D, V)) (mongo_persist (D, V)) exn_str (ap_pipeline ap) st"
    using consuming(3) by (simp add: mongo_write_def [abs_def] mongo_persist_def)
  with mongo_marked.worker_step_typed [of "((D, V), es_ids W (ap_es ap))", OF _ _ m] assms(1)
  have "typed st \<and> marked_within ((D, V), es_ids W (ap_es ap)) (pl_store st)" by (simp add: marked_good_def)
  with assms(5) consuming(1,2) show ?thesis by (simp add: mirrored_def)
next
  case (requesting ap st ph)
  from assms(5) requesting(1) have m: "typed (ap_pipeline ap)" "marked_within ((D, V), es_ids W (ap_es ap)) (pl_store (ap_pipeline ap))"
    by (simp_all add: mirrored_def)
  have "env_step (api_user (D, V)) (ap_pipeline ap) st" using env_step_mono [OF requesting(3)] by blast
  with mongo_marked.env_step_typed [of "((D, V), es_ids W (ap_es ap))", OF _ _ m] assms(1)
  have "typed st \<and> marked_within ((D, V), es_ids W (ap_es ap)) (pl_store st)" by (simp add: marked_good_def)
  with assms(5) requesting(1,2) show ?thesis by (simp add: mirrored_def)
next
  case beside
  from side_step_mirrored [OF assms(1-3) this assms(5)] show ?thesis .
qed

lemma app_run_mirrored:
  assumes "outbox_good (D, V)" and "es_contract E W" and "no_item_errors E"
    and "(app_step D V E exn_str dump_json validate)\<^sup>*\<^sup>* a a'" and "mirrored (D, V) W a"
  shows "mirrored (D, V) W a' \<and> es_ids W (search_of a) \<subseteq> es_ids W (search_of a')"
  using assms(4)
proof (induction rule: rtranclp_induct)
  case (step a1 a2)
  from app_step_mirrored [OF assms(1-3) step(2) step(3) [THEN conjunct1]] step(3) show ?case by (meson subset_trans)
qed (simp add: assms(5))

lemma shaped_markers:
  assumes "mongo_shaped c s"
  shows "stored_ids (snd c) s COLLECTION = marker_ids False c s \<union> marker_ids True c s"
proof (intro equalityI subsetI)
  fix i
  assume "i \<in> stored_ids (snd c) s COLLECTION"
  then obtain d where d: "d \<in> set (store_docs (snd c) s COLLECTION)" "doc_id d = Some (PStr i)" by (auto simp: stored_ids_def)
  from d(1) assms obtain e b where "event_doc e b d" by (auto simp: mongo_shaped_def outbox_inv_def)
  then have "dict_get d ''es_indexed'' = Some (PBool b)" by (simp add: event_doc_def)
  with d show "i \<in> marker_ids False c s \<union> marker_ids True c s" by (cases b) (auto simp: marker_ids_def)
qed (force simp: marker_ids_def stored_ids_def)

lemma within_stored: "marked_within (c, X) s \<Longrightarrow> stored_ids (snd c) s COLLECTION \<subseteq> marker_ids False c s \<union> X"
  using shaped_markers [of c s] by (auto simp: marked_within_def)

lemma started_run_within:
  assumes "mongo_contract D V" and "es_contract E W" and "no_item_errors E"
    and "ap_pipeline ap = boot cfg s" and "outbox_inv (D, V) s" and "dead_letters_inv V s" and "marker_ids True (D, V) s \<subseteq> es_ids W (ap_es ap)"
    and "(app_step D V E exn_str dump_json validate)\<^sup>*\<^sup>* (ap, Fetching) a"
  shows "marked_within ((D, V), es_ids W (search_of a)) (store_of a)" and "es_ids W (ap_es ap) \<subseteq> es_ids W (search_of a)"
proof -
  have good: "outbox_good (D, V)" using assms(1) by (simp add: outbox_good_def)
  have "mirrored (D, V) W (ap, Fetching)"
    using assms(4-7) boot_typed [of cfg s] by (simp add: mirrored_def marked_within_def mongo_shaped_def)
  from app_run_mirrored [OF good assms(2,3,8) this]
  show "marked_within ((D, V), es_ids W (search_of a)) (store_of a)" "es_ids W (ap_es ap) \<subseteq> es_ids W (search_of a)"
    by (simp_all add: mirrored_def)
qed

section \<open>Properties\<close>

text \<open>
  C7: the search mirror of the running application. Start from the pipeline as the startup leaves it, over a Mongo
  whose events were marked only when Elasticsearch held them. In every state the application reaches, however
  requests, consumers, searches, replays, rollups and the awaits of the indexer interleave and whatever fails: what
  Mongo marks as indexed is in Elasticsearch, every stored event is in it or still pending in the outbox, and the
  index has lost nothing. (The index is assumed to reject no single document.)
\<close>

theorem application_mirror:
  assumes "mongo_contract D V" and "es_contract E W" and "no_item_errors E"
    and "ap_pipeline ap = boot cfg s" and "outbox_inv (D, V) s" and "dead_letters_inv V s" and "marker_ids True (D, V) s \<subseteq> es_ids W (ap_es ap)"
    and "(app_step D V E exn_str dump_json validate)\<^sup>*\<^sup>* (ap, Fetching) a"
  shows "marker_ids True (D, V) (store_of a) \<subseteq> es_ids W (search_of a) \<and>
    stored_ids V (store_of a) COLLECTION \<subseteq> marker_ids False (D, V) (store_of a) \<union> es_ids W (search_of a) \<and>
    es_ids W (ap_es ap) \<subseteq> es_ids W (search_of a)"
  using started_run_within [OF assms] within_stored [OF started_run_within(1) [OF assms]] by (simp add: marked_within_def)

text \<open>
  C2: what becomes of an accepted event, across all components. In every state the application reaches by steps
  in which two dead-letter pushes do not overlap, an event answered with 202 is queued, in a consumer's hands, kept
  as a dead letter (recorded or buffered), stored and waiting in the outbox, or stored and in Elasticsearch. (The
  index is assumed to reject no single document; C37 shows what happens when it does.)
\<close>

theorem application_delivers:
  assumes "mongo_contract D V" and "only_duplicate_errors D" and "es_contract E W" and "no_item_errors E"
    and "ap_pipeline ap = boot cfg s" and "outbox_inv (D, V) s" and "dead_letters_inv V s" and "marker_ids True (D, V) s \<subseteq> es_ids W (ap_es ap)"
    and "max_retries cfg = int n" and "n \<le> 1024" and run: "(app_orderly D V E exn_str dump_json validate)\<^sup>*\<^sup>* (ap, Fetching) a"
  shows "pl_accepted (pipe a) \<subseteq> event_ids_of (q_items (pl_queue (pipe a))) \<union> event_ids_of (concat (map in_flight (pl_tasks (pipe a)))) \<union>
    stored_ids V (store_of a) DEAD_LETTER \<union> buffered_ids (pl_dlq (pipe a)) \<union>
    marker_ids False (D, V) (store_of a) \<union> (stored_ids V (store_of a) COLLECTION \<inter> es_ids W (search_of a))"
proof -
  have good: "sink_good (D, V)" and inv: "sink_inv (D, V) s"
    using assms(1,2,6) by (simp_all add: sink_good_def outbox_inv_def sink_inv_def)
  have "(app_step D V E exn_str dump_json validate)\<^sup>*\<^sup>* (ap, Fetching) a"
    using run by (rule rtranclp_mono [THEN predicate2D, rotated]) (auto simp: app_orderly_def)
  from within_stored [OF started_run_within(1) [OF assms(1,3-8) this]]
  have stored: "stored_ids V (store_of a) COLLECTION \<subseteq> marker_ids False (D, V) (store_of a) \<union> es_ids W (search_of a)" by simp
  from app_run_pipeline(2) [OF assms(1) run] have "(mongo_orderly D V exn_str)\<^sup>*\<^sup>* (boot cfg s) (pipe a)" by (simp add: assms(5))
  from mongo_pipeline.run_keeps_events [OF good assms(10) boot_well [OF inv assms(9)] _ this [unfolded mongo_step_ctx]]
  have "pl_accepted (pipe a) \<subseteq> mongo_events.held (D, V) (pl_dlq (pipe a)) (store_of a) \<union>
      event_ids_of (q_items (pl_queue (pipe a)) @ concat (map in_flight (pl_tasks (pipe a))))" by simp
  with stored show ?thesis by (auto simp: mongo_held)
qed

section \<open>A run\<close>

text \<open>The run of \<open>Pipeline_Mongo\<close> inside an application, followed by a round of the indexer.\<close>

definition sample_app :: "mem mongo_store pipeline \<Rightarrow> (mem, esm, redis_mem) app" where
  "sample_app st = (new_app one_worker)\<lparr>ap_pipeline := st, ap_es := sample_es [],
     ap_indexer := \<lparr>it_indexer = new_es_indexer 100 5, it_task = Some Looping\<rparr>\<rparr>"

definition index_once :: "(mem, esm, redis_mem) running \<Rightarrow> (mem, esm, redis_mem) running" where
  "index_once a = (case a of (ap, ph) \<Rightarrow> put_indexer (indexer_task_step (mem_driver True) (esm_driver (\<lambda>_. False) any_leaf) model_dump strict_validate
     (it_indexer (ap_indexer ap), ph, pl_store (ap_pipeline ap), ap_es ap)) ap)"

definition run_indexed :: "(mem, esm, redis_mem) running" where
  "run_indexed = index_once (index_once (index_once (sample_app run_stored, Fetching)))"

abbreviation sample_step :: "(mem, esm, redis_mem) running \<Rightarrow> (mem, esm, redis_mem) running \<Rightarrow> bool" where
  "sample_step \<equiv> app_orderly (mem_driver True) mem_view (esm_driver (\<lambda>_. False) any_leaf) (\<lambda>_. ''x'') model_dump strict_validate"

lemma index_once_pipe: "\<exists>s. pipe (index_once a) = (pipe a)\<lparr>pl_store := s\<rparr>"
  unfolding index_once_def by (cases a) (auto simp: put_indexer_def split: prod.splits)

lemma index_once_fields [simp]:
  "pl_service (pipe (index_once a)) = pl_service (pipe a)" "pl_tasks (pipe (index_once a)) = pl_tasks (pipe a)"
  "pl_dlq (pipe (index_once a)) = pl_dlq (pipe a)" "pl_accepted (pipe (index_once a)) = pl_accepted (pipe a)"
  using index_once_pipe [of a] by auto

lemma index_once_step:
  assumes "length (pl_tasks (pipe a)) = 1"
  shows "sample_step a (index_once a)"
proof -
  obtain ap ph where a: "a = (ap, ph)" by force
  show ?thesis unfolding app_orderly_def a index_once_def
    using assms single_task_one_push by (auto simp: a intro!: app_step.beside side_step.indexing)
qed

lemma sample_app_fields [simp]: "ap_pipeline (sample_app st) = st" "ap_es (sample_app st) = sample_es []" "(sample_app st)\<lparr>ap_pipeline := st'\<rparr> = sample_app st'"
  by (simp_all add: sample_app_def)

lemma run_indexed_steps: "sample_step\<^sup>*\<^sup>* (sample_app (boot one_worker (mem_store [])), Fetching) run_indexed"
proof -
  let ?b = "boot one_worker (mem_store [])"
  have one: "one_push ?b" "one_push run_accepted" "one_push run_taken"
    by (simp_all add: single_task_one_push run_taken_def run_accepted_eq)
  have "env_step (\<lambda>_ _. False) ?b
     (?b\<lparr>pl_service := \<lparr>is_queue = \<lparr>q_items = [sample_event keyed_id], q_maxsize = 10000, q_unfinished = 1\<rparr>, is_accepting = True\<rparr>,
       pl_accepted := insert (event_id (sample_event keyed_id)) (pl_accepted ?b)\<rparr>)"
    by (rule env_step.accepted [OF boot_ingest]) (simp add: event_ok_def sample_create_def)
  then have e: "env_step (\<lambda>_ _. False) ?b run_accepted" by (simp add: run_accepted_eq)
  have w: "sample_step (sample_app st, Fetching) (sample_app st', Fetching)"
    if "one_push st" "mongo_worker (mem_driver True) (\<lambda>_. ''x'') st st'" for st st'
    using that app_step.consuming [where ap = "sample_app st" and st = st'] by (simp add: app_orderly_def mongo_worker_def)
  have "sample_step (sample_app ?b, Fetching) (sample_app run_accepted, Fetching)"
    using one(1) e app_step.requesting [where ap = "sample_app ?b" and st = run_accepted] by (simp add: app_orderly_def)
  moreover note w [OF one(2) run_steps(2)] w [OF one(3) run_steps(3)]
  moreover have "sample_step (sample_app run_stored, Fetching) (index_once (sample_app run_stored, Fetching))"
    "sample_step (index_once (sample_app run_stored, Fetching)) (index_once (index_once (sample_app run_stored, Fetching)))"
    "sample_step (index_once (index_once (sample_app run_stored, Fetching))) run_indexed"
    unfolding run_indexed_def by (rule index_once_step, simp add: run_stored_fields)+
  ultimately show ?thesis by (meson rtranclp.rtrancl_into_rtrancl rtranclp.rtrancl_refl)
qed

lemma sample_mongo_empty:
  "outbox_inv (mem_driver True, mem_view) (mem_store [])" "dead_letters_inv mem_view (mem_store [])"
  "marker_ids True (mem_driver True, mem_view) (mem_store []) \<subseteq> X"
  using mem_store_inv
  by (simp_all add: outbox_inv_def dead_letters_inv_def marker_ids_def store_docs_def mem_store_def mem_view_def mem_new_def)

theorem application_mirror_witness:
  "stored_ids mem_view (store_of run_indexed) COLLECTION \<subseteq>
     marker_ids False (mem_driver True, mem_view) (store_of run_indexed) \<union> es_ids esm_view (search_of run_indexed)"
proof -
  have "(app_step (mem_driver True) mem_view (esm_driver (\<lambda>_. False) any_leaf) (\<lambda>_. ''x'') model_dump strict_validate)\<^sup>*\<^sup>*
      (sample_app (boot one_worker (mem_store [])), Fetching) run_indexed"
    using run_indexed_steps by (rule rtranclp_mono [THEN predicate2D, rotated]) (auto simp: app_orderly_def)
  from application_mirror [OF mem_contract esm_contract esm_no_item_errors _ sample_mongo_empty this] show ?thesis by simp
qed

theorem application_delivers_witness:
  "keyed_id \<in> stored_ids mem_view (store_of run_indexed) DEAD_LETTER \<union> marker_ids False (mem_driver True, mem_view) (store_of run_indexed) \<union>
     (stored_ids mem_view (store_of run_indexed) COLLECTION \<inter> es_ids esm_view (search_of run_indexed))"
  using application_delivers [OF mem_contract mem_only_duplicates esm_contract esm_no_item_errors _ sample_mongo_empty _ _ run_indexed_steps, of one_worker 5]
  by (simp add: run_indexed_def run_stored_fields event_ids_of_def buffered_ids_def new_dlq_def)

end
