(* ===== verification/Shutdown.thy ===== *)
theory Shutdown
  imports App_Runs
begin

text \<open>
  The shutdown of \<open>main.lifespan\<close> over the running application: after \<open>stop_accepting()\<close> no request is accepted,
  the pool drains, and cancelling what is left takes nothing out of the store or the DLQ's buffer.
\<close>

section \<open>Stopping the components\<close>

text \<open>A consumer that is gone: it left, or died.\<close>

definition gone :: "task \<Rightarrow> bool" where
  "gone t \<longleftrightarrow> t = Finished \<or> (\<exists>e. t = Died e)"

definition closing :: "'s pipeline \<Rightarrow> 's pipeline" where
  "closing st = st\<lparr>pl_service := stop_accepting (pl_service st)\<rparr>"

definition signalling :: "'s pipeline \<Rightarrow> 's pipeline" where
  "signalling st = st\<lparr>pl_pool := (pl_pool st)\<lparr>wp_stop_event := True\<rparr>\<rparr>"

text \<open>While the consumers are cancelled and gathered, the rest of the application goes on.\<close>

inductive cancelling ::
  "'m mongo_driver \<Rightarrow> 'm mongo_view \<Rightarrow> 'e es_driver \<Rightarrow> (event_document \<Rightarrow> pydict) \<Rightarrow> validator \<Rightarrow>
   ('m, 'e, 'r) running \<Rightarrow> ('m, 'e, 'r) running \<Rightarrow> bool"
  for D V E dump_json validate where
  consumer: "cancel_step (bulk_write D) (persist_dead_letters D) (ap_pipeline ap) st \<Longrightarrow>
     cancelling D V E dump_json validate (ap, ph) (ap\<lparr>ap_pipeline := st\<rparr>, ph)"
| meanwhile: "side_step D V E dump_json validate a a' \<Longrightarrow> cancelling D V E dump_json validate a a'"

text \<open>
  \<open>WorkerPool.stop\<close>: set the stop event, let the application run until \<open>join()\<close> returns or the timeout expires,
  then cancel every consumer and gather them.
\<close>

definition pool_stopped ::
  "(('m, 'e, 'r) running \<Rightarrow> ('m, 'e, 'r) running \<Rightarrow> bool) \<Rightarrow> (('m, 'e, 'r) running \<Rightarrow> ('m, 'e, 'r) running \<Rightarrow> bool) \<Rightarrow> bool \<Rightarrow>
   ('m, 'e, 'r) running \<Rightarrow> ('m, 'e, 'r) running \<Rightarrow> ('m, 'e, 'r) running \<Rightarrow> bool" where
  "pool_stopped run cancel timed_out a a1 a2 \<longleftrightarrow>
     run\<^sup>*\<^sup>* ((fst a)\<lparr>ap_pipeline := signalling (pipe a)\<rparr>, snd a) a1 \<and> (timed_out \<or> join_ready (pl_queue (pipe a1))) \<and>
     cancel\<^sup>*\<^sup>* a1 a2 \<and> (\<forall>t \<in> set (pl_tasks (pipe a2)). gone t)"

text \<open>\<open>EsIndexer.stop\<close>: the call the task is awaiting is abandoned; it may have taken effect.\<close>

definition indexer_stopped ::
  "'m mongo_driver \<Rightarrow> 'e es_driver \<Rightarrow> (event_document \<Rightarrow> pydict) \<Rightarrow> validator \<Rightarrow> ('m, 'e, 'r) running \<Rightarrow> ('m, 'e, 'r) running \<Rightarrow> bool" where
  "indexer_stopped D E dump_json validate a a' \<longleftrightarrow> (case a of (ap, ph) \<Rightarrow>
     case indexer_task_step D E dump_json validate (it_indexer (ap_indexer ap), ph, pl_store (ap_pipeline ap), ap_es ap) of (_, _, s, x) \<Rightarrow>
       \<exists>(s1, x1) \<in> {(pl_store (ap_pipeline ap), ap_es ap), (s, x)}.
         a' = (set_store s1 (ap\<lparr>ap_es := x1, ap_indexer := es_indexer_stop (ph = Waiting) (ap_indexer ap)\<rparr>), left_on_cancel ph))"

text \<open>\<open>RollupScheduler.stop\<close>, likewise.\<close>

definition rollup_stopped :: "'m mongo_driver \<Rightarrow> ('m, 'e, 'r) running \<Rightarrow> ('m, 'e, 'r) running \<Rightarrow> bool" where
  "rollup_stopped D a a' \<longleftrightarrow> (case a of (ap, ph) \<Rightarrow> let s = pl_store (ap_pipeline ap) in
     \<exists>in_wait s1. (s1 = s \<or> \<not> in_wait \<and> ro_task (ap_rollup ap) = Some Looping \<and> (\<exists>now. s1 = snd (rollup_refresh D now s))) \<and>
       a' = (set_store s1 (ap\<lparr>ap_rollup := rollup_stop in_wait (ap_rollup ap)\<rparr>), ph))"

text \<open>
  Everything after \<open>yield\<close> and before the clients are closed: from the running application to the state in which the
  pool's \<open>join()\<close> ended, and to the state with everything stopped. \<open>run\<close> says which steps the application takes meanwhile.
\<close>

definition wind_down ::
  "'m mongo_driver \<Rightarrow> 'm mongo_view \<Rightarrow> 'e es_driver \<Rightarrow> (event_document \<Rightarrow> pydict) \<Rightarrow> validator \<Rightarrow>
   (('m, 'e, 'r) running \<Rightarrow> ('m, 'e, 'r) running \<Rightarrow> bool) \<Rightarrow> bool \<Rightarrow>
   ('m, 'e, 'r) running \<Rightarrow> ('m, 'e, 'r) running \<Rightarrow> ('m, 'e, 'r) running \<Rightarrow> bool" where
  "wind_down D V E dump_json validate run timed_out a a1 a2 \<longleftrightarrow>
     (\<exists>b c d. pool_stopped run (cancelling D V E dump_json validate) timed_out ((fst a)\<lparr>ap_pipeline := closing (pipe a)\<rparr>, snd a) a1 b \<and>
        indexer_stopped D E dump_json validate b c \<and> (side_step D V E dump_json validate)\<^sup>*\<^sup>* c d \<and> rollup_stopped D d a2)"

definition shutdown ::
  "'m mongo_driver \<Rightarrow> 'm mongo_view \<Rightarrow> 'e es_driver \<Rightarrow> 'r redis_driver \<Rightarrow> (event_document \<Rightarrow> pydict) \<Rightarrow> validator \<Rightarrow>
   (('m, 'e, 'r) running \<Rightarrow> ('m, 'e, 'r) running \<Rightarrow> bool) \<Rightarrow> bool \<Rightarrow> ('m, 'e, 'r) running \<Rightarrow> (exn + unit) \<times> ('m, 'e, 'r) app \<Rightarrow> bool" where
  "shutdown D V E R dump_json validate run timed_out a out \<longleftrightarrow>
     (\<exists>a1 a2. wind_down D V E dump_json validate run timed_out a a1 a2 \<and> out = close_clients D E R (fst a2))"

section \<open>The service stays closed\<close>

lemma worker_step_service:
  "worker_step wr persist exn_str st st' \<Longrightarrow>
    is_accepting (pl_service st') = is_accepting (pl_service st) \<and> pl_accepted st' = pl_accepted st"
proof (induction rule: worker_step.induct)
  case (taking i st st')
  from taking(3) show ?case by (cases rule: take_step_cases) auto
qed (auto simp: write_step_def push_step_def push_begin_def Let_def split: prod.split sum.split)

lemma closed_step:
  assumes "pipeline_step wr persist exn_str others st st'" and "\<not> is_accepting (pl_service st)"
  shows "\<not> is_accepting (pl_service st') \<and> pl_accepted st' = pl_accepted st"
  using assms(1) unfolding pipeline_step_def
proof
  assume "worker_step wr persist exn_str st st'"
  with worker_step_service assms(2) show ?thesis by metis
next
  assume "env_step others st st'"
  then show ?thesis
    using assms(2) by (cases rule: env_step.cases) (auto simp: ingest_closed stop_accepting_def dest: ingest_Inr(1))
qed

lemma closed_run:
  assumes "(orderly_step wr persist exn_str others)\<^sup>*\<^sup>* st st'" and "\<not> is_accepting (pl_service st)"
  shows "\<not> is_accepting (pl_service st') \<and> pl_accepted st' = pl_accepted st"
  using assms
proof (induction rule: rtranclp_induct)
  case (step st1 st2)
  then show ?case using closed_step [of wr persist exn_str others st1 st2] by (auto simp: orderly_step_def)
qed simp

section \<open>Cancelling the consumers\<close>

lemma cancel_step_keeps:
  "cancel_step wr persist st st' \<Longrightarrow> is_accepting (pl_service st') = is_accepting (pl_service st) \<and> pl_accepted st' = pl_accepted st \<and>
    pl_dlq st' = pl_dlq st \<and> q_items (pl_queue st') = q_items (pl_queue st) \<and>
    (pl_store st' = pl_store st \<or> (\<exists>t \<in> set (pl_tasks st). pl_store st' = cancelled_call wr persist t (pl_store st)))"
proof (induction rule: cancel_step.induct)
  case (busy_cancelled i st b s)
  have items: "q_items (pl_queue (acknowledge i b t st)) = q_items (pl_queue st)" for t and st :: "'a pipeline"
    by (rule acknowledge_shape [of i b t st]) simp
  from busy_cancelled have "pl_tasks st ! i \<in> set (pl_tasks st)" by simp
  with busy_cancelled(4) items show ?case by auto
qed simp

context event_store
begin

lemma cancelled_call_keeps:
  assumes "good c" and "inv c s"
  shows "inv c (cancelled_call (wr c) (persist c) t s)" and "held c q s \<subseteq> held c q (cancelled_call (wr c) (persist c) t s)"
proof -
  have "inv c (cancelled_call (wr c) (persist c) t s) \<and> held c q s \<subseteq> held c q (cancelled_call (wr c) (persist c) t s)"
  proof (cases t)
    case (Writing b a)
    obtain r s' where call: "wr c b s = (r, s')" by (metis surj_pair)
    have "held c q s \<subseteq> held c q s'" using held_kept wr_keeps [OF assms call] by blast
    with wr_inv [OF assms call] call show ?thesis by (simp add: Writing)
  next
    case (Pushing b p)
    have docs: "\<forall>d \<in> set (map entry_to_doc p). \<exists>i. doc_id d = Some (PStr i)" by auto
    obtain r s' where call: "persist c (map entry_to_doc p) s = (r, s')" by (metis surj_pair)
    have "held c q s \<subseteq> held c q s'" using held_kept persist_keeps [OF assms docs call] persist_keeps_stored [OF assms docs call] by blast
    with persist_inv [OF assms docs call] call show ?thesis by (simp add: Pushing)
  qed (use assms in simp_all)
  then show "inv c (cancelled_call (wr c) (persist c) t s)" "held c q s \<subseteq> held c q (cancelled_call (wr c) (persist c) t s)" by simp_all
qed

end

section \<open>The pipeline through the shutdown\<close>

text \<open>A step while the pool is being cancelled, as the pipeline sees it.\<close>

definition stopping_step ::
  "(event_document list \<Rightarrow> ('s, unit) io) \<Rightarrow> (pydict list \<Rightarrow> ('s, unit) io) \<Rightarrow> ('s \<Rightarrow> 's \<Rightarrow> bool) \<Rightarrow> 's pipeline \<Rightarrow> 's pipeline \<Rightarrow> bool" where
  "stopping_step wr persist others st st' \<longleftrightarrow>
     cancel_step wr persist st st' \<or> (\<exists>s. others (pl_store st) s \<and> st' = st\<lparr>pl_store := s\<rparr>)"

lemma stopping_run_sound: "(stopping_step wr persist others)\<^sup>*\<^sup>* st st' \<Longrightarrow> sound st \<Longrightarrow> sound st'"
proof (induction rule: rtranclp_induct)
  case (step st1 st2)
  then show ?case using cancel_step_sound env_step_sound [OF env_step.other_user [of others]] unfolding stopping_step_def by blast
qed

lemma closing_steps:
  "env_step others st (closing st)" "\<not> is_accepting (pl_service st) \<Longrightarrow> env_step others st (signalling st)"
  "\<not> is_accepting (pl_service (closing st))" "is_accepting (pl_service (signalling st)) = is_accepting (pl_service st)"
  "pl_accepted (closing st) = pl_accepted st" "pl_accepted (signalling st) = pl_accepted st"
  by (simp_all add: closing_def signalling_def env_step.stopping env_step.signalled, simp add: stop_accepting_def)

context shared_store
begin

lemma stopping_run_keeps:
  assumes "good c" and "inv c (pl_store st)" and "(stopping_step (wr c) (persist c) (others c))\<^sup>*\<^sup>* st st'"
  shows "inv c (pl_store st') \<and> held c (pl_dlq st) (pl_store st) \<subseteq> held c (pl_dlq st') (pl_store st') \<and>
    is_accepting (pl_service st') = is_accepting (pl_service st) \<and> pl_accepted st' = pl_accepted st \<and>
    q_items (pl_queue st') = q_items (pl_queue st)"
  using assms(3)
proof (induction rule: rtranclp_induct)
  case (step st1 st2)
  from step(2) show ?case unfolding stopping_step_def
  proof
    assume "cancel_step (wr c) (persist c) st1 st2"
    note k = cancel_step_keeps [OF this]
    have "inv c (pl_store st2) \<and> held c (pl_dlq st1) (pl_store st1) \<subseteq> held c (pl_dlq st1) (pl_store st2)"
      using k step(3) cancelled_call_keeps [OF assms(1), of "pl_store st1"] by (metis order_refl)
    with k step(3) show ?thesis by (auto dest: subset_trans)
  next
    assume "\<exists>s. others c (pl_store st1) s \<and> st2 = st1\<lparr>pl_store := s\<rparr>"
    then obtain s where s: "others c (pl_store st1) s" "st2 = st1\<lparr>pl_store := s\<rparr>" by blast
    have inv: "inv c (pl_store st1)" using step(3) by simp
    have "held c (pl_dlq st1) (pl_store st1) \<subseteq> held c (pl_dlq st1) s"
      using others_keep [OF assms(1) inv s(1)] by (auto simp: held_def known_def)
    with others_inv [OF assms(1) inv s(1)] s(2) step(3) show ?thesis by auto
  qed
qed (simp add: assms(2))

lemma shutdown_keeps_events:
  assumes good: "good c" and n: "n \<le> 1024" and booted: "well c n st0" "pl_accepted st0 = {}"
    and before: "(run_step exn_str c)\<^sup>*\<^sup>* st0 st" and run: "(run_step exn_str c)\<^sup>*\<^sup>* (signalling (closing st)) st1"
    and cancel: "(stopping_step (wr c) (persist c) (others c))\<^sup>*\<^sup>* st1 st2"
  shows "\<not> is_accepting (pl_service st2) \<and> pl_accepted st2 = pl_accepted st \<and> sound st1 \<and> sound st2 \<and> q_items (pl_queue st2) = q_items (pl_queue st1) \<and>
    pl_accepted st \<subseteq> held c (pl_dlq st2) (pl_store st2) \<union> event_ids_of (q_items (pl_queue st1) @ concat (map in_flight (pl_tasks st1)))"
proof -
  let ?start = "signalling (closing st)"
  note b = run_simulates [OF good n booted(1) before]
  note w0 = env_step_simulates [OF good b [THEN conjunct1] closing_steps(1)]
  note w = env_step_simulates [OF good w0 [THEN conjunct1] closing_steps(2) [OF closing_steps(3)]]
  note w1 = run_simulates [OF good n w [THEN conjunct1] run]
  have st1: "inv c (pl_store st1)" "sound st1" using w1 by (simp_all add: well_def)
  have closed: "\<not> is_accepting (pl_service ?start)" "pl_accepted ?start = pl_accepted st" by (simp_all add: closing_steps)
  note c = closed_run [OF run closed(1)]
  note k = stopping_run_keeps [OF good st1(1) cancel]
  have "ledger_step\<^sup>*\<^sup>* (abs_of c st0) (abs_of c st1)"
    using b w0 w w1 by (meson rtranclp_trans rtranclp.rtrancl_into_rtrancl)
  then have "ledger_inv (abs_of c st1)"
    by (rule ledger_steps_inv) (simp add: ledger_inv_def ledger_of_def booted(2))
  then have "pl_accepted st1 \<subseteq> held c (pl_dlq st1) (pl_store st1) \<union>
      event_ids_of (q_items (pl_queue st1) @ concat (map in_flight (pl_tasks st1)))"
    by (auto simp: ledger_inv_def ledger_of_def settled_ids_def flights_def event_ids_of_def)
  with c k closed(2) stopping_run_sound [OF cancel st1(2)] st1(2) show ?thesis by auto
qed

end

section \<open>The application through the shutdown\<close>

abbreviation mongo_stopping :: "'m mongo_ctx \<Rightarrow> 'm mongo_store pipeline \<Rightarrow> 'm mongo_store pipeline \<Rightarrow> bool" where
  "mongo_stopping c \<equiv> stopping_step (mongo_write c) (mongo_persist c) (mongo_user c)"

lemma user_stopping: "mongo_user c (pl_store st) s \<Longrightarrow> mongo_stopping c st (st\<lparr>pl_store := s\<rparr>)"
  by (auto simp: stopping_step_def)

lemma stay_stopping: "mongo_stopping c st st"
  using user_stopping [OF mongo_user.reading [of c "pl_store st" "pl_store st"]] by simp

lemma side_step_stopping:
  assumes "mongo_contract D V" and "side_step D V E dump_json validate a a'"
  shows "mongo_stopping (D, V) (pipe a) (pipe a')"
proof -
  from side_step_user [OF assms] obtain s where "mongo_user (D, V) (store_of a) s" "pipe a' = (pipe a)\<lparr>pl_store := s\<rparr>" by blast
  with user_stopping show ?thesis by simp
qed

inductive_cases cancellingE: "cancelling D V E dump_json validate a a'"

lemma cancelling_stopping:
  assumes "mongo_contract D V" and "cancelling D V E dump_json validate a a'"
  shows "mongo_stopping (D, V) (pipe a) (pipe a')"
  using assms(2) side_step_stopping [OF assms(1)]
  by (elim cancellingE) (simp_all add: stopping_step_def mongo_write_def [abs_def] mongo_persist_def)

lemma indexer_stopped_stopping:
  assumes "mongo_contract D V" and "indexer_stopped D E dump_json validate a a'"
  shows "mongo_stopping (D, V) (pipe a) (pipe a')"
proof -
  obtain ap ph where a: "a = (ap, ph)" by force
  obtain k ph' s x where step: "indexer_task_step D E dump_json validate (it_indexer (ap_indexer ap), ph, pl_store (ap_pipeline ap), ap_es ap) = (k, ph', s, x)"
    by (metis prod.exhaust)
  with assms(2) a have "pipe a' = pipe a \<or> pipe a' = (pipe a)\<lparr>pl_store := s\<rparr>" by (auto simp: indexer_stopped_def)
  with user_stopping [of "(D, V)" "pipe a" s] indexer_task_user [OF assms(1) step] a stay_stopping show ?thesis by auto
qed

lemma rollup_stopped_stopping:
  assumes "rollup_stopped D a a'"
  shows "mongo_stopping (D, V) (pipe a) (pipe a')"
proof -
  have "mongo_user (D, V) s (snd (rollup_refresh D now s))" for now s
  proof -
    obtain r s1 where run: "rollup_refresh D now s = (r, s1)" by (metis surj_pair)
    from run obtain r0 where "refresh_event_type_rollup D now s = (r0, s1)" by (cases rule: rollup_refresh_cases) auto
    with run show ?thesis by (intro mongo_user.refreshing [of "(D, V)" now s r0]) simp
  qed
  with assms user_stopping [of "(D, V)" "pipe a"] stay_stopping show ?thesis
    by (cases a) (auto simp: rollup_stopped_def Let_def)
qed

lemma rtranclp_project:
  assumes "R\<^sup>*\<^sup>* a b" and "\<And>a b. R a b \<Longrightarrow> S (f a) (f b)"
  shows "S\<^sup>*\<^sup>* (f a) (f b)"
  using assms(1) by (induction rule: rtranclp_induct) (auto intro: rtranclp.rtrancl_into_rtrancl assms(2))

text \<open>What the phases of the shutdown are for the pipeline.\<close>

lemma wind_down_pipeline:
  assumes "mongo_contract D V" and "wind_down D V E dump_json validate (app_orderly D V E exn_str dump_json validate) timed_out a a1 a2"
  shows "(mongo_orderly D V exn_str)\<^sup>*\<^sup>* (signalling (closing (pipe a))) (pipe a1)" and "timed_out \<or> join_ready (pl_queue (pipe a1))"
    and "(mongo_stopping (D, V))\<^sup>*\<^sup>* (pipe a1) (pipe a2)" and "\<forall>t \<in> set (pl_tasks (pipe a2)). gone t"
proof -
  from assms(2) obtain b c d where
    stopped: "pool_stopped (app_orderly D V E exn_str dump_json validate) (cancelling D V E dump_json validate) timed_out ((fst a)\<lparr>ap_pipeline := closing (pipe a)\<rparr>, snd a) a1 b"
    and bc: "indexer_stopped D E dump_json validate b c" and cd: "(side_step D V E dump_json validate)\<^sup>*\<^sup>* c d" and d: "rollup_stopped D d a2"
    by (auto simp: wind_down_def)
  from stopped [unfolded pool_stopped_def, THEN conjunct1]
  show "(mongo_orderly D V exn_str)\<^sup>*\<^sup>* (signalling (closing (pipe a))) (pipe a1)"
    using app_run_pipeline(2) [OF assms(1)] by fastforce
  show "timed_out \<or> join_ready (pl_queue (pipe a1))" using stopped by (simp add: pool_stopped_def)
  have "(mongo_stopping (D, V))\<^sup>*\<^sup>* (pipe a1) (pipe b)"
    by (rule rtranclp_project [OF stopped [unfolded pool_stopped_def, THEN conjunct2, THEN conjunct2, THEN conjunct1]])
      (rule cancelling_stopping [OF assms(1)])
  moreover have side: "(mongo_stopping (D, V))\<^sup>*\<^sup>* (pipe c) (pipe d)"
    using cd by (rule rtranclp_project) (rule side_step_stopping [OF assms(1)])
  ultimately show "(mongo_stopping (D, V))\<^sup>*\<^sup>* (pipe a1) (pipe a2)"
    using indexer_stopped_stopping [OF assms(1) bc] rollup_stopped_stopping [OF d, of V]
    by (meson rtranclp.rtrancl_into_rtrancl rtranclp_trans)
  have tasks: "pl_tasks (pipe c) = pl_tasks (pipe b)" "pl_tasks (pipe a2) = pl_tasks (pipe d)"
    using bc d by (cases b; cases d; auto simp: indexer_stopped_def rollup_stopped_def Let_def split: prod.splits)+
  have "pl_tasks (pipe d) = pl_tasks (pipe c)"
    using cd
  proof (induction rule: rtranclp_induct)
    case (step y z)
    from side_step_user [OF assms(1) step(2)] step(3) show ?case by auto
  qed simp
  with tasks stopped show "\<forall>t \<in> set (pl_tasks (pipe a2)). gone t" by (simp add: pool_stopped_def)
qed

text \<open>A stopped indexer stays stopped.\<close>

definition indexer_gone :: "('m, 'e, 'r) running \<Rightarrow> bool" where
  "indexer_gone a \<longleftrightarrow> (\<exists>r. snd a = Left r) \<and> it_task (ap_indexer (fst a)) \<noteq> Some Looping"

lemma side_step_gone: "side_step D V E dump_json validate a a' \<Longrightarrow> indexer_gone a \<Longrightarrow> indexer_gone a'"
  by (induction rule: side_step.induct)
    (auto simp: indexer_gone_def indexer_task_step_def put_indexer_def task_of_def split: option.splits)

lemma cancel_loop_stopped [simp]: "cancel_loop in_wait t \<noteq> Some Looping"
  by (simp add: cancel_loop_def)

lemma left_on_cancel_left [simp]: "\<exists>r. left_on_cancel ph = Left r"
  by (simp add: left_on_cancel_def split: indexer_phase.split)

lemma wind_down_ends_loops:
  assumes "wind_down D V E dump_json validate run timed_out a a1 a2"
  shows "it_task (ap_indexer (fst a2)) \<noteq> Some Looping \<and> ro_task (ap_rollup (fst a2)) \<noteq> Some Looping"
proof -
  from assms obtain b c d where bc: "indexer_stopped D E dump_json validate b c"
    and cd: "(side_step D V E dump_json validate)\<^sup>*\<^sup>* c d" and d: "rollup_stopped D d a2"
    by (auto simp: wind_down_def)
  have "indexer_gone c"
    using bc by (cases b) (auto simp: indexer_stopped_def indexer_gone_def es_indexer_stop_def split: prod.splits)
  with cd have "indexer_gone d" by (induction rule: rtranclp_induct) (auto intro: side_step_gone)
  with d show ?thesis
    by (cases d) (auto simp: rollup_stopped_def rollup_stop_def indexer_gone_def Let_def)
qed

section \<open>Properties\<close>

text \<open>
  C6: a graceful shutdown, of an application in which no two dead-letter pushes overlapped, neither before
  \<open>stop_accepting()\<close> was called nor during the drain. (C39 shows that overlapping
  pushes can lose an entry.) Wherever such a run stood when the shutdown began: when everything
  has been stopped, every request is refused with \<open>IngestionClosed\<close>, neither background loop runs, and each event that
  was answered with 202 is stored, recorded in the dead-letter collection or in the DLQ's memory buffer, which
  ends with the process; only when the drain timed out may it instead be one of those that were queued or in a
  consumer's hands when the consumers were cancelled. After a drain in time the queue is empty and nothing is
  unfinished.
\<close>

theorem graceful_shutdown:
  assumes "mongo_contract D V" and "only_duplicate_errors D" and "store_inv V s"
    and "max_retries cfg = int n" and "n \<le> 1024" and "ap_pipeline ap = boot cfg s"
    and run: "(app_orderly D V E exn_str dump_json validate)\<^sup>*\<^sup>* (ap, Fetching) a"
    and down: "wind_down D V E dump_json validate (app_orderly D V E exn_str dump_json validate) timed_out a a1 a2"
  shows "ingest entropy now ev k (pl_service (pipe a2)) = (Inl IngestionClosed, pl_service (pipe a2)) \<and>
    it_task (ap_indexer (fst a2)) \<noteq> Some Looping \<and> ro_task (ap_rollup (fst a2)) \<noteq> Some Looping \<and>
    pl_accepted (pipe a) \<subseteq> stored_ids V (store_of a2) COLLECTION \<union> stored_ids V (store_of a2) DEAD_LETTER \<union> buffered_ids (pl_dlq (pipe a2)) \<union>
      (if timed_out then event_ids_of (q_items (pl_queue (pipe a1)) @ concat (map in_flight (pl_tasks (pipe a1)))) else {}) \<and>
    (\<not> timed_out \<longrightarrow> q_items (pl_queue (pipe a2)) = [] \<and> join_ready (pl_queue (pipe a2)))"
proof -
  have good: "sink_good (D, V)" and inv: "sink_inv (D, V) s" using assms(1-3) by (simp_all add: sink_good_def sink_inv_def)
  note phases = wind_down_pipeline [OF assms(1) down]
  have "(mongo_orderly D V exn_str)\<^sup>*\<^sup>* (boot cfg s) (pipe a)" using app_run_pipeline(2) [OF assms(1) run] by (simp add: assms(6))
  from mongo_pipeline.shutdown_keeps_events [OF good assms(5) boot_well [OF inv assms(4)] _ this [unfolded mongo_step_ctx]
      phases(1) [unfolded mongo_step_ctx] phases(3)]
  have closed: "\<not> is_accepting (pl_service (pipe a2))" and sound: "sound (pipe a1)" "sound (pipe a2)"
    and items: "q_items (pl_queue (pipe a2)) = q_items (pl_queue (pipe a1))"
    and held: "pl_accepted (pipe a) \<subseteq> mongo_events.held (D, V) (pl_dlq (pipe a2)) (store_of a2) \<union>
      event_ids_of (q_items (pl_queue (pipe a1)) @ concat (map in_flight (pl_tasks (pipe a1))))" by simp_all
  have quiet: "q_items (pl_queue (pipe a1)) = [] \<and> (\<forall>t \<in> set (pl_tasks (pipe a1)). in_flight t = [])" if "\<not> timed_out"
    using accounting_join [OF sound(1)] phases(2) that by simp
  then have "event_ids_of (q_items (pl_queue (pipe a1)) @ concat (map in_flight (pl_tasks (pipe a1)))) = {}" if "\<not> timed_out"
    using that by (auto simp: event_ids_of_def)
  with held have "pl_accepted (pipe a) \<subseteq> stored_ids V (store_of a2) COLLECTION \<union> stored_ids V (store_of a2) DEAD_LETTER \<union> buffered_ids (pl_dlq (pipe a2)) \<union>
      (if timed_out then event_ids_of (q_items (pl_queue (pipe a1)) @ concat (map in_flight (pl_tasks (pipe a1)))) else {})"
    unfolding mongo_held by (cases timed_out) auto
  moreover have "in_flight t = []" if "t \<in> set (pl_tasks (pipe a2))" for t using phases(4) that by (auto simp: gone_def)
  then have "\<not> timed_out \<longrightarrow> q_items (pl_queue (pipe a2)) = [] \<and> join_ready (pl_queue (pipe a2))"
    using quiet items accounting_join [OF sound(2)] by auto
  moreover note ingest_closed [OF closed] wind_down_ends_loops [OF down]
  ultimately show ?thesis by blast
qed

text \<open>A drained application with one waiting consumer can be shut down at once.\<close>

lemma idle_wind_down:
  assumes "pl_tasks (pipe a) = [Idle]" and "join_ready (pl_queue (pipe a))"
  shows "\<exists>a1 a2. wind_down D V E dump_json validate run False a a1 a2"
proof -
  let ?a1 = "((fst a)\<lparr>ap_pipeline := signalling (closing (pipe a))\<rparr>, snd a)"
  let ?b = "((fst a)\<lparr>ap_pipeline := set_task 0 Finished (pipe ?a1)\<rparr>, snd a)"
  let ?c = "(set_store (store_of ?b) ((fst ?b)\<lparr>ap_es := search_of ?b, ap_indexer := es_indexer_stop (snd a = Waiting) (ap_indexer (fst ?b))\<rparr>), left_on_cancel (snd a))"
  let ?d = "(set_store (store_of ?c) ((fst ?c)\<lparr>ap_rollup := rollup_stop True (ap_rollup (fst ?c))\<rparr>), snd ?c)"
  have tasks: "pl_tasks (pipe ?a1) = [Idle]" using assms(1) by (simp add: signalling_def closing_def)
  have "cancel_step (bulk_write D) (persist_dead_letters D) (pipe ?a1) (pipe ?b)"
    by (simp, rule cancel_step.idle_cancelled) (use tasks in simp_all)
  then have "cancelling D V E dump_json validate ?a1 ?b"
    using cancelling.consumer [where ap = "fst ?a1" and ph = "snd a"] by simp
  moreover have "join_ready (pl_queue (pipe ?a1))"
    using assms(2) by (simp add: signalling_def closing_def stop_accepting_def)
  ultimately have "pool_stopped run (cancelling D V E dump_json validate) False ((fst a)\<lparr>ap_pipeline := closing (pipe a)\<rparr>, snd a) ?a1 ?b"
    using tasks by (auto simp: pool_stopped_def gone_def)
  moreover have "indexer_stopped D E dump_json validate ?b ?c"
    by (auto simp: indexer_stopped_def split: prod.split)
  moreover have "rollup_stopped D ?c ?d"
    by (auto simp: rollup_stopped_def Let_def intro!: exI [of _ True])
  ultimately show ?thesis unfolding wind_down_def by blast
qed

theorem graceful_shutdown_witness:
  "\<exists>a1 a2. wind_down (mem_driver True) mem_view (esm_driver (\<lambda>_. False) any_leaf) model_dump strict_validate sample_step False run_indexed a1 a2 \<and>
     keyed_id \<in> stored_ids mem_view (store_of a2) COLLECTION \<union> stored_ids mem_view (store_of a2) DEAD_LETTER \<union> buffered_ids (pl_dlq (pipe a2))"
proof -
  have idle: "pl_tasks (pipe run_indexed) = [Idle]" "pl_accepted (pipe run_indexed) = {keyed_id}"
    by (simp_all add: run_indexed_def run_stored_fields)
  have "join_ready (pl_queue (pipe run_indexed))" by (simp add: run_indexed_def run_stored_eq join_ready_def)
  from idle_wind_down [OF idle(1) this] obtain a1 a2 where
    down: "wind_down (mem_driver True) mem_view (esm_driver (\<lambda>_. False) any_leaf) model_dump strict_validate sample_step False run_indexed a1 a2" by blast
  from graceful_shutdown [where n = 5 and cfg = one_worker and s = "mem_store []", OF mem_contract mem_only_duplicates mem_store_inv _ _ _ run_indexed_steps this] idle(2) down
  have "keyed_id \<in> stored_ids mem_view (store_of a2) COLLECTION \<union> stored_ids mem_view (store_of a2) DEAD_LETTER \<union> buffered_ids (pl_dlq (pipe a2))"
    by simp
  with down show ?thesis by blast
qed

section \<open>Probes\<close>

text \<open>Only Mongo decides the readiness; the others can degrade it.\<close>

lemma health_ready_status:
  assumes "health_ready D E R ap = (Inr rd, ap')"
  shows "(rd_status_code rd = 200 \<longleftrightarrow> map_of (rd_checks rd) ''mongodb'' = Some True) \<and> rd_status_code rd \<in> {200, 503} \<and>
    (rd_status rd = ''ready'' \<longleftrightarrow> (\<forall>(n, up) \<in> set (rd_checks rd). up)) \<and> map fst (rd_checks rd) = [''mongodb'', ''elasticsearch'', ''redis'']"
  using assms by (fastforce simp: health_ready_def Let_def elim!: io_bind_cases split: if_splits)

end
