(* ===== verification/Solo_Run.thy ===== *)
theory Solo_Run
  imports Pipeline
begin

text \<open>
  The two models of a consumer agree: \<open>consume_turn\<close> runs one turn of \<open>_consume\<close> from start to end, \<open>worker_step\<close>
  cuts it at its \<open>await\<close>s so that others can run in between. When nothing does, the steps add up to the turn.
\<close>

lemma set_task_twice [simp]: "set_task i t (set_task i u st) = set_task i t st"
  by (simp add: set_task_def)

lemma set_task_updates:
  "(set_task i t st)\<lparr>pl_store := s\<rparr> = set_task i t (st\<lparr>pl_store := s\<rparr>)" "(set_task i t st)\<lparr>pl_pool := p\<rparr> = set_task i t (st\<lparr>pl_pool := p\<rparr>)"
  "(set_task i t st)\<lparr>pl_dlq := d\<rparr> = set_task i t (st\<lparr>pl_dlq := d\<rparr>)" "set_queue q (set_task i t st) = set_task i t (set_queue q st)"
  by (simp_all add: set_task_def set_queue_def)

lemma acknowledge_overwrites [simp]: "acknowledge i b t (set_task i u st) = acknowledge i b t st"
  by (simp add: acknowledge_def set_task_updates split: prod.split sum.split)

lemma store_after_pool: "st\<lparr>pl_pool := p, pl_store := s\<rparr> = st\<lparr>pl_store := s, pl_pool := p\<rparr>"
  by simp

text \<open>Where a consumer is once the attempts from \<open>a\<close> on have ended with \<open>r\<close>.\<close>

definition after_attempts ::
  "(exn \<Rightarrow> string) \<Rightarrow> (nat \<Rightarrow> datetime) \<Rightarrow> nat \<Rightarrow> event_document list \<Rightarrow> exn + exn option \<Rightarrow> worker_pool \<Rightarrow> 's \<Rightarrow> 's pipeline \<Rightarrow> 's pipeline" where
  "after_attempts exn_str clock i b r p s st = (case r of
       Inl e \<Rightarrow> acknowledge i b (Died e) (st\<lparr>pl_store := s, pl_pool := p\<rparr>)
     | Inr None \<Rightarrow> acknowledge i b Idle (st\<lparr>pl_store := s, pl_pool := note_success (length b) p\<rparr>)
     | Inr (Some e) \<Rightarrow> (case push_begin clock b (exn_str e) (pl_dlq st) of
          (q, pending) \<Rightarrow> set_task i (Pushing b pending) (st\<lparr>pl_store := s, pl_pool := p, pl_dlq := q\<rparr>)))"

lemma after_attempts_overwrites [simp]:
  "after_attempts exn_str clock i b r p s (set_task i t st) = after_attempts exn_str clock i b r p s st"
  by (simp add: after_attempts_def set_task_updates split: sum.split option.split prod.split)

lemma after_attempts_store [simp]:
  "after_attempts exn_str clock i b r p s (st\<lparr>pl_store := s', pl_pool := p'\<rparr>) = after_attempts exn_str clock i b r p s st"
  by (simp add: after_attempts_def split: sum.split option.split)

lemma attempts_run:
  assumes "i < length (pl_tasks st)" and "pl_tasks st ! i = Writing b a" and "a \<le> n" and "wp_max_retries (pl_pool st) = int n"
    and "write_attempts (wr b) rnd [a..<Suc n] last_exc (pl_pool st, pl_store st) = (r, p', s')"
  shows "(worker_step wr persist exn_str)\<^sup>*\<^sup>* st (after_attempts exn_str clock i b r p' s' st)"
  using assms
proof (induction "n - a" arbitrary: a st last_exc)
  case 0
  then have "a = n" by simp
  have "worker_step wr persist exn_str st (write_step wr exn_str clock (rnd a) i b a st)" using 0 by (intro worker_step.writing)
  moreover have "write_step wr exn_str clock (rnd a) i b a st = after_attempts exn_str clock i b r p' s' st"
    using 0 unfolding \<open>a = n\<close>
    by (auto simp: write_step_def after_attempts_def Let_def split: prod.splits sum.splits if_splits)
  ultimately show ?case by simp
next
  case (Suc k)
  let ?st = "write_step wr exn_str clock (rnd a) i b a st"
  have step: "worker_step wr persist exn_str st ?st" using Suc.prems by (intro worker_step.writing)
  from Suc.hyps(2) have "a < n" by simp
  then have range: "[a..<Suc n] = a # [Suc a..<Suc n]" by (simp add: upt_conv_Cons)
  obtain x s where call: "wr b (pl_store st) = (x, s)" by (metis surj_pair)
  show ?case
  proof (cases "\<exists>e. x = Inl e \<and> is_Exception e \<and> a < 1024")
    case False
    have "?st = after_attempts exn_str clock i b r p' s' st"
      using Suc.prems(4,5) False \<open>a < n\<close> call unfolding range
      by (auto simp: write_step_def after_attempts_def Let_def split: sum.splits if_splits)
    with step show ?thesis by auto
  next
    case True
    then obtain e where e: "x = Inl e" "is_Exception e" "a < 1024" by blast
    let ?st1 = "set_task i (Writing b (Suc a)) (st\<lparr>pl_store := s, pl_pool := note_retry (rnd a) a (pl_pool st)\<rparr>)"
    have sleep: "?st = set_task i (Sleeping b (Suc a)) (st\<lparr>pl_store := s, pl_pool := note_retry (rnd a) a (pl_pool st)\<rparr>)"
      using call e \<open>a < n\<close> Suc.prems(4) by (simp add: write_step_def Let_def)
    have "worker_step wr persist exn_str ?st ?st1"
      using worker_step.waking [of i ?st b "Suc a" wr persist exn_str] Suc.prems(1) by (simp add: sleep)
    moreover have "(worker_step wr persist exn_str)\<^sup>*\<^sup>* ?st1 (after_attempts exn_str clock i b r p' s' ?st1)"
    proof (rule Suc.hyps(1) [where last_exc = "Some e"])
      show "write_attempts (wr b) rnd [Suc a..<Suc n] (Some e) (pl_pool ?st1, pl_store ?st1) = (r, p', s')"
        using Suc.prems(4,5) call e \<open>a < n\<close> unfolding range by (simp del: upt_Suc)
      show "Suc a \<le> n" using \<open>a < n\<close> by (rule Suc_leI)
    qed (use Suc.prems Suc.hyps(2) in simp_all)
    moreover have "after_attempts exn_str clock i b r p' s' ?st1 = after_attempts exn_str clock i b r p' s' st" by simp
    ultimately show ?thesis using step by (metis converse_rtranclp_into_rtranclp)
  qed
qed

text \<open>Where the turn's result leaves the consumer.\<close>

fun turn_task :: "turn \<Rightarrow> task" where
  "turn_task Waited = Idle"
| "turn_task Exited = Finished"
| "turn_task Processed = Idle"
| "turn_task (Raised e) = Died e"

definition after_turn ::
  "nat \<Rightarrow> turn \<times> event_document event_queue \<times> worker_pool \<times> dlq \<times> 's \<Rightarrow> 's pipeline \<Rightarrow> 's pipeline" where
  "after_turn i out st = (case out of (t, evq, p, d, s) \<Rightarrow>
     set_task i (turn_task t) (set_queue evq (st\<lparr>pl_pool := p, pl_dlq := d, pl_store := s\<rparr>)))"

definition turn_input :: "'s pipeline \<Rightarrow> event_document event_queue \<times> worker_pool \<times> dlq \<times> 's" where
  "turn_input st = (pl_queue st, pl_pool st, pl_dlq st, pl_store st)"

text \<open>Processing a batch that is in hand, and the acknowledgement that ends the turn.\<close>

lemma batch_run:
  assumes "i < length (pl_tasks st)" and "pl_tasks st ! i = Idle" and "b \<noteq> []"
    and "process_batch wr (Some persist) exn_str clock rnd b (pl_pool st, pl_dlq st, pl_store st) = (r, p', d', s')"
  shows "(worker_step wr persist exn_str)\<^sup>*\<^sup>* (begin_batch i b st)
    (acknowledge i b (case r of Inl e \<Rightarrow> Died e | Inr _ \<Rightarrow> Idle) (st\<lparr>pl_pool := p', pl_dlq := d', pl_store := s'\<rparr>))"
proof (cases "attempt_range (pl_pool st) = []")
  case True
  with assms(4) show ?thesis by (auto simp: process_batch_def begin_batch_def)
next
  case False
  then obtain n where n: "wp_max_retries (pl_pool st) = int n" "attempt_range (pl_pool st) = [0..<Suc n]"
    by (cases "wp_max_retries (pl_pool st)") (auto simp: attempt_range_def nat_add_distrib)
  let ?st = "set_task i (Writing b 0) st"
  obtain x p s where att: "write_attempts (wr b) rnd [0..<Suc n] None (pl_pool st, pl_store st) = (x, p, s)" by (metis prod.exhaust)
  have run: "(worker_step wr persist exn_str)\<^sup>*\<^sup>* ?st (after_attempts exn_str clock i b x p s ?st)"
    by (rule attempts_run [where n = n and rnd = rnd and last_exc = None]) (use assms(1) n(1) att in \<open>simp_all del: upt_Suc\<close>)
  have start: "begin_batch i b st = ?st" using False by (simp add: begin_batch_def)
  show ?thesis
  proof (cases "\<exists>e. x = Inr (Some e)")
    case False
    with assms(4) n(2) att have "acknowledge i b (case r of Inl e \<Rightarrow> Died e | Inr _ \<Rightarrow> Idle) (st\<lparr>pl_pool := p', pl_dlq := d', pl_store := s'\<rparr>) =
        after_attempts exn_str clock i b x p s st"
      by (auto simp: process_batch_def after_attempts_def store_after_pool split: sum.splits option.splits)
    with run start show ?thesis by (simp del: after_attempts_store)
  next
    case True
    then obtain e where e: "x = Inr (Some e)" by blast
    obtain q pending where push: "push_begin clock b (exn_str e) (pl_dlq st) = (q, pending)" by (metis surj_pair)
    let ?pushing = "set_task i (Pushing b pending) (st\<lparr>pl_store := s, pl_pool := p, pl_dlq := q\<rparr>)"
    have "worker_step wr persist exn_str ?pushing (push_step persist i b pending ?pushing)"
      using assms(1) by (intro worker_step.pushing) simp_all
    moreover have "push_step persist i b pending ?pushing =
        acknowledge i b (case r of Inl e \<Rightarrow> Died e | Inr _ \<Rightarrow> Idle) (st\<lparr>pl_pool := p', pl_dlq := d', pl_store := s'\<rparr>)"
      using assms(3,4) n(2) att e push
      by (auto simp: process_batch_def push_many_def push_step_def set_task_updates split: prod.splits sum.splits)
    moreover have "after_attempts exn_str clock i b x p s ?st = ?pushing"
      by (simp add: after_attempts_def e push)
    ultimately show ?thesis using run start by (metis rtranclp.rtrancl_into_rtrancl)
  qed
qed

lemma set_queue_same [simp]: "set_queue (pl_queue st) st = st"
  by (simp add: set_queue_def)

lemma set_task_same: "i < length (pl_tasks st) \<Longrightarrow> pl_tasks st ! i = t \<Longrightarrow> set_task i t st = st"
  by (auto simp: set_task_def)

text \<open>
  The steps add up to the turn, so the two models of \<open>_consume\<close> agree. From any state with a waiting consumer, the steps of that consumer alone
  lead to exactly the state \<open>consume_turn\<close> describes, with its random fractions and clock, on every branch:
  nothing to do, a write that succeeds at once or after retries, the dead-letter path, and whatever is raised.
\<close>

theorem solo_run_is_turn:
  assumes "i < length (pl_tasks st)" and "pl_tasks st ! i = Idle" and "queue_inv (pl_queue st)"
  shows "(worker_step wr persist exn_str)\<^sup>*\<^sup>* st (after_turn i (consume_turn wr (Some persist) exn_str clock rnd (turn_input st)) st)"
proof (cases "q_items (pl_queue st)")
  case Nil
  show ?thesis
  proof (cases "wp_stop_event (pl_pool st)")
    case True
    with Nil have "take_step i st = Some (set_task i Finished st)" by (simp add: take_step_def get_def get_nowait_def)
    from worker_step.taking [OF assms(1,2) this] show ?thesis
      using Nil True by (simp add: consume_turn_def turn_input_def get_def get_nowait_def after_turn_def r_into_rtranclp)
  next
    case False
    with Nil show ?thesis
      by (simp add: consume_turn_def turn_input_def get_def get_nowait_def after_turn_def set_task_same [OF assms(1,2)])
  qed
next
  case (Cons x xs)
  let ?b = "next_batch (wp_batch_size (pl_pool st)) (q_items (pl_queue st))"
  let ?q = "(pl_queue st)\<lparr>q_items := drop (length ?b) (q_items (pl_queue st))\<rparr>"
  let ?q' = "?q\<lparr>q_unfinished := q_unfinished (pl_queue st) - length ?b\<rparr>"
  obtain r p' d' s' where run: "process_batch wr (Some persist) exn_str clock rnd ?b (pl_pool st, pl_dlq st, pl_store st) = (r, p', d', s')"
    by (metis prod.exhaust)
  have turn: "consume_turn wr (Some persist) exn_str clock rnd (turn_input st) = (case r of Inl e \<Rightarrow> Raised e | Inr _ \<Rightarrow> Processed, ?q', p', d', s')"
    and b: "0 < length ?b" "length ?b \<le> q_unfinished (pl_queue st)"
    using consume_turn_step [OF assms(3), THEN conjunct2, rule_format, of "pl_pool st" wr "Some persist" exn_str clock rnd "pl_dlq st" "pl_store st"]
      Cons run by (simp_all add: turn_input_def Let_def)
  have "take_step i st = Some (begin_batch i ?b (set_queue ?q st))"
    by (simp add: take_step_def get_Some [OF Cons] gather_next_batch [OF Cons])
  from worker_step.taking [OF assms(1,2) this] have step: "worker_step wr persist exn_str st (begin_batch i ?b (set_queue ?q st))" .
  have "(worker_step wr persist exn_str)\<^sup>*\<^sup>* (begin_batch i ?b (set_queue ?q st))
      (acknowledge i ?b (case r of Inl e \<Rightarrow> Died e | Inr _ \<Rightarrow> Idle) ((set_queue ?q st)\<lparr>pl_pool := p', pl_dlq := d', pl_store := s'\<rparr>))"
    using assms(1,2) b(1) run by (intro batch_run [where clock = clock and rnd = rnd]) auto
  moreover have "acknowledge i ?b t ((set_queue ?q st)\<lparr>pl_pool := p', pl_dlq := d', pl_store := s'\<rparr>) =
      set_task i t (set_queue ?q' (st\<lparr>pl_pool := p', pl_dlq := d', pl_store := s'\<rparr>))" for t
    using b(2) by (subst acknowledge_eq) (simp_all add: set_queue_def)
  ultimately show ?thesis
    using step unfolding turn after_turn_def by (cases r) (auto intro: converse_rtranclp_into_rtranclp)
qed

definition solo_state :: "nat pipeline" where
  "solo_state = \<lparr>pl_service = new_ingestion sample_queue, pl_pool = sample_pool 3, pl_dlq = new_dlq, pl_store = 0,
     pl_tasks = [Idle], pl_accepted = {}\<rparr>"

theorem solo_run_is_turn_witness:
  "\<exists>st'. (worker_step (\<lambda>_ s. (Inr (), Suc s)) (\<lambda>_ s. (Inr (), s)) (\<lambda>_. ''x''))\<^sup>*\<^sup>* solo_state st' \<and>
     q_items (pl_queue st') = [] \<and> q_unfinished (pl_queue st') = 0 \<and> pl_tasks st' = [Idle] \<and> pl_store st' = 1"
proof -
  let ?out = "consume_turn (\<lambda>_ s. (Inr (), Suc s)) (Some (\<lambda>_ s. (Inr (), s))) (\<lambda>_. ''x'') (\<lambda>_. utc_datetime 0) (\<lambda>_. 0) (turn_input solo_state)"
  have "(worker_step (\<lambda>_ s. (Inr (), Suc s)) (\<lambda>_ s. (Inr (), s)) (\<lambda>_. ''x''))\<^sup>*\<^sup>* solo_state (after_turn 0 ?out solo_state)"
    by (rule solo_run_is_turn) (simp_all add: solo_state_def new_ingestion_def sample_queue_inv)
  moreover have "after_turn 0 ?out solo_state = set_task 0 Idle (set_queue \<lparr>q_items = [], q_maxsize = 10, q_unfinished = 0\<rparr>
      (solo_state\<lparr>pl_pool := note_success (Suc (Suc 0)) (sample_pool 3), pl_store := 1\<rparr>))"
    using consume_turn_step [OF sample_queue_inv, THEN conjunct2, of "sample_pool 3" "\<lambda>_ s. (Inr (), Suc s)" "Some (\<lambda>_ s. (Inr (), s))"
      "\<lambda>_. ''x''" "\<lambda>_. utc_datetime 0" "\<lambda>_. 0" new_dlq "0 :: nat"]
    by (simp add: turn_input_def solo_state_def new_ingestion_def after_turn_def sample_queue_eq next_batch_def process_batch_def
        attempt_range_def upt_rec Let_def set_queue_def set_task_def)
  ultimately show ?thesis by (intro exI [of _ "after_turn 0 ?out solo_state"]) (simp add: solo_state_def)
qed

end
