(* ===== verification/Spec2Isabelle.thy ===== *)
theory Spec2Isabelle
  imports Shutdown Solo_Run
begin

text \<open>
  \<^bold>\<open>Acheron\<close> is an event-processing service in Python: \<open>POST /events\<close> validates an event and puts it on a bounded
  in-process queue; a pool of consumers takes batches from the queue and writes them to MongoDB, the source of truth;
  what cannot be written after the retries goes to a dead-letter queue; an indexer copies stored events to
  Elasticsearch, driven by a marker in each document (the outbox); Redis holds cached statistics, the rate-limit counters
  and the claimed idempotency keys; a scheduler keeps a rollup of the counts in Mongo.

  This development translates that code (\<open>src/app\<close>) into executable definitions and proves what it promises, first of
  all that no event answered with 202 is lost: it is queued, in a consumer's hands, stored, or kept as a dead letter.

  \<^bold>\<open>How the code is rendered.\<close>

  \<^item> An object is a record of its attributes, an enumeration or union a datatype. A method is a definition on the
    record of its object. An \<open>async\<close> method that may raise is a function of type \<open>('s, 'a) io\<close>, from the state to the
    exception or the result and the new state (\<open>Acheron_Prelude\<close>); every \<open>try\<close> is an \<open>io_catch\<close> on the exceptions it names,
    so \<open>except Exception\<close> does not catch \<open>CancelledError\<close>.
  \<^item> JSON values, dicts and datetimes are the datatype \<open>pyval\<close> (\<open>Py_Values\<close>). Python integers are \<open>int\<close>; a number with a
    fraction or an exponent is kept as its text. Strings are lists of code points below 256.
  \<^item> The clock, \<open>uuid4\<close>'s random bits and \<open>random.uniform\<close> are arguments. SHA-1, SHA-256 and UUID5 are computed, on
    words of 32 bits (\<open>Hashing\<close>).
  \<^item> The drivers (Motor, the Elasticsearch client, redis-py) are not part of the repository. Each is a record of operations
    over a state of an unknown type, a parameter of every definition that calls it. What their documentation promises is
    a predicate (\<open>mongo_contract\<close>, \<open>es_contract\<close>, \<open>redis_contract\<close>): any call may fail, and a failed write may have
    been applied. Of aggregations only the covered pipelines are described (\<open>pipeline_covered\<close>: four bucket units, sorts
    without ties). Elasticsearch has a second contract for searches (\<open>query_contract\<close>), over the documents that are
    searchable: those of the last refresh, not those just written. Each contract is met by an in-memory instance with a schedule of faults (\<open>Mongo_Memory\<close>, \<open>Es_Memory\<close>,
    and in \<open>Redis_Contract\<close>), on which the witnesses of the properties run the code.
  \<^item> Concurrency is that of one event loop: control passes only at an \<open>await\<close>. \<open>Pipeline\<close> cuts the consumers' code at its
    awaits and runs requests, consumers, cancellations and the other users of Mongo interleaved in any order;
    \<open>Application\<close> adds the indexer, the scheduler, searches and probes. A refresh of the rollup is one step of it (its one
    write goes to a collection no other component uses), and so is a call of \<open>bulk_index\<close> (only the indexer writes the index).

  \<^bold>\<open>Theories and sources.\<close>

  \<^item> \<open>Acheron_Prelude\<close>, \<open>Py_Values\<close>: exceptions, state passing, values, datetimes, \<open>str\<close> of an integer, \<open>str.strip\<close>.
  \<^item> \<open>Event_Queue\<close>: \<open>queue/event_queue.py\<close>, the wrapper over \<open>asyncio.Queue\<close> with its unfinished count.
  \<^item> \<open>Models\<close>: \<open>models.py\<close>; \<open>Hashing\<close>, \<open>Ingestion\<close>: \<open>ingestion/service.py\<close> with the ids it computes.
  \<^item> \<open>Mongo_Contract\<close> (the driver, queries, aggregation stages, BSON's limits), \<open>Mongo_Store\<close>, \<open>Mongo_Queries\<close>,
    \<open>Mongo_Stats\<close>: \<open>storage/mongo.py\<close>, its writes, reads and aggregations.
  \<^item> \<open>Dead_Letter_Queue\<close>: \<open>queue/dlq.py\<close>; \<open>push_many\<close> is also given as the parts before and after its await.
  \<^item> \<open>Worker_Pool\<close>: \<open>worker/consumer.py\<close>, one turn of a consumer in one piece. \<open>Pipeline\<close>: the same code as steps, with the
    requests and the shutdown's signals. \<open>Pipeline_Runs\<close>, \<open>Pipeline_Drain\<close>: what holds along runs, and that the drain
    ends. \<open>Pipeline_Mongo\<close>: the pipeline over \<open>MongoStore\<close> as \<open>lifespan\<close> boots it. \<open>Solo_Run\<close>: the steps of one consumer add
    up to the turn. \<open>Typed_Runs\<close>: what reaches Mongo can be read back.
  \<^item> \<open>Es_Store\<close>, \<open>Es_Memory\<close>: \<open>storage/es.py\<close>. \<open>Es_Indexer\<close>: the passes of \<open>worker/es_indexer.py\<close>. \<open>Background\<close>: its task, and the
    rollup scheduler of \<open>worker/rollup.py\<close>.
  \<^item> \<open>Json\<close>: Python's \<open>json.dumps\<close> and \<open>json.loads\<close>, as far as the code calls them. \<open>Redis_Contract\<close>, \<open>Redis_Cache\<close>:
    \<open>cache/redis_cache.py\<close>.
  \<^item> \<open>Schemas\<close>: \<open>api/schemas.py\<close> and \<open>config.py\<close>. \<open>Routes\<close>, \<open>Replay\<close>: the handlers of \<open>api/routes_events.py\<close>.
  \<^item> \<open>Lifespan\<close>: the startup of \<open>main.py\<close>, with \<open>api/routes_health.py\<close> and \<open>api/routes_metrics.py\<close>. \<open>Indexer_Steps\<close>: the
    indexer's task cut at its awaits. \<open>Application\<close>: everything \<open>lifespan\<close> wires together as one transition system, and that
    each of its steps is a step of the pipeline; \<open>App_Runs\<close>: what holds of Mongo and Elasticsearch together.
    \<open>Shutdown\<close>: the shutdown of \<open>main.py\<close> over the running application.

  \<^bold>\<open>Interfaces.\<close> What one component relies on in another is a locale, interpreted on the model of the code:
  \<open>fifo_buffer\<close> (the queue), \<open>dead_letter_sink\<close> (what \<open>push_many\<close> needs of \<open>persist_dead_letters\<close>), \<open>event_store\<close> (what the
  consumers need of \<open>bulk_write\<close>; it extends the sink), \<open>shared_store\<close> (the same store with other users, over runs of the
  pipeline), \<open>typed_store\<close> (what every user of the store keeps of the documents' shape, and, in a second interpretation,
  of the outbox's markers) and \<open>outbox\<close> (what the indexer needs of \<open>fetch_unindexed\<close> and \<open>mark_indexed\<close>). The last five are interpreted on \<open>MongoStore\<close>.

  \<^bold>\<open>What is shown.\<close> The numbers are those of the properties in the theories.

  \<^item> The pipeline, in every state its interleavings reach: no accepted event is lost (C1), it refines an abstract ledger of
    accepted, open and settled events (C3), the queue's accounting is exact (C4), the drain terminates and then nothing is
    left (C5), what is stored is well typed (C22). The two models of a consumer agree (\<open>solo_run_is_turn\<close>). A batch on
    its own: C8, C28, C29.
  \<^item> The application, in every state its components reach together: where an accepted event is, up to the search mirror
    (C2), the mirror is never behind what Mongo says it holds (C7), where the accepted events are after a graceful
    shutdown (C6): stored, recorded as dead letters, or in the DLQ's memory buffer, which ends with the process.
  \<^item> The queue and the ingestion: backpressure and order (C26), every outcome of \<open>ingest\<close> (C27), which submissions share
    an id (C31).
  \<^item> Mongo: batch writes store and are idempotent (C12, C30) after the ids of a batch were made unique (C24), pages of events
    (C19, C20) and how tied timestamps break them (C25), counts, buckets, the rollup and the recent window (C32 to C34,
    C18), the swallowed write errors (C38).
  \<^item> Dead letters: kept (C13), replayed without loss (C9; \<open>redrive_users\<close> shows that a replay is a sequence of the steps
    \<open>Application\<close> gives the handlers), and the two ways the buffer fails (C39, C40).
  \<^item> The search mirror: the backlog drains (C11), the indexer's steps add up to its rounds (\<open>indexer_steps_are_turn\<close>), searches
    (C21), the text mirror (C35), rejected documents (C37).
  \<^item> Redis and JSON: rate limit (C14), idempotency keys (C15), fingerprints (C16), cache-aside (C36).
  \<^item> The API: every outcome of \<open>POST /events\<close> (C10), a retry after a refusal (C17), the startup (C23).

  \<^bold>\<open>Bounds, fuel and hypotheses.\<close>

  \<^item> \<open>json_loads\<close> runs \<open>parse_value\<close> with the length of the text as fuel, more than any value in it can use; \<open>json_roundtrip\<close>
    shows that it reads back all that \<open>dumps\<close> prints. Both model Python's library as far as characters below 256 go.
    The loop of the indexer, \<open>drain\<close>, has fuel too; C11 shows that the number of pending events divided by the batch size
    and one more is enough for it to end. Every other loop is total.
  \<^item> \<open>max_retries\<close> is between 0 and 1024 where retries matter: a negative value makes no attempt at all
    (\<open>negative_retries_drop_batch\<close>), and beyond 1024 \<open>math.pow\<close> overflows inside the handler and ends the consumer, as the
    model has it.
  \<^item> \<open>only_duplicate_errors\<close>: Mongo refuses single documents for duplicate ids only. \<open>bulk_write\<close> relies on it, and C38
    shows what happens without. \<open>no_item_errors\<close>: the same for Elasticsearch, in C2 and C7; C37 shows what happens without.
  \<^item> The runs of C1, C2, C3 and C6 are those in which two dead-letter pushes do not overlap; C39 shows that overlapping ones
    lose entries. With one consumer every run is such a run (\<open>one_consumer_orderly\<close>). C4, C5, C7 and C22 hold of all runs.

  \<^bold>\<open>Not modelled.\<close> FastAPI and Starlette (routing, dependency injection, parsing and bounds of parameters, serialising a
  response), so a handler starts from validated parameters and ends in its response model or \<open>HTTPException\<close>. pydantic's
  coercions when a stored dict is read as a model: the validator is a parameter with a contract. The JSON form of a value
  and the set of fields a request body carried are pydantic's too, and parameters. pydantic-settings' reading of the
  environment: \<open>settings\<close> has the fields and their defaults. \<open>logging_config.py\<close> and all log output.
  Elasticsearch's relevance score: the order of the hits is the client's. The first pass of the indexer, which may run
  during the startup while the first rollup is awaited, is left to the steps after it. The thirty seconds of the drain
  timeout are not measured: that it passed is an argument.
\<close>

end
